(* ===== verification/Prelude.thy ===== *)
theory Prelude
  imports
    "HOL-Library.Word"
    "HOL-Library.List_Lexorder"
    "HOL-Library.AList"
    "HOL-Library.Multiset"
begin

section \<open>Prelude: machine values, byte strings, containers\<close>

text \<open>
  Shared vocabulary of the development: bytes and byte strings (both
  \<^verbatim>\<open>std::string\<close> and \<^verbatim>\<open>std::vector<uint8_t>\<close> are lists of
  8-bit words), unsigned wrap-around on natural numbers, steady-clock time
  points, decimal printing (\<^verbatim>\<open>std::to_string\<close>), big-endian values,
  \<^verbatim>\<open>std::map\<close> as a strictly sorted association list and
  \<^verbatim>\<open>std::unordered_map\<close> as a distinct association list, together with
  the generic lemmas the components share.
\<close>

named_theorems wire_simps \<open>equations that evaluate wire-format encoders\<close>
named_theorems wf_intros \<open>introduction rules for well-formedness invariants\<close>

unbundle bit_operations_syntax

subsection \<open>Bytes and literals\<close>

type_synonym byte = "8 word"
type_synonym bytes = "byte list"

text \<open>A C++ string literal as the bytes of its characters.\<close>

definition str :: "string \<Rightarrow> bytes" where
  "str s = map of_char s"

lemma str_Nil [simp]: "str [] = []"
  by (simp add: str_def)

lemma str_Cons [simp]: "str (c # s) = of_char c # str s"
  by (simp add: str_def)

lemma length_str [simp]: "length (str s) = length s"
  by (simp add: str_def)

text \<open>The ASCII predicates of \<^verbatim>\<open><cctype>\<close> in the C locale.\<close>

definition is_digit :: "byte \<Rightarrow> bool" where
  "is_digit b = (48 \<le> b \<and> b \<le> 57)"

definition is_alnum :: "byte \<Rightarrow> bool" where
  "is_alnum b = (is_digit b \<or> (65 \<le> b \<and> b \<le> 90) \<or> (97 \<le> b \<and> b \<le> 122))"

definition digit_val :: "byte \<Rightarrow> nat" where
  "digit_val b = unat b - 48"

definition digit_byte :: "nat \<Rightarrow> byte" where
  "digit_byte d = of_nat (48 + d)"

lemma unat_digit_byte: "d < 10 \<Longrightarrow> unat (digit_byte d) = 48 + d"
  by (simp add: digit_byte_def unat_of_nat del: of_nat_add of_nat_numeral)

lemma digit_byte_simps [simp]:
  assumes "d < 10"
  shows "is_digit (digit_byte d)" "digit_val (digit_byte d) = d"
proof -
  have "unat (digit_byte d) = 48 + d" using assms by (rule unat_digit_byte)
  then show "is_digit (digit_byte d)" "digit_val (digit_byte d) = d"
    using assms by (simp_all add: is_digit_def digit_val_def word_le_nat_alt)
qed

subsection \<open>Unsigned integers of a fixed width on natural numbers\<close>

text \<open>
  \<^verbatim>\<open>uint32_t\<close>, \<^verbatim>\<open>uint64_t\<close> and \<^verbatim>\<open>size_t\<close> (64 bits) as natural
  numbers below the modulus; every arithmetic result is reduced.
\<close>

definition u16 :: "nat \<Rightarrow> nat" where "u16 n = n mod 2 ^ 16"
definition u32 :: "nat \<Rightarrow> nat" where "u32 n = n mod 2 ^ 32"
definition u64 :: "nat \<Rightarrow> nat" where "u64 n = n mod 2 ^ 64"

definition u32_sub :: "nat \<Rightarrow> nat \<Rightarrow> nat" where
  "u32_sub a b = u32 (a + 2 ^ 32 - b)"

definition u64_sub :: "nat \<Rightarrow> nat \<Rightarrow> nat" where
  "u64_sub a b = u64 (a + 2 ^ 64 - b)"

lemma u16_less [simp]: "u16 n < 65536" by (simp add: u16_def)
lemma u32_less [simp]: "u32 n < 4294967296" by (simp add: u32_def)
lemma u64_less [simp]: "u64 n < 18446744073709551616" by (simp add: u64_def)
lemma u16_id: "n < 2 ^ 16 \<Longrightarrow> u16 n = n" by (simp add: u16_def)
lemma u32_id: "n < 2 ^ 32 \<Longrightarrow> u32 n = n" by (simp add: u32_def)
lemma u64_id: "n < 2 ^ 64 \<Longrightarrow> u64 n = n" by (simp add: u64_def)

lemma diff_add_mod:
  fixes a b m :: nat
  assumes "b \<le> a" "a < m"
  shows "(a + m - b) mod m = a - b"
proof -
  have "a + m - b = (a - b) + m" using assms by simp
  then show ?thesis using assms by (simp add: mod_if)
qed

lemma u32_sub_id: "b \<le> a \<Longrightarrow> a < 2 ^ 32 \<Longrightarrow> u32_sub a b = a - b"
  unfolding u32_sub_def u32_def by (rule diff_add_mod)

lemma u64_sub_id: "b \<le> a \<Longrightarrow> a < 2 ^ 64 \<Longrightarrow> u64_sub a b = a - b"
  unfolding u64_sub_def u64_def by (rule diff_add_mod)

subsection \<open>Time\<close>

text \<open>
  A \<^verbatim>\<open>steady_clock::time_point\<close> is the number of nanoseconds since the
  clock's epoch; the default-constructed time point is 0. Each operation that
  reads the clock takes the value read as its argument \<open>now\<close>.
\<close>

type_synonym time = int

definition milliseconds :: "int \<Rightarrow> time" where "milliseconds n = n * 1000000"
definition seconds :: "int \<Rightarrow> time" where "seconds n = n * 1000000000"
definition minutes :: "int \<Rightarrow> time" where "minutes n = n * 60000000000"

subsection \<open>Decimal printing: std::to_string\<close>

fun dec :: "nat \<Rightarrow> bytes" where
  "dec n = (if n < 10 then [digit_byte n] else dec (n div 10) @ [digit_byte (n mod 10)])"

declare dec.simps [simp del]

definition dec_int :: "int \<Rightarrow> bytes" where
  "dec_int i = (if i < 0 then str ''-'' @ dec (nat (- i)) else dec (nat i))"

text \<open>The value of a run of digits, read from the left.\<close>

definition digits_val :: "bytes \<Rightarrow> nat" where
  "digits_val ds = foldl (\<lambda>a b. a * 10 + digit_val b) 0 ds"

lemma digits_val_simps [simp]:
  "digits_val [] = 0"
  "digits_val (ds @ [d]) = digits_val ds * 10 + digit_val d"
  by (simp_all add: digits_val_def)

lemma dec_nonempty [simp]: "dec n \<noteq> []"
  by (subst dec.simps) simp

lemma dec_digits: "b \<in> set (dec n) \<Longrightarrow> is_digit b"
proof (induction n rule: dec.induct)
  case (1 n)
  then show ?case by (cases "n < 10") (auto simp: dec.simps [of n])
qed

lemma digits_val_dec [simp]: "digits_val (dec n) = n"
proof (induction n rule: dec.induct)
  case (1 n)
  show ?case
  proof (cases "n < 10")
    case True
    then show ?thesis using digits_val_simps(2) [of "[]" "digit_byte n"]
      by (simp add: dec.simps [of n] del: digits_val_simps(2))
  next
    case False
    with 1 have "digits_val (dec (n div 10)) = n div 10" by simp
    with False show ?thesis by (simp add: dec.simps [of n])
  qed
qed

lemma dec_inj: "dec m = dec n \<longleftrightarrow> m = n"
  by (metis digits_val_dec)

lemma takeWhile_dec [simp]:
  "\<not> is_digit x \<Longrightarrow> takeWhile is_digit (dec n @ x # xs) = dec n"
  by (subst takeWhile_append2) (auto simp: dec_digits)

subsection \<open>Big-endian values\<close>

text \<open>The unsigned number a byte string denotes, most significant byte first.\<close>

fun be_val :: "bytes \<Rightarrow> nat" where
  "be_val [] = 0"
| "be_val (b # bs) = unat b * 256 ^ length bs + be_val bs"

lemma be_val_bound: "be_val bs < 256 ^ length bs"
proof (induction bs)
  case Nil
  then show ?case by simp
next
  case (Cons b bs)
  have "unat b < 256" using unsigned_less [where 'a = nat and w = b] by simp
  then have "Suc (unat b) * 256 ^ length bs \<le> 256 * 256 ^ length bs"
    by (intro mult_le_mono1) simp
  then have "unat b * 256 ^ length bs + 256 ^ length bs \<le> 256 ^ length (b # bs)"
    by (simp add: algebra_simps)
  with Cons show ?case unfolding be_val.simps by linarith
qed

lemma be_val_append: "be_val (xs @ ys) = be_val xs * 256 ^ length ys + be_val ys"
  by (induction xs) (simp_all add: power_add algebra_simps)

lemma be_val_less_iff: "length xs = length ys \<Longrightarrow> be_val xs < be_val ys \<longleftrightarrow> xs < ys"
proof (induction xs ys rule: list_induct2)
  case Nil
  then show ?case by simp
next
  case (Cons x xs y ys)
  have bx: "be_val xs < 256 ^ length ys" using be_val_bound [of xs] Cons.hyps by simp
  have by': "be_val ys < 256 ^ length ys" by (rule be_val_bound)
  have step: "unat a * 256 ^ length ys + p < unat b * 256 ^ length ys + q"
    if "a < b" "p < 256 ^ length ys" for a b :: byte and p q
  proof -
    from that have "Suc (unat a) \<le> unat b" by (simp add: word_less_nat_alt)
    then have "Suc (unat a) * 256 ^ length ys \<le> unat b * 256 ^ length ys"
      by (rule mult_le_mono1)
    with that show ?thesis by simp
  qed
  consider "x < y" | "x = y" | "y < x" by (rule linorder_less_linear [THEN disjE]) auto
  then show ?case
  proof cases
    case 1
    then show ?thesis using step [OF 1 bx] Cons.hyps by simp
  next
    case 2
    then show ?thesis using Cons by simp
  next
    case 3
    then have "be_val (y # ys) < be_val (x # xs)" using step [OF 3 by'] Cons.hyps by simp
    with 3 show ?thesis by auto
  qed
qed

lemma be_val_inject: "length xs = length ys \<Longrightarrow> be_val xs = be_val ys \<longleftrightarrow> xs = ys"
  by (metis be_val_less_iff linorder_less_linear less_irrefl)

lemma be_val_eq_0_iff: "be_val bs = 0 \<longleftrightarrow> (\<forall>b\<in>set bs. b = 0)"
  by (induction bs) (auto simp: unat_eq_zero)

subsection \<open>std::map: strictly sorted association lists\<close>

fun map_put :: "'k::linorder \<Rightarrow> 'v \<Rightarrow> ('k \<times> 'v) list \<Rightarrow> ('k \<times> 'v) list" where
  "map_put k v [] = [(k, v)]"
| "map_put k v ((k', v') # m) =
     (if k < k' then (k, v) # (k', v') # m
      else if k = k' then (k, v) # m
      else (k', v') # map_put k v m)"

definition sorted_keys :: "('k::linorder \<times> 'v) list \<Rightarrow> bool" where
  "sorted_keys m = sorted_wrt (<) (map fst m)"

lemma sorted_keys_simps [simp]:
  "sorted_keys []"
  "sorted_keys ((k, v) # m) \<longleftrightarrow> (\<forall>k'\<in>fst ` set m. k < k') \<and> sorted_keys m"
  by (auto simp: sorted_keys_def)

lemma fst_set_map_put: "fst ` set (map_put k v m) = insert k (fst ` set m)"
  by (induction k v m rule: map_put.induct) auto

lemma map_put_values: "x \<in> set (map_put k v m) \<Longrightarrow> x = (k, v) \<or> x \<in> set m"
  by (induction m) (auto split: if_splits)

lemma sorted_keys_map_put: "sorted_keys m \<Longrightarrow> sorted_keys (map_put k v m)"
proof (induction m)
  case Nil
  then show ?case by simp
next
  case (Cons p m)
  obtain a b where p: "p = (a, b)" by fastforce
  with Cons show ?case by (fastforce simp: fst_set_map_put)
qed

lemma map_of_map_put: "map_of (map_put k v m) = (map_of m)(k \<mapsto> v)"
  by (induction m) (auto simp: fun_eq_iff)

lemma map_put_last: "\<forall>k'\<in>fst ` set m. k' < k \<Longrightarrow> map_put k v m = m @ [(k, v)]"
  by (induction m) auto

lemma sorted_keys_append_last:
  "sorted_keys (m @ [(k, v)]) \<longleftrightarrow> sorted_keys m \<and> (\<forall>k'\<in>fst ` set m. k' < k)"
  by (auto simp: sorted_keys_def sorted_wrt_append)

subsection \<open>std::unordered_map: association lists with distinct keys\<close>

lemma alist_update_new: "k \<notin> fst ` set m \<Longrightarrow> AList.update k v m = m @ [(k, v)]"
  by (induction m) auto

lemma set_alist_delete: "set (AList.delete k m) = {p \<in> set m. fst p \<noteq> k}"
  by (auto simp: AList.delete_eq)

lemma set_alist_update:
  "distinct (map fst m) \<Longrightarrow> set (AList.update k v m) = insert (k, v) {p \<in> set m. fst p \<noteq> k}"
  by (induction m) force+

subsection \<open>Generic list lemmas\<close>

lemma filter_neq_distinct:
  "distinct (map f xs) \<Longrightarrow> x \<in> set xs \<Longrightarrow>
   length (filter (\<lambda>y. f y \<noteq> f x) xs) = length xs - 1"
proof (induction xs)
  case Nil
  then show ?case by simp
next
  case (Cons y ys)
  show ?case
  proof (cases "f y = f x")
    case True
    then have "\<forall>z\<in>set ys. f z \<noteq> f x"
      using Cons.prems by (metis distinct.simps(2) image_eqI list.set_map list.simps(9))
    then have "filter (\<lambda>z. f z \<noteq> f x) ys = ys"
      by (simp add: filter_id_conv)
    with True show ?thesis by simp
  next
    case False
    then have "x \<in> set ys" using Cons.prems by auto
    moreover from this have "ys \<noteq> []" by auto
    ultimately show ?thesis using Cons False by simp
  qed
qed

lemma nth_take_drop_update:
  "length ys + i \<le> length xs \<Longrightarrow>
   take (length ys) (drop i (take i xs @ ys @ drop (i + length ys) xs)) = ys"
  by simp

subsection \<open>The first elements of a sorted list\<close>

lemma take_sort_key:
  assumes "x \<in> set (take k (sort_key f xs))" "y \<in> set xs" "y \<notin> set (take k (sort_key f xs))"
  shows "f x \<le> f y"
proof -
  let ?s = "sort_key f xs"
  have "y \<in> set (drop k ?s)"
    using assms(2,3) by (metis append_take_drop_id set_append set_sort UnE)
  moreover have "sorted (map f (take k ?s) @ map f (drop k ?s))"
    by (simp only: map_append [symmetric] append_take_drop_id sorted_sort_key)
  ultimately show ?thesis using assms(1) unfolding sorted_append by auto
qed

end
