(* ===== verification/Byte_Order.thy ===== *)
theory Byte_Order
  imports Prelude
begin

section \<open>Byte order: inc/byte\_order.h\<close>

text \<open>
  The big-endian readers and writers of \<^verbatim>\<open>inc/byte_order.h\<close>. A pointer
  into a buffer is the buffer and an offset; callers allocate the buffer, so
  the writers update positions and never extend it.
\<close>

definition write_be16 :: "nat \<Rightarrow> 16 word \<Rightarrow> bytes \<Rightarrow> bytes" where
  "write_be16 p val buf =
     buf[p := ucast (drop_bit 8 val), p + 1 := ucast val]"

definition write_be32 :: "nat \<Rightarrow> 32 word \<Rightarrow> bytes \<Rightarrow> bytes" where
  "write_be32 p val buf =
     buf[p := ucast (drop_bit 24 val),
         p + 1 := ucast (drop_bit 16 val),
         p + 2 := ucast (drop_bit 8 val),
         p + 3 := ucast val]"

definition write_be64 :: "nat \<Rightarrow> 64 word \<Rightarrow> bytes \<Rightarrow> bytes" where
  "write_be64 p val buf =
     buf[p := ucast (drop_bit 56 val),
         p + 1 := ucast (drop_bit 48 val),
         p + 2 := ucast (drop_bit 40 val),
         p + 3 := ucast (drop_bit 32 val),
         p + 4 := ucast (drop_bit 24 val),
         p + 5 := ucast (drop_bit 16 val),
         p + 6 := ucast (drop_bit 8 val),
         p + 7 := ucast val]"

definition read_be16 :: "bytes \<Rightarrow> nat \<Rightarrow> 16 word" where
  "read_be16 buf p = push_bit 8 (ucast (buf ! p)) OR ucast (buf ! (p + 1))"

definition read_be32 :: "bytes \<Rightarrow> nat \<Rightarrow> 32 word" where
  "read_be32 buf p =
     push_bit 24 (ucast (buf ! p)) OR
     push_bit 16 (ucast (buf ! (p + 1))) OR
     push_bit 8 (ucast (buf ! (p + 2))) OR
     ucast (buf ! (p + 3))"

definition read_be64 :: "bytes \<Rightarrow> nat \<Rightarrow> 64 word" where
  "read_be64 buf p =
     push_bit 56 (ucast (buf ! p)) OR
     push_bit 48 (ucast (buf ! (p + 1))) OR
     push_bit 40 (ucast (buf ! (p + 2))) OR
     push_bit 32 (ucast (buf ! (p + 3))) OR
     push_bit 24 (ucast (buf ! (p + 4))) OR
     push_bit 16 (ucast (buf ! (p + 5))) OR
     push_bit 8 (ucast (buf ! (p + 6))) OR
     ucast (buf ! (p + 7))"

subsection \<open>The bytes written\<close>

definition be16 :: "16 word \<Rightarrow> bytes" where
  "be16 v = [ucast (drop_bit 8 v), ucast v]"

definition be32 :: "32 word \<Rightarrow> bytes" where
  "be32 v = [ucast (drop_bit 24 v), ucast (drop_bit 16 v), ucast (drop_bit 8 v), ucast v]"

definition be64 :: "64 word \<Rightarrow> bytes" where
  "be64 v = [ucast (drop_bit 56 v), ucast (drop_bit 48 v), ucast (drop_bit 40 v),
             ucast (drop_bit 32 v), ucast (drop_bit 24 v), ucast (drop_bit 16 v),
             ucast (drop_bit 8 v), ucast v]"

lemma length_be [simp]: "length (be16 v) = 2" "length (be32 w) = 4" "length (be64 x) = 8"
  by (simp_all add: be16_def be32_def be64_def)

lemma length_write_be [simp]:
  "length (write_be16 p v buf) = length buf"
  "length (write_be32 p w buf) = length buf"
  "length (write_be64 p x buf) = length buf"
  by (simp_all add: write_be16_def write_be32_def write_be64_def)

text \<open>Writing at the end of a prefix replaces exactly the bytes that follow it.\<close>

lemma write_be16_append [wire_simps]:
  "length pre = p \<Longrightarrow> write_be16 p v (pre @ a # b # post) = pre @ be16 v @ post"
  by (auto simp: write_be16_def be16_def list_update_append)

lemma write_be32_append [wire_simps]:
  "length pre = p \<Longrightarrow> write_be32 p v (pre @ a # b # c # d # post) = pre @ be32 v @ post"
  by (auto simp: write_be32_def be32_def list_update_append)

lemma write_be64_append [wire_simps]:
  "length pre = p \<Longrightarrow>
   write_be64 p v (pre @ a # b # c # d # e # f # g # h # post) = pre @ be64 v @ post"
  by (auto simp: write_be64_def be64_def list_update_append)

subsection \<open>Reading back\<close>

lemma bit_byte_at:
  fixes v :: "'a::len word"
  assumes "n < LENGTH('a)"
  shows "bit (push_bit k (ucast (ucast (drop_bit k v) :: byte)) :: 'a word) n \<longleftrightarrow>
     k \<le> n \<and> n < k + 8 \<and> bit v n"
  using assms by (cases "k \<le> n") (auto simp: bit_simps)

lemma bit_byte_low:
  fixes v :: "'a::len word"
  assumes "n < LENGTH('a)"
  shows "bit (ucast (ucast v :: byte) :: 'a word) n \<longleftrightarrow> n < 8 \<and> bit v n"
  using assms by (auto simp: bit_simps)

lemma be16_value: "push_bit 8 (ucast (ucast (drop_bit 8 v) :: byte)) OR
    ucast (ucast v :: byte) = (v :: 16 word)"
  by (rule bit_word_eqI) (simp add: bit_or_iff bit_byte_at bit_byte_low; linarith)

lemma be32_value:
  "push_bit 24 (ucast (ucast (drop_bit 24 v) :: byte)) OR
   push_bit 16 (ucast (ucast (drop_bit 16 v) :: byte)) OR
   push_bit 8 (ucast (ucast (drop_bit 8 v) :: byte)) OR
   ucast (ucast v :: byte) = (v :: 32 word)"
  by (rule bit_word_eqI) (simp add: bit_or_iff bit_byte_at bit_byte_low; linarith)

lemma be64_value:
  "push_bit 56 (ucast (ucast (drop_bit 56 v) :: byte)) OR
   push_bit 48 (ucast (ucast (drop_bit 48 v) :: byte)) OR
   push_bit 40 (ucast (ucast (drop_bit 40 v) :: byte)) OR
   push_bit 32 (ucast (ucast (drop_bit 32 v) :: byte)) OR
   push_bit 24 (ucast (ucast (drop_bit 24 v) :: byte)) OR
   push_bit 16 (ucast (ucast (drop_bit 16 v) :: byte)) OR
   push_bit 8 (ucast (ucast (drop_bit 8 v) :: byte)) OR
   ucast (ucast v :: byte) = (v :: 64 word)"
  by (rule bit_word_eqI) (simp add: bit_or_iff bit_byte_at bit_byte_low; linarith)

lemma read_be16_append [simp]: "length pre = p \<Longrightarrow> read_be16 (pre @ be16 v @ post) p = v"
  using be16_value [of v] by (auto simp: read_be16_def be16_def nth_append)

lemma read_be32_append [simp]: "length pre = p \<Longrightarrow> read_be32 (pre @ be32 v @ post) p = v"
  using be32_value [of v] by (auto simp: read_be32_def be32_def nth_append)

lemma read_be64_append [simp]: "length pre = p \<Longrightarrow> read_be64 (pre @ be64 v @ post) p = v"
  using be64_value [of v] by (auto simp: read_be64_def be64_def nth_append)

lemma split_at:
  "p + n \<le> length buf \<Longrightarrow>
   \<exists>pre mid post. buf = pre @ mid @ post \<and> length pre = p \<and> length mid = n"
  by (rule exI [of _ "take p buf"], rule exI [of _ "take n (drop p buf)"],
      rule exI [of _ "drop n (drop p buf)"]) (simp only: append_take_drop_id, simp)

lemma length_4_conv: "length xs = 4 \<longleftrightarrow> (\<exists>a b c d. xs = [a, b, c, d])"
  by (auto simp: length_Suc_conv eval_nat_numeral)

lemma length_2_conv: "length xs = 2 \<longleftrightarrow> (\<exists>a b. xs = [a, b])"
  by (auto simp: length_Suc_conv eval_nat_numeral)

text \<open>The 32-bit reader inverts the 32-bit writer anywhere inside a buffer.\<close>

lemma read_write_be32:
  assumes "p + 4 \<le> length buf"
  shows "read_be32 (write_be32 p v buf) p = v"
proof -
  obtain pre mid post where b: "buf = pre @ mid @ post" "length pre = p" "length mid = 4"
    using split_at [OF assms] by blast
  then obtain a c d e where "mid = [a, c, d, e]" by (auto simp: length_4_conv)
  with b show ?thesis by (simp add: write_be32_append)
qed

text \<open>The numbers read are the big-endian values of the bytes.\<close>

lemma unat_byte_sum:
  fixes a b :: byte
  shows "unat (push_bit 8 (ucast a) OR ucast b :: 16 word) = unat a * 256 + unat b"
proof -
  have "push_bit 8 (ucast a) OR ucast b = (push_bit 8 (ucast a) + ucast b :: 16 word)"
    by (rule disjunctive_add [symmetric]) (auto simp: bit_simps dest: bit_imp_le_length)
  moreover have "unat a < 256" "unat b < 256"
    using unsigned_less [where 'a = nat and w = a] unsigned_less [where 'a = nat and w = b]
    by simp_all
  ultimately show ?thesis
    by (simp add: unat_word_ariths push_bit_eq_mult unsigned_ucast_eq take_bit_eq_mod)
qed

lemma read_be16_value:
  assumes "p + 2 \<le> length buf"
  shows "unat (read_be16 buf p) = be_val (take 2 (drop p buf))"
proof -
  obtain pre mid post where b: "buf = pre @ mid @ post" "length pre = p" "length mid = 2"
    using split_at [OF assms] by blast
  then obtain a c where "mid = [a, c]" by (auto simp: length_2_conv)
  with b show ?thesis by (simp add: read_be16_def nth_append unat_byte_sum)
qed

end
