(* ===== verification/Addresses.thy ===== *)
theory Addresses
  imports Byte_Order
begin

section \<open>Hashes and addresses: crypto.h, info\_hash.h, peer\_address\<close>

text \<open>
  Text encodings of 20-byte hashes (\<^verbatim>\<open>inc/crypto.h\<close>), torrent info hashes
  (\<^verbatim>\<open>inc/info_hash.h\<close>) and peer addresses with their 6-byte compact form
  (\<^verbatim>\<open>inc/peer_address.h\<close>, \<^verbatim>\<open>src/peer_address.cpp\<close>). The libc
  conversions \<^verbatim>\<open>inet_ntoa\<close> and \<^verbatim>\<open>inet_aton\<close> are written out: the
  second accepts one to four parts in decimal, octal or hexadecimal and leaves
  the zero-initialised address untouched when it fails.
\<close>

subsection \<open>Hexadecimal and URL encodings\<close>

definition hex_digit :: "nat \<Rightarrow> byte" where
  "hex_digit d = (if d < 10 then of_nat (48 + d) else of_nat (87 + d))"

definition hex_digit_upper :: "nat \<Rightarrow> byte" where
  "hex_digit_upper d = (if d < 10 then of_nat (48 + d) else of_nat (55 + d))"

definition hex_byte :: "byte \<Rightarrow> bytes" where
  "hex_byte b = [hex_digit (unat b div 16), hex_digit (unat b mod 16)]"

definition to_hex :: "bytes \<Rightarrow> bytes" where
  "to_hex hash = concat (map hex_byte hash)"

definition url_unreserved :: "byte \<Rightarrow> bool" where
  "url_unreserved b =
     (is_alnum b \<or> b = of_char CHR ''-'' \<or> b = of_char CHR ''_'' \<or> b = of_char CHR ''.'' \<or>
      b = of_char CHR ''~'')"

definition url_encode :: "bytes \<Rightarrow> bytes" where
  "url_encode hash = concat (map (\<lambda>b.
     if url_unreserved b then [b]
     else [of_char CHR ''%'', hex_digit_upper (unat b div 16), hex_digit_upper (unat b mod 16)]) hash)"

subsection \<open>Info hashes\<close>

type_synonym info_hash = bytes

definition valid_hash :: "info_hash \<Rightarrow> bool" where
  "valid_hash h = (length h = 20)"

definition try_from_raw :: "bytes \<Rightarrow> info_hash option" where
  "try_from_raw raw = (if length raw \<noteq> 20 then None else Some raw)"

definition to_raw :: "info_hash \<Rightarrow> bytes" where
  "to_raw h = take 20 h"

subsection \<open>Peer addresses\<close>

datatype peer_address = PeerAddress (ip: bytes) (port: "16 word")

definition pa_to_string :: "peer_address \<Rightarrow> bytes" where
  "pa_to_string pa = ip pa @ str '':'' @ dec (unat (port pa))"

text \<open>The order used for \<^verbatim>\<open>std::set\<close> keys: by address text, then by port.
  It is a strict linear order, so the keys of such a set are compared the way the library's
  ordered types are.\<close>

definition peer_address_less :: "peer_address \<Rightarrow> peer_address \<Rightarrow> bool" where
  "peer_address_less a b = (if ip a \<noteq> ip b then ip a < ip b else port a < port b)"

instantiation peer_address :: linorder
begin

definition less_peer_address :: "peer_address \<Rightarrow> peer_address \<Rightarrow> bool" where
  "less_peer_address = peer_address_less"

definition less_eq_peer_address :: "peer_address \<Rightarrow> peer_address \<Rightarrow> bool" where
  "less_eq_peer_address a b = (a = b \<or> a < b)"

instance
  by standard
    (auto simp: less_peer_address_def less_eq_peer_address_def peer_address_less_def
      peer_address.expand split: if_splits)

end

subsection \<open>inet\_ntoa and inet\_aton\<close>

definition dot :: byte where "dot = of_char CHR ''.''"

definition inet_ntoa :: "bytes \<Rightarrow> bytes" where
  "inet_ntoa a = dec (unat (a ! 0)) @ dot # dec (unat (a ! 1)) @ dot #
                 dec (unat (a ! 2)) @ dot # dec (unat (a ! 3))"

definition is_odigit :: "byte \<Rightarrow> bool" where
  "is_odigit b = (48 \<le> b \<and> b \<le> 55)"

definition is_xdigit :: "byte \<Rightarrow> bool" where
  "is_xdigit b = (is_digit b \<or> (65 \<le> b \<and> b \<le> 70) \<or> (97 \<le> b \<and> b \<le> 102))"

definition xdigit_val :: "byte \<Rightarrow> nat" where
  "xdigit_val b = (if is_digit b then unat b - 48 else if b \<le> 70 then unat b - 55 else unat b - 87)"

definition base_val :: "nat \<Rightarrow> bytes \<Rightarrow> nat" where
  "base_val base ds = foldl (\<lambda>a d. a * base + xdigit_val d) 0 ds"

text \<open>\<^verbatim>\<open>strtoul\<close> with base 0: the value read and the rest of the text.\<close>

definition strtoul0 :: "bytes \<Rightarrow> nat \<times> bytes" where
  "strtoul0 s =
     (case s of
        z # x # h # r \<Rightarrow>
          if z = 48 \<and> (x = 120 \<or> x = 88) \<and> is_xdigit h
          then (base_val 16 (takeWhile is_xdigit (h # r)), dropWhile is_xdigit (h # r))
          else if z = 48 then (base_val 8 (takeWhile is_odigit s), dropWhile is_odigit s)
          else (base_val 10 (takeWhile is_digit s), dropWhile is_digit s)
      | z # r \<Rightarrow>
          if z = 48 then (base_val 8 (takeWhile is_odigit s), dropWhile is_odigit s)
          else (base_val 10 (takeWhile is_digit s), dropWhile is_digit s)
      | [] \<Rightarrow> (0, []))"

definition is_space :: "byte \<Rightarrow> bool" where
  "is_space b = (b = 32 \<or> (9 \<le> b \<and> b \<le> 13))"

text \<open>
  The loop of \<^verbatim>\<open>inet_aton\<close>: \<open>k\<close> further dotted parts are allowed; the
  last part fills the remaining \<open>k + 1\<close> bytes.
\<close>

fun aton_loop :: "nat \<Rightarrow> bytes \<Rightarrow> (nat list \<times> nat \<times> nat) option" where
  "aton_loop k s =
     (case s of
        [] \<Rightarrow> None
      | c # _ \<Rightarrow>
          if \<not> is_digit c then None
          else let (val, r) = strtoul0 s in
            if 2 ^ 32 \<le> val then None
            else case r of
                   d # r' \<Rightarrow>
                     if d = dot then
                       (case k of
                          0 \<Rightarrow> None
                        | Suc k' \<Rightarrow>
                            if 255 < val then None
                            else map_option (\<lambda>(ps, m, v). (val # ps, m, v)) (aton_loop k' r'))
                     else if is_space d then Some ([], k, val) else None
                 | [] \<Rightarrow> Some ([], k, val))"

declare aton_loop.simps [simp del]

fun be_bytes :: "nat \<Rightarrow> nat \<Rightarrow> bytes" where
  "be_bytes 0 v = []"
| "be_bytes (Suc n) v = be_bytes n (v div 256) @ [of_nat (v mod 256)]"

definition c_str :: "bytes \<Rightarrow> bytes" where
  "c_str s = takeWhile (\<lambda>b. b \<noteq> 0) s"

definition inet_aton :: "bytes \<Rightarrow> bytes option" where
  "inet_aton s =
     (case aton_loop 3 (c_str s) of
        None \<Rightarrow> None
      | Some (ps, m, v) \<Rightarrow>
          if v < 256 ^ Suc m then Some (map of_nat ps @ be_bytes (Suc m) v) else None)"

text \<open>The four bytes of an \<^verbatim>\<open>in_addr\<close> that starts zeroed.\<close>

definition aton_bytes :: "bytes \<Rightarrow> bytes" where
  "aton_bytes s = (case inet_aton s of Some b \<Rightarrow> b | None \<Rightarrow> [0, 0, 0, 0])"

subsection \<open>Compact peers\<close>

definition peer_to_compact :: "bytes \<Rightarrow> 16 word \<Rightarrow> bytes" where
  "peer_to_compact i p = aton_bytes i @ be16 p"

definition compact_to_peer :: "bytes \<Rightarrow> nat \<Rightarrow> (bytes \<times> 16 word) option" where
  "compact_to_peer data offset =
     (if length data < offset + 6 then None
      else Some (inet_ntoa (take 4 (drop offset data)), read_be16 data (offset + 4)))"

function parse_compact_from :: "bytes \<Rightarrow> nat \<Rightarrow> peer_address list" where
  "parse_compact_from data i =
     (if i + 6 \<le> length data then
        (case compact_to_peer data i of
           Some (a, p) \<Rightarrow> PeerAddress a p # parse_compact_from data (i + 6)
         | None \<Rightarrow> parse_compact_from data (i + 6))
      else [])"
  by pat_completeness auto
termination
  by (relation "measure (\<lambda>(data, i). length data - i)") auto

declare parse_compact_from.simps [simp del]

definition parse_compact_peers :: "bytes \<Rightarrow> peer_address list" where
  "parse_compact_peers data = parse_compact_from data 0"

subsection \<open>Dotted-decimal round trip\<close>

lemma dot_simps [simp]:
  "\<not> is_digit dot" "\<not> is_odigit dot" "dot \<noteq> 0" "dot \<noteq> 120" "dot \<noteq> 88"
  by (simp_all add: dot_def is_digit_def is_odigit_def)

lemma digit_nonzero: "is_digit b \<Longrightarrow> b \<noteq> 0"
  by (auto simp: is_digit_def)

lemma dec_0 [simp]: "dec 0 = [48]"
  by (simp add: dec.simps [of 0] digit_byte_def)

lemma hd_dec_nonzero: "0 < n \<Longrightarrow> hd (dec n) \<noteq> 48"
proof (induction n rule: dec.induct)
  case (1 n)
  show ?case
  proof (cases "n < 10")
    case True
    then have "unat (digit_byte n) \<noteq> 48" using "1.prems" by (simp add: unat_digit_byte)
    then have "digit_byte n \<noteq> 48" by auto
    with True show ?thesis by (simp add: dec.simps [of n])
  next
    case False
    then have "hd (dec (n div 10)) \<noteq> 48" using 1 by (simp add: div_greater_zero_iff)
    with False show ?thesis by (simp add: dec.simps [of n])
  qed
qed

lemma base_val_digits: "\<forall>b\<in>set ds. is_digit b \<Longrightarrow> base_val 10 ds = digits_val ds"
  unfolding base_val_def digits_val_def
  by (rule foldl_cong) (auto simp: xdigit_val_def digit_val_def)

lemma base_val_dec [simp]: "base_val 10 (dec n) = n"
  by (subst base_val_digits) (auto simp: dec_digits)

lemma dropWhile_dec: "s = [] \<or> \<not> is_digit (hd s) \<Longrightarrow> dropWhile is_digit (dec n @ s) = s"
  by (cases s) (auto simp: dec_digits dropWhile_append3 dropWhile_append1 dropWhile_eq_Nil_conv)

lemma takeWhile_dec_rest: "s = [] \<or> \<not> is_digit (hd s) \<Longrightarrow> takeWhile is_digit (dec n @ s) = dec n"
  by (cases s) (auto simp: dec_digits takeWhile_eq_all_conv)

lemma strtoul0_decimal:
  "z \<noteq> 48 \<Longrightarrow> strtoul0 (z # t) = (base_val 10 (takeWhile is_digit (z # t)), dropWhile is_digit (z # t))"
  by (auto simp: strtoul0_def split: list.splits)

lemma strtoul0_dec:
  assumes "s = [] \<or> hd s = dot"
  shows "strtoul0 (dec n @ s) = (n, s)"
proof (cases "n = 0")
  case True
  with assms show ?thesis
    by (cases s) (auto simp: strtoul0_def base_val_def xdigit_val_def is_digit_def is_odigit_def
        dot_def split: list.splits)
next
  case False
  obtain z t where z: "dec n = z # t" by (cases "dec n") auto
  with False hd_dec_nonzero [of n] have "z \<noteq> 48" by simp
  then have "strtoul0 (dec n @ s) =
      (base_val 10 (takeWhile is_digit (dec n @ s)), dropWhile is_digit (dec n @ s))"
    using z strtoul0_decimal by simp
  moreover have "takeWhile is_digit (dec n @ s) = dec n" "dropWhile is_digit (dec n @ s) = s"
    using assms by (auto intro!: takeWhile_dec_rest dropWhile_dec simp del: dropWhile_append takeWhile_append)
  ultimately show ?thesis by (simp only: base_val_dec)
qed

lemma hd_dec_digit: "is_digit (hd (dec n))"
  by (rule dec_digits [of _ n]) simp

lemma aton_loop_dot:
  assumes "n < 256"
  shows "aton_loop (Suc k) (dec n @ dot # s) =
     map_option (\<lambda>(ps, m, v). (n # ps, m, v)) (aton_loop k s)"
proof -
  obtain z t where z: "dec n = z # t" by (cases "dec n") auto
  have "strtoul0 (z # t @ dot # s) = (n, dot # s)"
    using strtoul0_dec [of "dot # s" n] z by simp
  moreover have "is_digit z" using hd_dec_digit [of n] z by simp
  ultimately show ?thesis using z assms by (simp add: aton_loop.simps [of "Suc k"])
qed

lemma aton_loop_end:
  assumes "n < 256"
  shows "aton_loop k (dec n) = Some ([], k, n)"
proof -
  obtain z t where z: "dec n = z # t" by (cases "dec n") auto
  have "strtoul0 (z # t) = (n, [])" using strtoul0_dec [of "[]" n] z by simp
  moreover have "is_digit z" using hd_dec_digit [of n] z by simp
  ultimately show ?thesis using z assms by (simp add: aton_loop.simps [of k])
qed

lemma c_str_id: "\<forall>b\<in>set s. b \<noteq> 0 \<Longrightarrow> c_str s = s"
  by (simp add: c_str_def takeWhile_eq_all_conv)

lemma unat_byte_less [simp]: "unat (b :: byte) < 256"
  using unsigned_less [where 'a = nat and w = b] by simp

lemma inet_aton_ntoa:
  assumes "length a = 4"
  shows "inet_aton (inet_ntoa a) = Some a"
proof -
  obtain w x y z where a: "a = [w, x, y, z]" using assms by (auto simp: length_4_conv)
  have "\<forall>b\<in>set (inet_ntoa a). b \<noteq> 0"
    by (auto simp: inet_ntoa_def dest!: dec_digits digit_nonzero)
  then have "c_str (inet_ntoa a) = inet_ntoa a" by (rule c_str_id)
  moreover have three: "(3 :: nat) = Suc (Suc (Suc 0))" by simp
  moreover have "aton_loop 3 (inet_ntoa a) = Some ([unat w, unat x, unat y], 0, unat z)"
    unfolding three by (simp add: inet_ntoa_def a aton_loop_dot aton_loop_end)
  ultimately show ?thesis by (simp add: inet_aton_def a)
qed

lemma aton_bytes_ntoa [simp]: "length a = 4 \<Longrightarrow> aton_bytes (inet_ntoa a) = a"
  by (simp add: aton_bytes_def inet_aton_ntoa)

lemma length_be_bytes [simp]: "length (be_bytes n v) = n"
  by (induction n v rule: be_bytes.induct) auto

lemma aton_loop_shape: "aton_loop k s = Some (ps, m, v) \<Longrightarrow> length ps + m = k"
proof (induction k arbitrary: s ps m v)
  case 0
  then show ?case
    by (subst (asm) aton_loop.simps) (auto split: list.splits if_splits prod.splits)
next
  case (Suc k)
  from Suc.prems show ?case
    by (subst (asm) aton_loop.simps)
      (auto simp: Let_def split: list.splits if_splits prod.splits dest!: Suc.IH)
qed

lemma length_aton_bytes [simp]: "length (aton_bytes s) = 4"
  by (auto simp: aton_bytes_def inet_aton_def split: option.splits if_splits
      dest!: aton_loop_shape)

lemma length_peer_to_compact [simp]: "length (peer_to_compact i p) = 6"
  by (simp add: peer_to_compact_def)

text \<open>An address is canonical when its text is what \<^verbatim>\<open>inet_ntoa\<close> prints.\<close>

definition canonical_ip :: "bytes \<Rightarrow> bool" where
  "canonical_ip i = (inet_ntoa (aton_bytes i) = i)"

lemma canonical_ntoa [simp]: "length a = 4 \<Longrightarrow> canonical_ip (inet_ntoa a)"
  by (simp add: canonical_ip_def)

lemma compact_to_peer_compact:
  assumes "canonical_ip i"
  shows "compact_to_peer (pre @ peer_to_compact i p @ post) (length pre) = Some (i, p)"
proof -
  have "read_be16 (pre @ peer_to_compact i p @ post) (length pre + 4) = p"
    using read_be16_append [of "pre @ aton_bytes i" "length pre + 4" p post]
    by (simp add: peer_to_compact_def)
  with assms show ?thesis
    by (simp add: compact_to_peer_def peer_to_compact_def canonical_ip_def)
qed

lemma parse_compact_from_concat:
  assumes "\<forall>pa\<in>set pas. canonical_ip (ip pa)"
  shows "parse_compact_from (pre @ concat (map (\<lambda>pa. peer_to_compact (ip pa) (port pa)) pas))
           (length pre) = pas"
  using assms
proof (induction pas arbitrary: pre)
  case Nil
  then show ?case by (simp add: parse_compact_from.simps)
next
  case (Cons pa pas)
  let ?rest = "concat (map (\<lambda>pa. peer_to_compact (ip pa) (port pa)) pas)"
  let ?c = "peer_to_compact (ip pa) (port pa)"
  have step: "compact_to_peer (pre @ ?c @ ?rest) (length pre) = Some (ip pa, port pa)"
    using Cons.prems by (intro compact_to_peer_compact) simp
  have "parse_compact_from ((pre @ ?c) @ ?rest) (length (pre @ ?c)) = pas"
    using Cons by (intro Cons.IH) simp
  with step show ?case
    by (subst parse_compact_from.simps) simp
qed

subsection \<open>Hexadecimal digits read back\<close>

lemma unat_hex_digit:
  "d < 16 \<Longrightarrow> unat (hex_digit d) = (if d < 10 then 48 + d else 87 + d)"
  by (simp add: hex_digit_def unat_of_nat del: of_nat_add of_nat_numeral)

lemma unat_hex_digit_upper:
  "d < 16 \<Longrightarrow> unat (hex_digit_upper d) = (if d < 10 then 48 + d else 55 + d)"
  by (simp add: hex_digit_upper_def unat_of_nat del: of_nat_add of_nat_numeral)

lemma xdigit_hex_digit [simp]:
  assumes "d < 16"
  shows "xdigit_val (hex_digit d) = d" "is_xdigit (hex_digit d)"
    "xdigit_val (hex_digit_upper d) = d"
  using assms
  by (auto simp: xdigit_val_def is_xdigit_def is_digit_def word_le_nat_alt unat_hex_digit
      unat_hex_digit_upper)

lemma length_to_hex [simp]: "length (to_hex h) = 2 * length h"
  by (induction h) (auto simp: to_hex_def hex_byte_def)

lemma byte_of_nibbles: "of_nat (16 * (unat b div 16) + unat b mod 16) = (b :: byte)"
  by simp

text \<open>The percent decoding that a tracker applies to a query parameter.\<close>

fun url_decode :: "bytes \<Rightarrow> bytes" where
  "url_decode [] = []"
| "url_decode [b] = [b]"
| "url_decode [b, c] = [b, c]"
| "url_decode (b # c # d # r) =
     (if b = 37 then of_nat (16 * xdigit_val c + xdigit_val d) # url_decode r
      else b # url_decode (c # d # r))"

lemma url_decode_plain: "b \<noteq> 37 \<Longrightarrow> url_decode (b # r) = b # url_decode r"
  by (cases "b # r" rule: url_decode.cases) auto

lemma url_decode_encode: "url_decode (url_encode h) = h"
proof (induction h)
  case Nil
  then show ?case by (simp add: url_encode_def)
next
  case (Cons b h)
  have un: "url_unreserved b \<Longrightarrow> b \<noteq> 37"
    by (auto simp: url_unreserved_def is_alnum_def is_digit_def)
  show ?case
  proof (cases "url_unreserved b")
    case True
    then show ?thesis using Cons un by (simp add: url_encode_def url_decode_plain)
  next
    case False
    then have "url_encode (b # h) =
        37 # hex_digit_upper (unat b div 16) # hex_digit_upper (unat b mod 16) # url_encode h"
      by (simp add: url_encode_def)
    moreover have "unat b div 16 < 16" using unat_byte_less [of b] by linarith
    ultimately show ?thesis using Cons byte_of_nibbles [of b] by simp
  qed
qed

end
