(* ===== verification/Peer_Message.thy ===== *)
theory Peer_Message
  imports Addresses
begin

section \<open>Peer wire messages\<close>

text \<open>
  The handshake and the length-prefixed messages of the peer wire protocol
  (\<^verbatim>\<open>inc/peer_wire/peer_message.h\<close>, \<^verbatim>\<open>src/peer_wire/peer_message.cpp\<close>).
  A \<^verbatim>\<open>throw\<close> is a value of \<open>wire_error\<close>; an access outside a buffer, which
  the language leaves undefined, is the value \<open>OutOfBounds\<close>. The identifier of
  a received message is any byte, so \<open>message_id\<close> has a constructor for the
  values outside the enumeration. The length prefix is 32 bits wide and
  \<^verbatim>\<open>4 + length\<close> is computed in 32 bits.
\<close>

datatype wire_error =
    HandshakeTooShort | BadProtocolLength | BadProtocolString | BadInfoHash
  | MessageTooShort | KeepAlive | MessageTruncated
  | UnexpectedId | BadPayloadSize | BitfieldOutOfRange | OutOfBounds

type_synonym 'a wire_result = "wire_error + 'a"

subsection \<open>Handshake\<close>

definition PROTOCOL_STRING_LENGTH :: byte where "PROTOCOL_STRING_LENGTH = 19"
definition PROTOCOL_STRING :: bytes where "PROTOCOL_STRING = str ''BitTorrent protocol''"
definition HANDSHAKE_LENGTH :: nat where "HANDSHAKE_LENGTH = 1 + 19 + 8 + 20 + 20"

record handshake =
  hs_reserved :: bytes
  hs_info_hash :: info_hash
  hs_peer_id :: bytes

definition handshake_ok :: "handshake \<Rightarrow> bool" where
  "handshake_ok h = (length (hs_reserved h) = 8 \<and> valid_hash (hs_info_hash h) \<and> length (hs_peer_id h) = 20)"

definition serialize_handshake :: "handshake \<Rightarrow> bytes" where
  "serialize_handshake h =
     [PROTOCOL_STRING_LENGTH] @ PROTOCOL_STRING @ hs_reserved h @ hs_info_hash h @ hs_peer_id h"

definition deserialize_handshake :: "bytes \<Rightarrow> handshake wire_result" where
  "deserialize_handshake data =
     (if length data < HANDSHAKE_LENGTH then Inl HandshakeTooShort
      else if data ! 0 \<noteq> PROTOCOL_STRING_LENGTH then Inl BadProtocolLength
      else if take 19 (drop 1 data) \<noteq> PROTOCOL_STRING then Inl BadProtocolString
      else (case try_from_raw (take 20 (drop 28 data)) of
          None \<Rightarrow> Inl BadInfoHash
        | Some h \<Rightarrow> Inr \<lparr>hs_reserved = take 8 (drop 20 data), hs_info_hash = h,
                         hs_peer_id = take 20 (drop 48 data)\<rparr>))"

subsection \<open>Messages\<close>

datatype message_id =
    Choke | Unchoke | Interested | NotInterested | Have | Bitfield | Request | Piece | Cancel
  | OtherId byte

definition byte_of_id :: "message_id \<Rightarrow> byte" where
  "byte_of_id i = (case i of
       Choke \<Rightarrow> 0 | Unchoke \<Rightarrow> 1 | Interested \<Rightarrow> 2 | NotInterested \<Rightarrow> 3 | Have \<Rightarrow> 4
     | Bitfield \<Rightarrow> 5 | Request \<Rightarrow> 6 | Piece \<Rightarrow> 7 | Cancel \<Rightarrow> 8 | OtherId b \<Rightarrow> b)"

definition id_of_byte :: "byte \<Rightarrow> message_id" where
  "id_of_byte b =
     (if b = 0 then Choke else if b = 1 then Unchoke else if b = 2 then Interested
      else if b = 3 then NotInterested else if b = 4 then Have else if b = 5 then Bitfield
      else if b = 6 then Request else if b = 7 then Piece else if b = 8 then Cancel
      else OtherId b)"

record peer_message =
  pm_id :: message_id
  pm_payload :: bytes

definition serialize :: "peer_message \<Rightarrow> bytes wire_result" where
  "serialize m =
     (let len = u32 (1 + u32 (length (pm_payload m)));
          buf = replicate (u32 (4 + len)) 0
      in if length buf < 5 + length (pm_payload m) then Inl OutOfBounds
         else let buf = write_be32 0 (of_nat len) buf;
                  buf = buf[4 := byte_of_id (pm_id m)]
              in Inr (if pm_payload m \<noteq> []
                      then take 5 buf @ pm_payload m @ drop (5 + length (pm_payload m)) buf
                      else buf))"

definition deserialize :: "bytes \<Rightarrow> peer_message wire_result" where
  "deserialize data =
     (if length data < 4 then Inl MessageTooShort
      else let len = unat (read_be32 data 0)
           in if len = 0 then Inl KeepAlive
              else if length data < u32 (4 + len) then Inl MessageTruncated
              else if length data < 4 + len then Inl OutOfBounds
              else Inr \<lparr>pm_id = id_of_byte (data ! 4),
                        pm_payload = (if 1 < len then take (len - 1) (drop 5 data) else [])\<rparr>)"

subsection \<open>Typed messages\<close>

record have_message = hm_piece_index :: "32 word"

definition have_to_message :: "have_message \<Rightarrow> peer_message" where
  "have_to_message m = \<lparr>pm_id = Have, pm_payload = write_be32 0 (hm_piece_index m) (replicate 4 0)\<rparr>"

definition have_from_message :: "peer_message \<Rightarrow> have_message wire_result" where
  "have_from_message m =
     (if pm_id m \<noteq> Have then Inl UnexpectedId
      else if length (pm_payload m) \<noteq> 4 then Inl BadPayloadSize
      else Inr \<lparr>hm_piece_index = read_be32 (pm_payload m) 0\<rparr>)"

record bitfield_message = bm_bitfield :: bytes

definition has_piece :: "bitfield_message \<Rightarrow> nat \<Rightarrow> bool wire_result" where
  "has_piece m index =
     (let byte_idx = index div 8; bit_idx = 7 - index mod 8
      in if length (bm_bitfield m) \<le> byte_idx then Inl BitfieldOutOfRange
         else Inr (drop_bit bit_idx (bm_bitfield m ! byte_idx) AND 1 = 1))"

definition bitfield_to_message :: "bitfield_message \<Rightarrow> peer_message" where
  "bitfield_to_message m = \<lparr>pm_id = Bitfield, pm_payload = bm_bitfield m\<rparr>"

definition bitfield_from_message :: "peer_message \<Rightarrow> bitfield_message wire_result" where
  "bitfield_from_message m =
     (if pm_id m \<noteq> Bitfield then Inl UnexpectedId else Inr \<lparr>bm_bitfield = pm_payload m\<rparr>)"

record request_message =
  rm_index :: "32 word"
  rm_begin :: "32 word"
  rm_length :: "32 word"

definition request_to_message :: "request_message \<Rightarrow> peer_message" where
  "request_to_message m =
     \<lparr>pm_id = Request,
      pm_payload = write_be32 8 (rm_length m) (write_be32 4 (rm_begin m)
        (write_be32 0 (rm_index m) (replicate 12 0)))\<rparr>"

definition request_from_message :: "peer_message \<Rightarrow> request_message wire_result" where
  "request_from_message m =
     (if pm_id m \<noteq> Request then Inl UnexpectedId
      else if length (pm_payload m) \<noteq> 12 then Inl BadPayloadSize
      else Inr \<lparr>rm_index = read_be32 (pm_payload m) 0, rm_begin = read_be32 (pm_payload m) 4,
                rm_length = read_be32 (pm_payload m) 8\<rparr>)"

record piece_message =
  pc_index :: "32 word"
  pc_begin :: "32 word"
  pc_block :: bytes

definition piece_to_message :: "piece_message \<Rightarrow> peer_message" where
  "piece_to_message m =
     (let payload = write_be32 4 (pc_begin m)
            (write_be32 0 (pc_index m) (replicate (8 + length (pc_block m)) 0))
      in \<lparr>pm_id = Piece,
          pm_payload = (if pc_block m \<noteq> [] then take 8 payload @ pc_block m else payload)\<rparr>)"

definition piece_from_message :: "peer_message \<Rightarrow> piece_message wire_result" where
  "piece_from_message m =
     (if pm_id m \<noteq> Piece then Inl UnexpectedId
      else if length (pm_payload m) < 8 then Inl BadPayloadSize
      else Inr \<lparr>pc_index = read_be32 (pm_payload m) 0, pc_begin = read_be32 (pm_payload m) 4,
                pc_block = drop 8 (pm_payload m)\<rparr>)"

record cancel_message =
  cm_index :: "32 word"
  cm_begin :: "32 word"
  cm_length :: "32 word"

definition cancel_to_message :: "cancel_message \<Rightarrow> peer_message" where
  "cancel_to_message m =
     \<lparr>pm_id = Cancel,
      pm_payload = write_be32 8 (cm_length m) (write_be32 4 (cm_begin m)
        (write_be32 0 (cm_index m) (replicate 12 0)))\<rparr>"

definition cancel_from_message :: "peer_message \<Rightarrow> cancel_message wire_result" where
  "cancel_from_message m =
     (if pm_id m \<noteq> Cancel then Inl UnexpectedId
      else if length (pm_payload m) \<noteq> 12 then Inl BadPayloadSize
      else Inr \<lparr>cm_index = read_be32 (pm_payload m) 0, cm_begin = read_be32 (pm_payload m) 4,
                cm_length = read_be32 (pm_payload m) 8\<rparr>)"

subsection \<open>What the encoders write\<close>

lemma byte_of_id_of_byte [simp]: "byte_of_id (id_of_byte b) = b"
  by (simp add: byte_of_id_def id_of_byte_def)

lemma id_of_byte_inj: "id_of_byte a = id_of_byte b \<longleftrightarrow> a = b"
  by (metis byte_of_id_of_byte)

text \<open>The identifiers a message can carry: those of the enumeration, or a byte above them.\<close>

definition canonical_id :: "message_id \<Rightarrow> bool" where
  "canonical_id i = (id_of_byte (byte_of_id i) = i)"

lemma canonical_ids [simp]:
  "canonical_id Choke" "canonical_id Unchoke" "canonical_id Interested" "canonical_id NotInterested"
  "canonical_id Have" "canonical_id Bitfield" "canonical_id Request" "canonical_id Piece" "canonical_id Cancel"
  "canonical_id (id_of_byte b)"
  by (simp_all add: canonical_id_def) (simp_all add: id_of_byte_def byte_of_id_def)

lemma serialize_eq:
  assumes "length (pm_payload m) < 2 ^ 32 - 5"
  shows "serialize m = Inr (be32 (of_nat (1 + length (pm_payload m))) @ byte_of_id (pm_id m) # pm_payload m)"
proof -
  let ?n = "length (pm_payload m)"
  have len: "u32 (1 + u32 ?n) = 1 + ?n" "u32 (4 + (1 + ?n)) = 5 + ?n"
    using assms by (simp_all add: u32_def)
  have buf: "replicate (5 + ?n) (0 :: byte) = [] @ 0 # 0 # 0 # 0 # 0 # replicate ?n 0"
    by (simp add: numeral_eq_Suc)
  have w: "write_be32 0 v (replicate (5 + ?n) 0) = be32 v @ 0 # replicate ?n 0" for v
    unfolding buf by (subst write_be32_append) simp_all
  have u: "(be32 v @ 0 # replicate ?n 0)[4 := b] = be32 v @ b # replicate ?n 0" for v b
    using list_update_append [of "be32 v" "0 # replicate ?n 0" 4 b] by simp
  show ?thesis
    unfolding serialize_def Let_def len length_replicate w u by (auto simp: take_Cons' numeral_eq_Suc)
qed

lemma request_payload:
  "write_be32 8 c (write_be32 4 b (write_be32 0 a (replicate 12 0))) = be32 a @ be32 b @ be32 c"
proof -
  have "replicate 12 (0 :: byte) = [] @ 0 # 0 # 0 # 0 # [0, 0, 0, 0, 0, 0, 0, 0]"
    by (simp add: numeral_eq_Suc)
  then have a: "write_be32 0 a (replicate 12 0) = be32 a @ 0 # 0 # 0 # 0 # [0, 0, 0, 0]"
    using write_be32_append [of "[]" 0 a] by simp
  have b: "write_be32 4 b (be32 a @ 0 # 0 # 0 # 0 # [0, 0, 0, 0]) = (be32 a @ be32 b) @ 0 # 0 # 0 # 0 # []"
    by (subst write_be32_append) simp_all
  show ?thesis unfolding a b by (subst write_be32_append) simp_all
qed

lemma have_payload: "write_be32 0 a (replicate 4 0) = be32 a"
proof -
  have "replicate 4 (0 :: byte) = [] @ 0 # 0 # 0 # 0 # []" by (simp add: numeral_eq_Suc)
  then show ?thesis using write_be32_append [of "[]" 0 a] by simp
qed

lemma piece_payload:
  "pm_payload (piece_to_message m) = be32 (pc_index m) @ be32 (pc_begin m) @ pc_block m"
proof -
  let ?n = "length (pc_block m)"
  have "replicate (8 + ?n) (0 :: byte) = [] @ 0 # 0 # 0 # 0 # (0 # 0 # 0 # 0 # replicate ?n 0)"
    by (simp add: numeral_eq_Suc)
  then have a: "write_be32 0 v (replicate (8 + ?n) 0) = be32 v @ 0 # 0 # 0 # 0 # replicate ?n 0" for v
    using write_be32_append [of "[]" 0 v] by simp
  have b: "write_be32 4 w (be32 v @ 0 # 0 # 0 # 0 # replicate ?n 0) = be32 v @ be32 w @ replicate ?n 0" for v w
    by (subst write_be32_append) simp_all
  show ?thesis unfolding piece_to_message_def Let_def a b by auto
qed

lemma read_be32_0 [simp]: "read_be32 (be32 a @ xs) 0 = a"
  using read_be32_append [of "[]" 0 a xs] by simp

lemma read_be32_4 [simp]: "read_be32 (be32 a @ be32 b @ xs) 4 = b"
  using read_be32_append [of "be32 a" 4 b xs] by simp

lemma read_be32_8 [simp]: "read_be32 (be32 a @ be32 b @ be32 c) 8 = c"
  using read_be32_append [of "be32 a @ be32 b" 8 c "[]"] by simp

lemma read_be32_only [simp]: "read_be32 (be32 a) 0 = a"
  using read_be32_0 [of a "[]"] by simp

lemmas typed_payloads = have_payload request_payload piece_payload

subsection \<open>Decoding exactly inverts encoding\<close>

lemma be32_read: 
  assumes "4 \<le> length data"
  shows "take 4 data = be32 (read_be32 data 0)"
proof -
  obtain mid post where d: "data = mid @ post" "length mid = 4"
    using split_at [of 0 4 data] assms by auto
  then obtain a b c e where m: "mid = [a, b, c, e]" by (auto simp: length_4_conv)
  have "ucast (drop_bit 24 (read_be32 data 0)) = a" "ucast (drop_bit 16 (read_be32 data 0)) = b"
    "ucast (drop_bit 8 (read_be32 data 0)) = c" "ucast (read_be32 data 0) = e"
    unfolding d m read_be32_def
    by (rule bit_word_eqI; auto simp: bit_simps dest: bit_imp_le_length)+
  then show ?thesis unfolding be32_def by (simp add: d m)
qed

lemma deserialize_encoded:
  assumes "canonical_id (pm_id m)" "length (pm_payload m) < 2 ^ 32 - 1"
  shows "deserialize (be32 (of_nat (1 + length (pm_payload m))) @ byte_of_id (pm_id m) # pm_payload m @ rest) = Inr m"
proof -
  let ?n = "length (pm_payload m)"
  let ?data = "be32 (of_nat (1 + ?n)) @ byte_of_id (pm_id m) # pm_payload m @ rest"
  have u: "unat (of_nat (1 + ?n) :: 32 word) = 1 + ?n"
    using assms(2) by (simp only: unat_of_nat) simp
  have ok: "\<not> length ?data < u32 (4 + (1 + ?n))"
    using mod_less_eq_dividend [of "4 + (1 + ?n)" "2 ^ 32"] unfolding u32_def by simp
  have "?data ! 4 = byte_of_id (pm_id m)" "take ?n (drop 5 ?data) = pm_payload m"
    by (simp_all add: nth_append)
  then show ?thesis
    using assms(1) ok unfolding deserialize_def Let_def read_be32_0 u by (auto simp: canonical_id_def)
qed

lemma deserialize_decoded:
  assumes "deserialize data = Inr m"
  shows "canonical_id (pm_id m) \<and> length (pm_payload m) < 2 ^ 32 - 1 \<and>
    (\<exists>rest. data = be32 (of_nat (1 + length (pm_payload m))) @ byte_of_id (pm_id m) # pm_payload m @ rest)"
proof -
  let ?w = "read_be32 data 0"
  let ?n = "unat ?w"
  from assms have n: "4 \<le> length data" "0 < ?n" "4 + ?n \<le> length data"
    and m: "m = \<lparr>pm_id = id_of_byte (data ! 4), pm_payload = (if 1 < ?n then take (?n - 1) (drop 5 data) else [])\<rparr>"
    by (auto simp: deserialize_def Let_def split: if_splits)
  have pl: "length (pm_payload m) = ?n - 1" using m n by auto
  have b: "?n < 2 ^ 32" using unsigned_less [where 'a = nat and w = ?w] by simp
  have "(of_nat (1 + length (pm_payload m)) :: 32 word) = ?w" using pl n by simp
  moreover have "data = take 4 data @ data ! 4 # take (?n - 1) (drop 5 data) @ drop (4 + ?n) data"
  proof -
    have "drop 4 data = data ! 4 # drop 5 data"
      using Cons_nth_drop_Suc [of 4 data] n by (simp add: numeral_eq_Suc)
    moreover have "drop 5 data = take (?n - 1) (drop 5 data) @ drop (4 + ?n) data"
      using append_take_drop_id [of "?n - 1" "drop 5 data"] n by simp
    ultimately show ?thesis by (metis append_Cons append_take_drop_id)
  qed
  moreover have "pm_payload m = take (?n - 1) (drop 5 data)" using m n by auto
  ultimately have "data = be32 (of_nat (1 + length (pm_payload m))) @ byte_of_id (pm_id m) # pm_payload m @ drop (4 + ?n) data"
    using be32_read [OF n(1)] m by simp
  then show ?thesis using m pl b n by auto
qed

lemma deserialize_length_wraps:
  "deserialize (be32 4294967292) = Inl OutOfBounds"
  using read_be32_only [of 4294967292] by (simp add: deserialize_def u32_def)

subsection \<open>Properties\<close>

text \<open>C26: The message decoder accepts exactly the byte strings that start with the
  encoding of a message, and returns that message: whatever bytes a peer sends,
  an accepted message is determined by its length prefix and lies inside the
  buffer, and whatever message is encoded is decoded to itself, with any bytes
  following it.\<close>

theorem deserialize_iff:
  "deserialize data = Inr m \<longleftrightarrow>
     canonical_id (pm_id m) \<and> length (pm_payload m) < 2 ^ 32 - 1 \<and>
     (\<exists>rest. data = be32 (of_nat (1 + length (pm_payload m))) @ byte_of_id (pm_id m) # pm_payload m @ rest)"
  using deserialize_decoded deserialize_encoded by (metis (no_types, lifting))

text \<open>Every message a connection can build goes over the wire unchanged: for a
  payload short enough for the 32-bit buffer size, serialize succeeds, its
  result is exactly five bytes longer than the payload, and decoding it with
  any bytes after it gives the message back; the five typed messages are
  recovered from their payload.\<close>

theorem wire_round_trip:
  assumes "canonical_id (pm_id m)" "length (pm_payload m) < 2 ^ 32 - 5"
  shows "(\<exists>wire. serialize m = Inr wire \<and> length wire = 5 + length (pm_payload m) \<and>
           deserialize (wire @ rest) = Inr m) \<and>
    have_from_message (have_to_message h) = Inr h \<and>
    bitfield_from_message (bitfield_to_message b) = Inr b \<and>
    request_from_message (request_to_message r) = Inr r \<and>
    piece_from_message (piece_to_message p) = Inr p \<and>
    cancel_from_message (cancel_to_message c) = Inr c"
proof (intro conjI)
  show "\<exists>wire. serialize m = Inr wire \<and> length wire = 5 + length (pm_payload m) \<and>
           deserialize (wire @ rest) = Inr m"
    using deserialize_encoded [of m rest] assms by (simp add: serialize_eq)
  show "have_from_message (have_to_message h) = Inr h"
    by (simp add: have_from_message_def have_to_message_def typed_payloads)
  show "bitfield_from_message (bitfield_to_message b) = Inr b"
    by (simp add: bitfield_from_message_def bitfield_to_message_def)
  show "request_from_message (request_to_message r) = Inr r"
    by (simp add: request_from_message_def request_to_message_def typed_payloads)
  show "cancel_from_message (cancel_to_message c) = Inr c"
    by (simp add: cancel_from_message_def cancel_to_message_def typed_payloads)
  have "pm_id (piece_to_message p) = Piece" by (simp add: piece_to_message_def Let_def)
  then show "piece_from_message (piece_to_message p) = Inr p"
    by (simp add: piece_from_message_def typed_payloads)
qed

theorem wire_round_trip_witness:
  "deserialize ([0, 0, 0, 3, 5, 160, 1] @ [9]) = Inr \<lparr>pm_id = Bitfield, pm_payload = [160, 1]\<rparr>"
proof -
  let ?m = "\<lparr>pm_id = Bitfield, pm_payload = [160, 1]\<rparr>"
  have "serialize ?m = Inr [0, 0, 0, 3, 5, 160, 1]"
    by (simp add: serialize_eq be32_def byte_of_id_def)
  then show ?thesis using wire_round_trip [of ?m "[9]"] by simp
qed

text \<open>The handshake decoder accepts exactly the byte strings whose first 68 bytes
  are the encoding of a handshake with an 8-byte reserved field, a 20-byte info
  hash and a 20-byte peer identifier, and returns that handshake.\<close>

theorem deserialize_handshake_iff:
  "deserialize_handshake data = Inr h \<longleftrightarrow>
     handshake_ok h \<and> take HANDSHAKE_LENGTH data = serialize_handshake h"
  (is "?l \<longleftrightarrow> ?r")
proof
  assume ?l
  then have d: "68 \<le> length data" "data ! 0 = PROTOCOL_STRING_LENGTH" "take 19 (drop 1 data) = PROTOCOL_STRING"
    and h: "h = \<lparr>hs_reserved = take 8 (drop 20 data), hs_info_hash = take 20 (drop 28 data),
      hs_peer_id = take 20 (drop 48 data)\<rparr>"
    by (auto simp: deserialize_handshake_def try_from_raw_def HANDSHAKE_LENGTH_def split: if_splits)
  have s: "take (a + b) xs = take a xs @ take b (drop a xs)" for a b and xs :: bytes
    by (rule take_add)
  have "take 68 data = take 1 data @ take 19 (drop 1 data) @ take 8 (drop 20 data) @
      take 20 (drop 28 data) @ take 20 (drop 48 data)"
    by (subst s [of 1 67 data, simplified], subst s [of 19 48 "drop 1 data", simplified],
        subst s [of 8 40 "drop 20 data", simplified], subst s [of 20 20 "drop 28 data", simplified]) simp
  moreover have "take 1 data = [data ! 0]" using d(1) by (cases data) simp_all
  ultimately show ?r
    using d h by (simp add: handshake_ok_def valid_hash_def serialize_handshake_def HANDSHAKE_LENGTH_def)
next
  assume r: ?r
  have p: "length PROTOCOL_STRING = 19" by (simp add: PROTOCOL_STRING_def)
  obtain t where d: "data = serialize_handshake h @ t"
    using r append_take_drop_id [of HANDSHAKE_LENGTH data] by metis
  obtain R H I where h: "h = \<lparr>hs_reserved = R, hs_info_hash = H, hs_peer_id = I\<rparr>" by (cases h)
  then have l: "length R = 8" "length H = 20" "length I = 20"
    using r by (simp_all add: handshake_ok_def valid_hash_def)
  have "drop 20 data = R @ H @ I @ t" "drop 28 data = H @ I @ t" "drop 48 data = I @ t"
    using l p by (simp_all add: d h serialize_handshake_def)
  moreover have "take 19 (drop 1 data) = PROTOCOL_STRING" "data ! 0 = PROTOCOL_STRING_LENGTH"
    "length data = 68 + length t"
    using l p by (simp_all add: d h serialize_handshake_def)
  ultimately show ?l using l
    by (simp add: deserialize_handshake_def HANDSHAKE_LENGTH_def try_from_raw_def h)
qed

end
