(* ===== verification/Disk_Writer.thy ===== *)
theory Disk_Writer
  imports Prelude
begin

section \<open>Piece storage on disk\<close>

text \<open>
  \<^verbatim>\<open>DiskWriter\<close> (\<^verbatim>\<open>inc/peer_wire/disk_writer.h\<close>,
  \<^verbatim>\<open>src/peer_wire/disk_writer.cpp\<close>): the torrent's bytes laid out over its
  output files, written and read piece by piece. The file system is a map from
  paths to contents with two predicates that say for which paths a stream can
  be opened and accepts data, so that every \<^verbatim>\<open>throw\<close> of the source is
  reachable; a failed stream operation changes no file. Offsets and lengths
  are \<^verbatim>\<open>uint64_t\<close>, piece lengths \<^verbatim>\<open>uint32_t\<close>, with the reductions
  written out. One call holds the mutexes of all files it touches, so it is one
  step; \<open>file_indices_for_piece\<close> is the list of mutexes it takes.
\<close>

type_synonym path = bytes

datatype disk_error =
    InvalidPieceSize | InvalidTotalSize | EmptyLayout | LayoutMismatch
  | CreateFailed | PreallocateFailed | NotPreallocated
  | PieceOutOfRange | PieceSizeMismatch | OpenWriteFailed | WriteFailed | WriteNotMapped
  | OpenReadFailed | ReadFailed | ReadNotMapped

record disk =
  dk_files :: "path \<rightharpoonup> bytes"
  dk_openable :: "path \<Rightarrow> bool"
  dk_writable :: "path \<Rightarrow> bool"

record file_entry =
  fe_rel_path :: path
  fe_length :: nat
  fe_offset :: nat

record disk_writer =
  dw_output_dir :: path
  dw_piece_size :: nat
  dw_total_size :: nat
  dw_files :: "file_entry list"
  dw_preallocated :: bool

subsection \<open>Operations\<close>

text \<open>\<^verbatim>\<open>std::filesystem::path\<close>'s operator for joining a directory and a path.\<close>

definition path_join :: "path \<Rightarrow> path \<Rightarrow> path" where
  "path_join dir p =
     (if p \<noteq> [] \<and> hd p = 47 then p
      else if dir = [] \<or> last dir = 47 then dir @ p
      else dir @ [47] @ p)"

definition absolute_path :: "disk_writer \<Rightarrow> file_entry \<Rightarrow> path" where
  "absolute_path dw f = path_join (dw_output_dir dw) (fe_rel_path f)"

fun layout_entries :: "nat \<Rightarrow> (path \<times> nat) list \<Rightarrow> file_entry list \<times> nat" where
  "layout_entries running_offset [] = ([], running_offset)"
| "layout_entries running_offset ((p, n) # layout) =
     (let (entries, total) = layout_entries (u64 (running_offset + n)) layout
      in (\<lparr>fe_rel_path = p, fe_length = n, fe_offset = running_offset\<rparr> # entries, total))"

definition dw_new :: "nat \<Rightarrow> nat \<Rightarrow> (path \<times> nat) list \<Rightarrow> path \<Rightarrow> disk_error + disk_writer" where
  "dw_new piece_size total_size layout output_dir =
     (if piece_size = 0 then Inl InvalidPieceSize
      else if total_size = 0 then Inl InvalidTotalSize
      else let (files, running_offset) = layout_entries 0 layout
           in if files = [] then Inl EmptyLayout
              else if running_offset \<noteq> total_size then Inl LayoutMismatch
              else Inr \<lparr>dw_output_dir = output_dir, dw_piece_size = piece_size,
                        dw_total_size = total_size, dw_files = files, dw_preallocated = False\<rparr>)"

fun preallocate_loop :: "disk_writer \<Rightarrow> file_entry list \<Rightarrow> disk \<Rightarrow> disk_error option \<times> disk" where
  "preallocate_loop dw [] d = (None, d)"
| "preallocate_loop dw (f # fs) d =
     (let p = absolute_path dw f
      in if \<not> dk_openable d p then (Some CreateFailed, d)
         else let d = d\<lparr>dk_files := (dk_files d)(p \<mapsto> [])\<rparr>
              in if fe_length f = 0 then preallocate_loop dw fs d
                 else if 2 ^ 63 \<le> fe_length f - 1 \<or> \<not> dk_writable d p then (Some PreallocateFailed, d)
                 else preallocate_loop dw fs
                        (d\<lparr>dk_files := (dk_files d)(p \<mapsto> replicate (fe_length f) 0)\<rparr>))"

definition preallocate_files :: "disk_writer \<Rightarrow> disk \<Rightarrow> disk_error option \<times> disk_writer \<times> disk" where
  "preallocate_files dw d =
     (case preallocate_loop dw (dw_files dw) d of
        (Some e, d') \<Rightarrow> (Some e, dw, d')
      | (None, d') \<Rightarrow> (None, dw\<lparr>dw_preallocated := True\<rparr>, d'))"

definition piece_global_offset :: "disk_writer \<Rightarrow> nat \<Rightarrow> nat" where
  "piece_global_offset dw index = u64 (index * dw_piece_size dw)"

definition dw_piece_length :: "disk_writer \<Rightarrow> nat \<Rightarrow> disk_error + nat" where
  "dw_piece_length dw index =
     (let beg = piece_global_offset dw index
      in if dw_total_size dw \<le> beg then Inl PieceOutOfRange
         else let fin = min (u64 (beg + dw_piece_size dw)) (dw_total_size dw)
              in Inr (u32 (u64_sub fin beg)))"

definition file_indices_for_piece :: "disk_writer \<Rightarrow> nat \<Rightarrow> disk_error + nat list" where
  "file_indices_for_piece dw index =
     (let beg = piece_global_offset dw index
      in case dw_piece_length dw index of
           Inl e \<Rightarrow> Inl e
         | Inr len \<Rightarrow>
             let fin = u64 (beg + len)
             in Inr (filter (\<lambda>i. let f = dw_files dw ! i;
                                     file_end = u64 (fe_offset f + fe_length f)
                                 in \<not> (fin \<le> fe_offset f \<or> file_end \<le> beg))
                       [0..<length (dw_files dw)]))"

text \<open>Stream writes and reads of a file at a position.\<close>

definition file_write :: "nat \<Rightarrow> bytes \<Rightarrow> bytes \<Rightarrow> bytes" where
  "file_write pos chunk old =
     take pos (old @ replicate (pos - length old) 0) @ chunk @ drop (pos + length chunk) old"

definition file_read :: "nat \<Rightarrow> nat \<Rightarrow> bytes \<Rightarrow> bytes" where
  "file_read pos n old = take n (drop pos old)"

fun write_loop ::
    "disk_writer \<Rightarrow> bytes \<Rightarrow> file_entry list \<Rightarrow> nat \<Rightarrow> nat \<Rightarrow> nat \<Rightarrow> disk \<Rightarrow> (disk_error + nat) \<times> disk" where
  "write_loop dw data [] write_offset remaining data_pos d = (Inr remaining, d)"
| "write_loop dw data (f # fs) write_offset remaining data_pos d =
     (if remaining = 0 then (Inr remaining, d)
      else if u64 (fe_offset f + fe_length f) \<le> write_offset
      then write_loop dw data fs write_offset remaining data_pos d
      else if u64 (write_offset + remaining) \<le> fe_offset f then (Inr remaining, d)
      else let start_in_file = (if fe_offset f < write_offset then write_offset - fe_offset f else 0);
               writable_in_file = u64_sub (fe_length f) start_in_file;
               chunk = min remaining writable_in_file;
               p = absolute_path dw f
           in case dk_files d p of
                None \<Rightarrow> (Inl OpenWriteFailed, d)
              | Some old \<Rightarrow>
                  if \<not> dk_openable d p then (Inl OpenWriteFailed, d)
                  else if \<not> dk_writable d p then (Inl WriteFailed, d)
                  else write_loop dw data fs (u64 (write_offset + chunk)) (remaining - chunk)
                         (data_pos + chunk)
                         (d\<lparr>dk_files := (dk_files d)(p \<mapsto>
                              file_write start_in_file (take chunk (drop data_pos data)) old)\<rparr>))"

definition write_piece :: "disk_writer \<Rightarrow> nat \<Rightarrow> bytes \<Rightarrow> disk \<Rightarrow> disk_error option \<times> disk" where
  "write_piece dw index data d =
     (if \<not> dw_preallocated dw then (Some NotPreallocated, d)
      else case file_indices_for_piece dw index of
        Inl e \<Rightarrow> (Some e, d)
      | Inr _ \<Rightarrow> (case dw_piece_length dw index of
          Inl e \<Rightarrow> (Some e, d)
        | Inr expected_len \<Rightarrow>
            if length data \<noteq> expected_len then (Some PieceSizeMismatch, d)
            else (case write_loop dw data (dw_files dw) (piece_global_offset dw index) (length data) 0 d of
                (Inl e, d') \<Rightarrow> (Some e, d')
              | (Inr remaining, d') \<Rightarrow>
                  if remaining \<noteq> 0 then (Some WriteNotMapped, d') else (None, d'))))"

text \<open>
  The source fills a vector sized up front; here \<open>out\<close> is the part filled so
  far, and a tail left unread is reported as an error and never returned.
\<close>

fun read_loop :: "disk_writer \<Rightarrow> disk \<Rightarrow> file_entry list \<Rightarrow> nat \<Rightarrow> nat \<Rightarrow> bytes \<Rightarrow> disk_error + (nat \<times> bytes)" where
  "read_loop dw d [] read_offset remaining out = Inr (remaining, out)"
| "read_loop dw d (f # fs) read_offset remaining out =
     (if remaining = 0 then Inr (remaining, out)
      else if u64 (fe_offset f + fe_length f) \<le> read_offset
      then read_loop dw d fs read_offset remaining out
      else if u64 (read_offset + remaining) \<le> fe_offset f then Inr (remaining, out)
      else let start_in_file = (if fe_offset f < read_offset then read_offset - fe_offset f else 0);
               readable_in_file = u64_sub (fe_length f) start_in_file;
               chunk = min remaining readable_in_file;
               p = absolute_path dw f
           in case dk_files d p of
                None \<Rightarrow> Inl OpenReadFailed
              | Some content \<Rightarrow>
                  if \<not> dk_openable d p then Inl OpenReadFailed
                  else let got = file_read start_in_file chunk content
                       in if length got \<noteq> chunk then Inl ReadFailed
                          else read_loop dw d fs (u64 (read_offset + chunk)) (remaining - chunk) (out @ got))"

definition read_piece :: "disk_writer \<Rightarrow> nat \<Rightarrow> disk \<Rightarrow> disk_error + bytes" where
  "read_piece dw index d =
     (if \<not> dw_preallocated dw then Inl NotPreallocated
      else case file_indices_for_piece dw index of
        Inl e \<Rightarrow> Inl e
      | Inr _ \<Rightarrow> (case dw_piece_length dw index of
          Inl e \<Rightarrow> Inl e
        | Inr len \<Rightarrow>
            (case read_loop dw d (dw_files dw) (piece_global_offset dw index) len [] of
                Inl e \<Rightarrow> Inl e
              | Inr (remaining, out) \<Rightarrow> if remaining \<noteq> 0 then Inl ReadNotMapped else Inr out)))"

subsection \<open>The torrent as one byte string\<close>

text \<open>
  The abstract view: the concatenation of the output files in layout order.
  A write replaces a range of it and a read returns one.
\<close>

definition splice :: "nat \<Rightarrow> bytes \<Rightarrow> bytes \<Rightarrow> bytes" where
  "splice p xs ys = take p ys @ xs @ drop (p + length xs) ys"

lemma length_splice [simp]: "p + length xs \<le> length ys \<Longrightarrow> length (splice p xs ys) = length ys"
  by (simp add: splice_def)

lemma splice_append_right: "length a \<le> p \<Longrightarrow> splice p xs (a @ b) = a @ splice (p - length a) xs b"
  by (simp add: splice_def)

lemma splice_append_split:
  assumes "p \<le> length a" "k = min (length ys) (length a - p)"
  shows "splice p ys (a @ b) = splice p (take k ys) a @ splice 0 (drop k ys) b"
proof (cases "length ys \<le> length a - p")
  case True
  with assms show ?thesis by (simp add: splice_def)
next
  case False
  with assms have "k = length a - p" by simp
  with False assms(1) show ?thesis by (simp add: splice_def add.commute)
qed

lemma splice_Nil [simp]: "splice p [] ys = ys"
  by (simp add: splice_def)

lemma take_drop_splice_same: "p + length xs \<le> length ys \<Longrightarrow> take (length xs) (drop p (splice p xs ys)) = xs"
  by (simp add: splice_def)

lemma take_drop_splice_other:
  assumes "p + length xs \<le> length ys" "q + n \<le> p \<or> p + length xs \<le> q"
  shows "take n (drop q (splice p xs ys)) = take n (drop q ys)"
  using assms(2)
proof
  assume "q + n \<le> p"
  then have "take (n + q) (splice p xs ys) = take (n + q) ys"
    using assms(1) by (simp add: splice_def min_absorb1)
  then show ?thesis by (simp add: take_drop)
next
  assume "p + length xs \<le> q"
  then show ?thesis using assms(1) by (simp add: splice_def)
qed

fun laid_out :: "nat \<Rightarrow> file_entry list \<Rightarrow> bool" where
  "laid_out off [] = True"
| "laid_out off (f # fs) = (fe_offset f = off \<and> laid_out (off + fe_length f) fs)"

definition total :: "file_entry list \<Rightarrow> nat" where
  "total fs = sum_list (map fe_length fs)"

definition content :: "disk_writer \<Rightarrow> disk \<Rightarrow> file_entry \<Rightarrow> bytes" where
  "content dw d f = the (dk_files d (absolute_path dw f))"

definition image_of :: "disk_writer \<Rightarrow> disk \<Rightarrow> file_entry list \<Rightarrow> bytes" where
  "image_of dw d fs = concat (map (content dw d) fs)"

definition stored :: "disk_writer \<Rightarrow> disk \<Rightarrow> file_entry \<Rightarrow> bool" where
  "stored dw d f = (\<exists>c. dk_files d (absolute_path dw f) = Some c \<and> length c = fe_length f)"

definition healthy :: "disk_writer \<Rightarrow> disk \<Rightarrow> file_entry \<Rightarrow> bool" where
  "healthy dw d f = (dk_openable d (absolute_path dw f) \<and> dk_writable d (absolute_path dw f))"

lemma total_simps [simp]: "total [] = 0" "total (f # fs) = fe_length f + total fs"
  by (simp_all add: total_def)

lemma image_of_simps [simp]:
  "image_of dw d [] = []" "image_of dw d (f # fs) = content dw d f @ image_of dw d fs"
  by (simp_all add: image_of_def)

lemma length_content: "stored dw d f \<Longrightarrow> length (content dw d f) = fe_length f"
  by (auto simp: stored_def content_def)

lemma length_image_of: "\<forall>f\<in>set fs. stored dw d f \<Longrightarrow> length (image_of dw d fs) = total fs"
  by (induction fs) (auto simp: length_content)

lemma image_of_cong:
  "(\<And>f. f \<in> set fs \<Longrightarrow> dk_files d' (absolute_path dw f) = dk_files d (absolute_path dw f)) \<Longrightarrow>
   image_of dw d' fs = image_of dw d fs"
  by (induction fs) (auto simp: content_def)

lemma file_write_splice:
  "pos + length chunk \<le> length old \<Longrightarrow> file_write pos chunk old = splice pos chunk old"
  by (simp add: file_write_def splice_def)

text \<open>One file of the loops: what is in range of a transfer that starts inside or after it.\<close>

lemma loop_step:
  assumes "fe_offset f = off" "off \<le> w" "w + n \<le> off + fe_length f + t" "off + fe_length f + t < 2 ^ 64"
  shows "u64 (fe_offset f + fe_length f) = off + fe_length f"
    "n \<noteq> 0 \<Longrightarrow> \<not> u64 (w + n) \<le> fe_offset f"
    "(if fe_offset f < w then w - fe_offset f else 0) = w - off"
    "w < off + fe_length f \<Longrightarrow> u64_sub (fe_length f) (w - off) = fe_length f - (w - off)"
    "k \<le> n \<Longrightarrow> u64 (w + k) = w + k"
  using assms by (auto simp: u64_id u64_sub_id)

lemma write_loop_0 [simp]: "write_loop dw data fs w 0 pos d = (Inr 0, d)"
  by (cases fs) simp_all

lemma read_loop_0 [simp]: "read_loop dw d fs w 0 out = Inr (0, out)"
  by (cases fs) simp_all

lemma write_loop_hit:
  assumes "fe_offset f = off" "off \<le> w" "w + n \<le> off + fe_length f + t" "off + fe_length f + t < 2 ^ 64"
    "n \<noteq> 0" "w < off + fe_length f" "st = w - off" "k = min n (fe_length f - st)"
  shows "write_loop dw data (f # fs) w n pos d =
    (case dk_files d (absolute_path dw f) of
       None \<Rightarrow> (Inl OpenWriteFailed, d)
     | Some old \<Rightarrow>
         if \<not> dk_openable d (absolute_path dw f) then (Inl OpenWriteFailed, d)
         else if \<not> dk_writable d (absolute_path dw f) then (Inl WriteFailed, d)
         else write_loop dw data fs (w + k) (n - k) (pos + k)
                (d\<lparr>dk_files := (dk_files d)(absolute_path dw f \<mapsto>
                     file_write st (take k (drop pos data)) old)\<rparr>))"
proof -
  note step = loop_step [OF assms(1-4)]
  have k: "min n (u64_sub (fe_length f) (w - off)) = k" "u64 (w + k) = w + k"
    using step(4,5) assms by auto
  have "\<not> u64 (fe_offset f + fe_length f) \<le> w" "\<not> u64 (w + n) \<le> fe_offset f"
    using step(1,2) assms(5,6) by auto
  then show ?thesis unfolding write_loop.simps(2) step(3) Let_def k assms(7) using assms(5) by simp
qed

text \<open>
  The effect of writing the bytes \<open>xs\<close> at position \<open>p\<close> of the files \<open>fs\<close>.
\<close>

definition wrote :: "disk_writer \<Rightarrow> bytes \<Rightarrow> file_entry list \<Rightarrow> nat \<Rightarrow> disk \<Rightarrow> disk \<Rightarrow> bool" where
  "wrote dw xs fs p d d' =
     (image_of dw d' fs = splice p xs (image_of dw d fs) \<and> (\<forall>f\<in>set fs. stored dw d' f) \<and>
      (\<forall>q. q \<notin> absolute_path dw ` set fs \<longrightarrow> dk_files d' q = dk_files d q) \<and>
      dk_openable d' = dk_openable d \<and> dk_writable d' = dk_writable d)"

lemma wrote_nothing: "\<forall>f\<in>set fs. stored dw d f \<Longrightarrow> wrote dw [] fs p d d"
  by (simp add: wrote_def)

lemma wrote_later:
  assumes "wrote dw xs fs (p - fe_length f) d d'" "fe_length f \<le> p" "stored dw d f"
    "absolute_path dw f \<notin> absolute_path dw ` set fs"
  shows "wrote dw xs (f # fs) p d d'"
proof -
  have "dk_files d' (absolute_path dw f) = dk_files d (absolute_path dw f)" using assms(1,4) by (simp add: wrote_def)
  then have "content dw d' f = content dw d f" "stored dw d' f" using assms(3) by (simp_all add: content_def stored_def)
  then show ?thesis
    using assms splice_append_right [of "content dw d f" p xs "image_of dw d fs"]
    by (auto simp: wrote_def length_content)
qed

lemma wrote_here:
  assumes "dk_files d (absolute_path dw f) = Some old" "length old = fe_length f"
    "st \<le> length old" "k = min (length ys) (length old - st)"
    "absolute_path dw f \<notin> absolute_path dw ` set fs"
    "d1 = d\<lparr>dk_files := (dk_files d)(absolute_path dw f \<mapsto> file_write st (take k ys) old)\<rparr>"
    "wrote dw (drop k ys) fs 0 d1 d'"
  shows "wrote dw ys (f # fs) st d d'"
proof -
  let ?p = "absolute_path dw f"
  have fit: "st + length (take k ys) \<le> length old" using assms(3,4) by simp
  have same: "dk_files d' ?p = Some (splice st (take k ys) old)"
    using assms(5,7) by (simp add: wrote_def assms(6) file_write_splice [OF fit])
  have rest: "image_of dw d1 fs = image_of dw d fs"
    by (rule image_of_cong) (use assms(5) in \<open>auto simp: assms(6) image_iff\<close>)
  have "image_of dw d' (f # fs) = splice st (take k ys) old @ splice 0 (drop k ys) (image_of dw d fs)"
    using assms(7) same rest by (simp add: wrote_def content_def)
  moreover have "image_of dw d (f # fs) = old @ image_of dw d fs" by (simp add: content_def assms(1))
  moreover have "stored dw d' f" using same fit assms(2) by (simp add: stored_def)
  ultimately show ?thesis
    using splice_append_split [OF assms(3,4), of "image_of dw d fs"] assms(6,7) by (auto simp: wrote_def)
qed

text \<open>
  The loop writes a prefix of the data, and all of it unless some file cannot
  be opened or written.
\<close>

lemma write_loop_effect:
  assumes "laid_out off fs" "\<forall>f\<in>set fs. stored dw d f"
    "distinct (map (absolute_path dw) fs)" "off \<le> w" "w + n \<le> off + total fs"
    "off + total fs < 2 ^ 64" "n = length data - pos" "write_loop dw data fs w n pos d = (r, d')"
  shows "\<exists>k\<le>n. wrote dw (take k (drop pos data)) fs (w - off) d d' \<and>
    (r = Inr 0 \<and> k = n \<or> (\<exists>e. r = Inl e) \<and> (\<exists>f\<in>set fs. \<not> healthy dw d f))"
  using assms
proof (induction fs arbitrary: off w n pos d)
  case Nil
  then show ?case by (auto simp: wrote_nothing)
next
  case (Cons f fs)
  let ?p = "absolute_path dw f"
  obtain old where old: "dk_files d ?p = Some old" "length old = fe_length f"
    using Cons.prems(2) by (auto simp: stored_def)
  have off: "fe_offset f = off" and fresh: "?p \<notin> absolute_path dw ` set fs" using Cons.prems(1,3) by auto
  consider "n = 0" | "n \<noteq> 0" "off + fe_length f \<le> w" | "n \<noteq> 0" "w < off + fe_length f" by linarith
  then show ?case
  proof cases
    case 1
    then show ?thesis using Cons.prems(2,8) wrote_nothing [OF Cons.prems(2)] by auto
  next
    case 2
    then have "write_loop dw data fs w n pos d = (r, d')"
      using Cons.prems(5,6,8) loop_step(1) [OF off Cons.prems(4), of n "total fs"] by simp
    from Cons.IH [OF _ _ _ _ _ _ Cons.prems(7) this, of "off + fe_length f"] Cons.prems 2
    obtain k where "k \<le> n" "wrote dw (take k (drop pos data)) fs (w - (off + fe_length f)) d d'"
      "r = Inr 0 \<and> k = n \<or> (\<exists>e. r = Inl e) \<and> (\<exists>f\<in>set fs. \<not> healthy dw d f)" by auto
    then show ?thesis
      using wrote_later [of dw _ fs "w - off" f d d'] 2 fresh Cons.prems(2) by (auto simp: diff_diff_left)
  next
    case 3
    define st k where "st = w - off" and "k = min n (fe_length f - st)"
    define d1 where "d1 = d\<lparr>dk_files := (dk_files d)(?p \<mapsto> file_write st (take k (drop pos data)) old)\<rparr>"
    have k: "k \<le> n" "st \<le> length old" "k \<noteq> n \<Longrightarrow> w + k = off + fe_length f \<and> k = length old - st"
      using Cons.prems(4) 3 old by (auto simp: st_def k_def min_def)
    note hit = write_loop_hit [OF off Cons.prems(4) _ _ 3 st_def k_def, of "total fs" dw data fs pos d]
    show ?thesis
    proof (cases "healthy dw d f")
      case False
      then have "d' = d" "\<exists>e. r = Inl e"
        using hit Cons.prems(5,6,8) old
        by (auto simp: healthy_def add.assoc simp del: write_loop.simps split: if_splits)
      then show ?thesis using False wrote_nothing [OF Cons.prems(2)] by (intro exI [of _ 0]) auto
    next
      case True
      then have run: "write_loop dw data fs (w + k) (n - k) (pos + k) d1 = (r, d')"
        using hit Cons.prems(5,6,8) old by (simp add: healthy_def d1_def add.assoc del: write_loop.simps)
      have st1: "\<forall>f\<in>set fs. stored dw d1 f" and he1: "\<And>f. healthy dw d1 f = healthy dw d f"
        using Cons.prems(2) fresh by (auto simp: stored_def healthy_def d1_def image_iff)
      have "\<exists>k'\<le>n - k. wrote dw (take k' (drop (pos + k) data)) fs 0 d1 d' \<and>
          (r = Inr 0 \<and> k' = n - k \<or> (\<exists>e. r = Inl e) \<and> (\<exists>f\<in>set fs. \<not> healthy dw d f))"
      proof (cases "k = n")
        case True
        then show ?thesis using run wrote_nothing [OF st1] by auto
      next
        case False
        then show ?thesis
          using Cons.IH [OF _ st1 _ _ _ _ _ run, of "off + fe_length f"] Cons.prems k he1 by auto
      qed
      then obtain k' where k': "k' \<le> n - k" "wrote dw (take k' (drop (pos + k) data)) fs 0 d1 d'"
        "r = Inr 0 \<and> k' = n - k \<or> (\<exists>e. r = Inl e) \<and> (\<exists>f\<in>set fs. \<not> healthy dw d f)" by auto
      let ?ys = "take (k + k') (drop pos data)"
      have "k = min (length ?ys) (length old - st)"
      proof -
        have "length ?ys = k + k'" "k \<le> length old - st"
          using k(1) k'(1) Cons.prems(7) old(2) by (simp_all add: k_def)
        then show ?thesis using k(3) k'(1) by (cases "k = n") auto
      qed
      from wrote_here [OF old k(2) this fresh, of d1 d'] k'(2)
      have "wrote dw ?ys (f # fs) st d d'" by (simp add: d1_def min_def drop_take add.commute)
      then show ?thesis using k(1) k'(1,3) by (intro exI [of _ "k + k'"]) (auto simp: st_def)
    qed
  qed
qed

lemma read_loop_refines:
  assumes "laid_out off fs" "\<forall>f\<in>set fs. stored dw d f \<and> healthy dw d f"
    "off \<le> r" "r + n \<le> off + total fs" "off + total fs < 2 ^ 64"
  shows "read_loop dw d fs r n out = Inr (0, out @ take n (drop (r - off) (image_of dw d fs)))"
  using assms
proof (induction fs arbitrary: off r n out)
  case Nil
  then show ?case by simp
next
  case (Cons f fs)
  let ?p = "absolute_path dw f"
  obtain c where c: "dk_files d ?p = Some c" "length c = fe_length f"
    using Cons.prems(2) by (auto simp: stored_def)
  have img: "image_of dw d (f # fs) = c @ image_of dw d fs" using c by (simp add: content_def)
  have off: "fe_offset f = off" using Cons.prems(1) by simp
  have step: "u64 (fe_offset f + fe_length f) = off + fe_length f"
      "n \<noteq> 0 \<Longrightarrow> \<not> u64 (r + n) \<le> fe_offset f"
      "(if fe_offset f < r then r - fe_offset f else 0) = r - off"
      "r < off + fe_length f \<Longrightarrow> u64_sub (fe_length f) (r - off) = fe_length f - (r - off)"
      "\<And>k. k \<le> n \<Longrightarrow> u64 (r + k) = r + k"
    using loop_step [OF off Cons.prems(3), of n "total fs"] Cons.prems(4,5) by auto
  consider "n = 0" | "n \<noteq> 0" "off + fe_length f \<le> r" | "n \<noteq> 0" "r < off + fe_length f" by linarith
  then show ?case
  proof cases
    case 1
    then show ?thesis by simp
  next
    case 2
    then have "read_loop dw d (f # fs) r n out = read_loop dw d fs r n out" using step(1) by simp
    also have "\<dots> = Inr (0, out @ take n (drop (r - (off + fe_length f)) (image_of dw d fs)))"
      by (rule Cons.IH) (use Cons.prems 2 in auto)
    finally show ?thesis unfolding img using 2(2) c(2) by (simp del: read_loop.simps)
  next
    case 3
    define st k where "st = r - off" and "k = min n (fe_length f - st)"
    have k: "k \<le> n" "st + k \<le> length c" "k \<noteq> n \<Longrightarrow> r + k = off + fe_length f"
      "k \<noteq> n \<Longrightarrow> k = length c - st"
      using Cons.prems(3) 3 c by (auto simp: st_def k_def min_def)
    have got: "length (file_read st k c) = k" using k(2) by (simp add: file_read_def)
    have eq: "read_loop dw d (f # fs) r n out = read_loop dw d fs (r + k) (n - k) (out @ file_read st k c)"
      using 3 step c Cons.prems(2) got
      by (simp add: Let_def healthy_def st_def [symmetric] k_def [symmetric] k(1))
    show ?thesis
    proof (cases "k = n")
      case True
      then show ?thesis unfolding img using eq k(2)
        by (simp add: file_read_def st_def [symmetric] del: read_loop.simps)
    next
      case False
      have "read_loop dw d fs (r + k) (n - k) (out @ file_read st k c) =
          Inr (0, (out @ file_read st k c) @ take (n - k) (drop (r + k - (off + fe_length f)) (image_of dw d fs)))"
        by (rule Cons.IH) (use Cons.prems k(3) [OF False] k(1) in auto)
      then show ?thesis unfolding img using eq k(3,4) [OF False] k(1,2)
        by (simp add: file_read_def st_def [symmetric] del: read_loop.simps)
    qed
  qed
qed

subsection \<open>The storage contract\<close>

text \<open>
  What a client of the storage relies on: a piece in range can be written, a
  piece read after it was written is what was written, and writing one piece
  leaves the others as they were.
\<close>

definition dw_ok :: "disk_writer \<Rightarrow> bool" where
  "dw_ok dw = (0 < dw_piece_size dw \<and> dw_piece_size dw < 2 ^ 32 \<and> dw_total_size dw + dw_piece_size dw < 2 ^ 64 \<and>
     laid_out 0 (dw_files dw) \<and> total (dw_files dw) = dw_total_size dw \<and>
     distinct (map (absolute_path dw) (dw_files dw)))"

definition disk_ok :: "disk_writer \<Rightarrow> disk \<Rightarrow> bool" where
  "disk_ok dw d = (dw_ok dw \<and> dw_preallocated dw \<and> (\<forall>f\<in>set (dw_files dw). stored dw d f \<and> healthy dw d f))"

definition image :: "disk_writer \<Rightarrow> disk \<Rightarrow> bytes" where
  "image dw d = image_of dw d (dw_files dw)"

definition in_range :: "disk_writer \<Rightarrow> nat \<Rightarrow> bool" where
  "in_range dw i = (i * dw_piece_size dw < dw_total_size dw)"

definition piece_bytes :: "disk_writer \<Rightarrow> nat \<Rightarrow> nat" where
  "piece_bytes dw i = min (dw_piece_size dw) (dw_total_size dw - i * dw_piece_size dw)"

lemma piece_geometry:
  assumes "dw_ok dw" "in_range dw i"
  shows "piece_global_offset dw i = i * dw_piece_size dw" "dw_piece_length dw i = Inr (piece_bytes dw i)"
    "i * dw_piece_size dw + piece_bytes dw i \<le> dw_total_size dw"
proof -
  have lt: "i * dw_piece_size dw < 2 ^ 64" using assms by (simp add: dw_ok_def in_range_def)
  then show off: "piece_global_offset dw i = i * dw_piece_size dw"
    by (simp add: piece_global_offset_def u64_id)
  show "i * dw_piece_size dw + piece_bytes dw i \<le> dw_total_size dw"
    using assms by (simp add: piece_bytes_def in_range_def)
  have "u64 (i * dw_piece_size dw + dw_piece_size dw) = i * dw_piece_size dw + dw_piece_size dw"
    using assms by (simp add: dw_ok_def in_range_def u64_id)
  moreover have "min (i * dw_piece_size dw + dw_piece_size dw) (dw_total_size dw) =
      i * dw_piece_size dw + piece_bytes dw i"
    using assms unfolding piece_bytes_def in_range_def by linarith
  moreover have "i * dw_piece_size dw + piece_bytes dw i < 2 ^ 64" "piece_bytes dw i < 2 ^ 32"
    using assms by (auto simp: piece_bytes_def in_range_def dw_ok_def min_def)
  ultimately show "dw_piece_length dw i = Inr (piece_bytes dw i)"
    using assms(2) by (simp add: dw_piece_length_def off Let_def in_range_def u64_sub_id u32_id)
qed

lemma length_image: "disk_ok dw d \<Longrightarrow> length (image dw d) = dw_total_size dw"
  unfolding image_def disk_ok_def dw_ok_def by (subst length_image_of) auto

lemma indices_returns: "dw_ok dw \<Longrightarrow> in_range dw i \<Longrightarrow> \<exists>xs. file_indices_for_piece dw i = Inr xs"
  by (simp add: file_indices_for_piece_def Let_def piece_geometry)

lemma pieces_apart:
  fixes s :: nat
  assumes "i \<noteq> j" "a \<le> s" "b \<le> s"
  shows "i * s + a \<le> j * s \<or> j * s + b \<le> i * s"
proof (cases "i < j")
  case True
  then have "i * s + s \<le> j * s" using mult_le_mono1 [of "Suc i" j s] by simp
  then show ?thesis using assms by simp
next
  case False
  then have "j * s + s \<le> i * s" using mult_le_mono1 [of "Suc j" i s] assms by simp
  then show ?thesis using assms by simp
qed

text \<open>The part of the torrent that is piece \<open>i\<close>, and what a write does to it and to the others.\<close>

definition files_ok :: "disk_writer \<Rightarrow> disk \<Rightarrow> bool" where
  "files_ok dw d = (dw_ok dw \<and> dw_preallocated dw \<and> (\<forall>f\<in>set (dw_files dw). stored dw d f))"

definition slot :: "disk_writer \<Rightarrow> disk \<Rightarrow> nat \<Rightarrow> bytes" where
  "slot dw d i = take (piece_bytes dw i) (drop (i * dw_piece_size dw) (image dw d))"

lemma disk_ok_files: "disk_ok dw d \<Longrightarrow> files_ok dw d"
  by (simp add: disk_ok_def files_ok_def)

lemma length_image_files: "files_ok dw d \<Longrightarrow> length (image dw d) = dw_total_size dw"
  unfolding image_def files_ok_def dw_ok_def by (subst length_image_of) auto

lemma write_piece_effect:
  assumes "files_ok dw d" "in_range dw i" "write_piece dw i data d = (e, d')"
  shows "(e = Some PieceSizeMismatch \<and> length data \<noteq> piece_bytes dw i \<and> d' = d) \<or>
    (length data = piece_bytes dw i \<and>
     (\<exists>k\<le>length data. wrote dw (take k data) (dw_files dw) (i * dw_piece_size dw) d d' \<and>
       (e = None \<and> k = length data \<or> e \<noteq> None \<and> (\<exists>f\<in>set (dw_files dw). \<not> healthy dw d f))))"
proof -
  have ok: "dw_ok dw" "dw_preallocated dw" using assms(1) by (simp_all add: files_ok_def)
  note geo = piece_geometry [OF ok(1) assms(2)]
  obtain xs where xs: "file_indices_for_piece dw i = Inr xs" using indices_returns [OF ok(1) assms(2)] by auto
  show ?thesis
  proof (cases "length data = piece_bytes dw i")
    case False
    then show ?thesis using assms(3) ok by (simp add: write_piece_def xs geo)
  next
    case True
    obtain r d1 where r: "write_loop dw data (dw_files dw) (i * dw_piece_size dw) (length data) 0 d = (r, d1)"
      by fastforce
    have "\<exists>k\<le>length data. wrote dw (take k (drop 0 data)) (dw_files dw) (i * dw_piece_size dw - 0) d d1 \<and>
      (r = Inr 0 \<and> k = length data \<or> (\<exists>e. r = Inl e) \<and> (\<exists>f\<in>set (dw_files dw). \<not> healthy dw d f))"
      by (rule write_loop_effect [OF _ _ _ _ _ _ _ r])
        (use assms(1) geo(3) True in \<open>auto simp: files_ok_def dw_ok_def\<close>)
    moreover have "d' = d1" "e = (case r of Inl x \<Rightarrow> Some x | Inr n \<Rightarrow> if n \<noteq> 0 then Some WriteNotMapped else None)"
      using assms(3) True r ok by (auto simp: write_piece_def xs geo(1,2) split: sum.splits if_splits)
    ultimately show ?thesis using True by auto
  qed
qed

lemma wrote_files_ok:
  "files_ok dw d \<Longrightarrow> wrote dw xs (dw_files dw) p d d' \<Longrightarrow>
   files_ok dw d' \<and> image dw d' = splice p xs (image dw d) \<and> healthy dw d' = healthy dw d"
  by (auto simp: files_ok_def wrote_def image_def healthy_def fun_eq_iff)

lemma write_piece_image:
  assumes "disk_ok dw d" "in_range dw i" "length data = piece_bytes dw i"
  shows "\<exists>d'. write_piece dw i data d = (None, d') \<and> disk_ok dw d' \<and>
    image dw d' = splice (i * dw_piece_size dw) data (image dw d) \<and>
    (\<forall>p. p \<notin> absolute_path dw ` set (dw_files dw) \<longrightarrow> dk_files d' p = dk_files d p)"
proof -
  obtain e d' where e: "write_piece dw i data d = (e, d')" by fastforce
  have "e = None" and w: "wrote dw data (dw_files dw) (i * dw_piece_size dw) d d'"
    using write_piece_effect [OF disk_ok_files [OF assms(1)] assms(2) e] assms by (auto simp: disk_ok_def)
  then show ?thesis
    using e wrote_files_ok [OF disk_ok_files [OF assms(1)] w] assms(1)
    by (auto simp: disk_ok_def files_ok_def wrote_def)
qed

lemma slot_write:
  assumes "files_ok dw d" "in_range dw i" "write_piece dw i data d = (e, d')"
  shows "files_ok dw d'" "e = None \<Longrightarrow> slot dw d' i = data"
    "in_range dw j \<Longrightarrow> j \<noteq> i \<Longrightarrow> slot dw d' j = slot dw d j"
    "dk_openable d' = dk_openable d" "dk_writable d' = dk_writable d"
proof -
  have ok: "dw_ok dw" using assms(1) by (simp add: files_ok_def)
  note geo = piece_geometry(3) [OF ok]
  consider "e = Some PieceSizeMismatch" "d' = d"
    | k where "length data = piece_bytes dw i" "k \<le> length data"
        "wrote dw (take k data) (dw_files dw) (i * dw_piece_size dw) d d'" "e = None \<longrightarrow> k = length data"
    using write_piece_effect [OF assms] by auto
  then have "files_ok dw d' \<and> (e = None \<longrightarrow> slot dw d' i = data) \<and>
    (in_range dw j \<longrightarrow> j \<noteq> i \<longrightarrow> slot dw d' j = slot dw d j) \<and>
    dk_openable d' = dk_openable d \<and> dk_writable d' = dk_writable d"
  proof cases
    case 1
    then show ?thesis using assms(1) by simp
  next
    case 2
    have fit: "i * dw_piece_size dw + length (take k data) \<le> length (image dw d)"
      using geo [OF assms(2)] 2(1,2) by (simp add: length_image_files [OF assms(1)])
    have img: "image dw d' = splice (i * dw_piece_size dw) (take k data) (image dw d)" "files_ok dw d'"
      using wrote_files_ok [OF assms(1) 2(3)] by auto
    have "slot dw d' i = data" if "e = None"
      using take_drop_splice_same [OF fit] 2(1,4) that by (simp add: slot_def img)
    moreover have "slot dw d' j = slot dw d j" if "in_range dw j" "j \<noteq> i"
    proof -
      have "j * dw_piece_size dw + piece_bytes dw j \<le> i * dw_piece_size dw \<or>
          i * dw_piece_size dw + length (take k data) \<le> j * dw_piece_size dw"
        using pieces_apart [OF that(2), of "piece_bytes dw j" "dw_piece_size dw" "length (take k data)"] 2(1,2)
        by (simp add: piece_bytes_def)
      from take_drop_splice_other [OF fit this] show ?thesis by (simp add: slot_def img)
    qed
    ultimately show ?thesis using img(2) 2(3) by (simp add: wrote_def)
  qed
  then show "files_ok dw d'" "e = None \<Longrightarrow> slot dw d' i = data"
    "in_range dw j \<Longrightarrow> j \<noteq> i \<Longrightarrow> slot dw d' j = slot dw d j"
    "dk_openable d' = dk_openable d" "dk_writable d' = dk_writable d" by auto
qed

lemma read_piece_image:
  assumes "disk_ok dw d" "in_range dw i"
  shows "read_piece dw i d = Inr (slot dw d i)"
proof -
  have ok: "dw_ok dw" using assms(1) by (simp add: disk_ok_def)
  note geo = piece_geometry [OF ok assms(2)]
  obtain xs where xs: "file_indices_for_piece dw i = Inr xs" using indices_returns [OF ok assms(2)] by auto
  have "read_loop dw d (dw_files dw) (i * dw_piece_size dw) (piece_bytes dw i) [] =
      Inr (0, [] @ take (piece_bytes dw i) (drop (i * dw_piece_size dw - 0) (image_of dw d (dw_files dw))))"
    by (rule read_loop_refines) (use assms geo(3) in \<open>auto simp: disk_ok_def dw_ok_def\<close>)
  then show ?thesis using assms(1) by (simp add: read_piece_def disk_ok_def xs geo(1,2) image_def slot_def)
qed

locale piece_store =
  fixes ok :: "'s \<Rightarrow> bool"
    and valid :: "nat \<Rightarrow> bool"
    and len :: "nat \<Rightarrow> nat"
    and put :: "nat \<Rightarrow> bytes \<Rightarrow> 's \<Rightarrow> 'e option \<times> 's"
    and get :: "nat \<Rightarrow> 's \<Rightarrow> 'e + bytes"
  assumes put_ok: "ok s \<Longrightarrow> valid i \<Longrightarrow> length data = len i \<Longrightarrow>
      \<exists>s'. put i data s = (None, s') \<and> ok s' \<and> get i s' = Inr data \<and>
        (\<forall>j. valid j \<longrightarrow> j \<noteq> i \<longrightarrow> get j s' = get j s)"
    and get_ok: "ok s \<Longrightarrow> valid i \<Longrightarrow> \<exists>data. get i s = Inr data \<and> length data = len i"
begin

text \<open>A run of writes: the last value written to each piece is what is read.\<close>

definition put_all :: "(nat \<times> bytes) list \<Rightarrow> 's \<Rightarrow> 's" where
  "put_all ps s = foldl (\<lambda>s (i, data). snd (put i data s)) s ps"

lemma put_all_ok:
  assumes "ok s" "\<forall>(i, data)\<in>set ps. valid i \<and> length data = len i"
  shows "ok (put_all ps s) \<and>
    (\<forall>j. valid j \<longrightarrow> get j (put_all ps s) =
       (case map_of (rev ps) j of None \<Rightarrow> get j s | Some data \<Rightarrow> Inr data))"
  using assms
proof (induction ps arbitrary: s)
  case Nil
  then show ?case by (simp add: put_all_def)
next
  case (Cons p ps)
  obtain i data where p: "p = (i, data)" by fastforce
  obtain s' where s': "put i data s = (None, s')" "ok s'" "get i s' = Inr data"
    "\<forall>j. valid j \<longrightarrow> j \<noteq> i \<longrightarrow> get j s' = get j s"
    using put_ok [of s i data] Cons.prems p by auto
  have "put_all (p # ps) s = put_all ps s'" by (simp add: put_all_def p s'(1))
  moreover have "ok (put_all ps s') \<and> (\<forall>j. valid j \<longrightarrow> get j (put_all ps s') =
      (case map_of (rev ps) j of None \<Rightarrow> get j s' | Some data \<Rightarrow> Inr data))"
    using Cons.IH [OF s'(2)] Cons.prems by simp
  ultimately show ?case using s'(3,4)
    by (auto simp: p map_add_def split: option.splits)
qed

end

interpretation disk: piece_store "disk_ok dw" "in_range dw" "piece_bytes dw" "write_piece dw" "read_piece dw" for dw
proof
  fix s i and data :: bytes
  assume a: "disk_ok dw s" "in_range dw i" "length data = piece_bytes dw i"
  obtain d' where d': "write_piece dw i data s = (None, d')" "disk_ok dw d'"
    using write_piece_image [OF a] by auto
  note slot = slot_write [OF disk_ok_files [OF a(1)] a(2) d'(1)]
  have "read_piece dw i d' = Inr data" using read_piece_image [OF d'(2) a(2)] slot(2) by simp
  moreover have "read_piece dw j d' = read_piece dw j s" if "in_range dw j" "j \<noteq> i" for j
    using read_piece_image [OF d'(2) that(1)] read_piece_image [OF a(1) that(1)] slot(3) [OF that] by simp
  ultimately show "\<exists>s'. write_piece dw i data s = (None, s') \<and> disk_ok dw s' \<and> read_piece dw i s' = Inr data \<and>
      (\<forall>j. in_range dw j \<longrightarrow> j \<noteq> i \<longrightarrow> read_piece dw j s' = read_piece dw j s)"
    using d' by auto
next
  fix s i
  assume "disk_ok dw s" "in_range dw i"
  then show "\<exists>data. read_piece dw i s = Inr data \<and> length data = piece_bytes dw i"
    using piece_geometry(3) [of dw i] by (simp add: read_piece_image length_image disk_ok_def slot_def)
qed

subsection \<open>Locking\<close>

text \<open>The loop changes only files that overlap the range it is given.\<close>

lemma write_loop_touches:
  assumes "laid_out off fs" "off \<le> w" "w + n \<le> off + total fs" "off + total fs < 2 ^ 64"
    "write_loop dw data fs w n pos d = (r, d')" "dk_files d' p \<noteq> dk_files d p"
  shows "\<exists>f\<in>set fs. p = absolute_path dw f \<and> fe_offset f < w + n \<and> w < fe_offset f + fe_length f"
  using assms
proof (induction fs arbitrary: off w n pos d)
  case Nil
  then show ?case by simp
next
  case (Cons f fs)
  have off: "fe_offset f = off" using Cons.prems(1) by simp
  note step = loop_step [OF off Cons.prems(2), of n "total fs"]
  have n: "n \<noteq> 0" using Cons.prems(5,6) by (cases "n = 0") auto
  show ?case
  proof (cases "off + fe_length f \<le> w")
    case True
    then have "write_loop dw data fs w n pos d = (r, d')"
      using Cons.prems(3,4,5) n step(1) by simp
    from Cons.IH [OF _ _ _ _ this Cons.prems(6)] show ?thesis using Cons.prems True by auto
  next
    case False
    show ?thesis
    proof (cases "p = absolute_path dw f")
      case True
      then show ?thesis using False n off Cons.prems(2) by auto
    next
      case other: False
      define st k where "st = w - off" and "k = min n (fe_length f - st)"
      have k: "k \<le> n" "k \<noteq> n \<Longrightarrow> w + k = off + fe_length f"
        using Cons.prems(2) False by (auto simp: st_def k_def min_def)
      obtain d1 pos1 where d1: "write_loop dw data fs (w + k) (n - k) pos1 d1 = (r, d')" "dk_files d1 p = dk_files d p"
        using write_loop_hit [OF off Cons.prems(2) _ _ n _ st_def k_def, of "total fs" dw data fs pos d]
          Cons.prems(3-6) False other
        by (auto simp: add.assoc simp del: write_loop.simps split: option.splits if_splits)
      then have "k \<noteq> n" using Cons.prems(6) by auto
      then have "\<exists>f\<in>set fs. p = absolute_path dw f \<and> fe_offset f < (w + k) + (n - k) \<and> w + k < fe_offset f + fe_length f"
        using Cons.IH [OF _ _ _ _ d1(1)] Cons.prems d1(2) k by auto
      then show ?thesis using k(1) by force
    qed
  qed
qed

lemma laid_out_bound: "laid_out off fs \<Longrightarrow> f \<in> set fs \<Longrightarrow> fe_offset f + fe_length f \<le> off + total fs"
  by (induction fs arbitrary: off) fastforce+

lemma file_indices_mem:
  assumes "dw_ok dw" "in_range dw i"
  shows "file_indices_for_piece dw i = Inr (filter (\<lambda>k. fe_offset (dw_files dw ! k) < i * dw_piece_size dw + piece_bytes dw i \<and>
      i * dw_piece_size dw < fe_offset (dw_files dw ! k) + fe_length (dw_files dw ! k)) [0..<length (dw_files dw)])"
proof -
  note geo = piece_geometry [OF assms]
  have "u64 (i * dw_piece_size dw + piece_bytes dw i) = i * dw_piece_size dw + piece_bytes dw i"
    using geo(3) assms(1) by (simp add: dw_ok_def u64_id)
  moreover have "u64 (fe_offset (dw_files dw ! k) + fe_length (dw_files dw ! k)) =
      fe_offset (dw_files dw ! k) + fe_length (dw_files dw ! k)" if "k < length (dw_files dw)" for k
    using laid_out_bound [of 0 "dw_files dw" "dw_files dw ! k"] assms(1) that by (simp add: dw_ok_def u64_id)
  ultimately show ?thesis
    unfolding file_indices_for_piece_def geo Let_def by (auto simp: not_le intro!: filter_cong)
qed

subsection \<open>Construction and preallocation\<close>

lemma layout_entries_laid_out:
  assumes "layout_entries off layout = (fs, t)" "off + sum_list (map snd layout) < 2 ^ 64"
  shows "laid_out off fs \<and> t = off + total fs \<and> map fe_rel_path fs = map fst layout \<and> map fe_length fs = map snd layout"
  using assms
proof (induction layout arbitrary: off fs)
  case Nil
  then show ?case by auto
next
  case (Cons pn layout)
  obtain p n where pn: "pn = (p, n)" by fastforce
  obtain es where es: "layout_entries (off + n) layout = (es, t)"
    "fs = \<lparr>fe_rel_path = p, fe_length = n, fe_offset = off\<rparr> # es"
    using Cons.prems by (auto simp: pn u64_id split: prod.splits)
  with Cons.IH [OF es(1)] Cons.prems(2) show ?case by (auto simp: pn)
qed

lemma preallocate_loop_ready:
  assumes "\<forall>f\<in>set fs. healthy dw d f \<and> fe_length f \<le> 2 ^ 63" "distinct (map (absolute_path dw) fs)"
  shows "\<exists>d'. preallocate_loop dw fs d = (None, d') \<and>
    (\<forall>f\<in>set fs. dk_files d' (absolute_path dw f) = Some (replicate (fe_length f) 0)) \<and>
    (\<forall>p. p \<notin> absolute_path dw ` set fs \<longrightarrow> dk_files d' p = dk_files d p) \<and>
    dk_openable d' = dk_openable d \<and> dk_writable d' = dk_writable d"
  using assms
proof (induction fs arbitrary: d)
  case Nil
  then show ?case by simp
next
  case (Cons f fs)
  let ?p = "absolute_path dw f"
  define d1 where "d1 = d\<lparr>dk_files := (dk_files d)(?p \<mapsto> replicate (fe_length f) 0)\<rparr>"
  have eq: "preallocate_loop dw (f # fs) d = preallocate_loop dw fs d1"
    using Cons.prems(1) by (auto simp: Let_def healthy_def d1_def)
  have "\<forall>f\<in>set fs. healthy dw d1 f \<and> fe_length f \<le> 2 ^ 63" using Cons.prems(1) by (auto simp: healthy_def d1_def)
  from Cons.IH [OF this] Cons.prems(2) obtain d' where d': "preallocate_loop dw fs d1 = (None, d')"
    "\<forall>f\<in>set fs. dk_files d' (absolute_path dw f) = Some (replicate (fe_length f) 0)"
    "\<forall>p. p \<notin> absolute_path dw ` set fs \<longrightarrow> dk_files d' p = dk_files d1 p"
    "dk_openable d' = dk_openable d1" "dk_writable d' = dk_writable d1" by auto
  have "dk_files d' ?p = Some (replicate (fe_length f) 0)" using d'(3) Cons.prems(2) by (simp add: d1_def)
  then show ?case using eq d' by (auto simp: d1_def)
qed

lemma image_of_zeros:
  "\<forall>f\<in>set fs. dk_files d (absolute_path dw f) = Some (replicate (fe_length f) 0) \<Longrightarrow>
   image_of dw d fs = replicate (total fs) 0"
  by (induction fs) (auto simp: content_def replicate_add)

lemma disk_ok_preallocated:
  assumes "dw_ok dw" "\<forall>f\<in>set (dw_files dw). healthy dw d f \<and> fe_length f \<le> 2 ^ 63"
  shows "\<exists>d'. preallocate_files dw d = (None, dw\<lparr>dw_preallocated := True\<rparr>, d') \<and>
    disk_ok (dw\<lparr>dw_preallocated := True\<rparr>) d' \<and>
    image (dw\<lparr>dw_preallocated := True\<rparr>) d' = replicate (dw_total_size dw) 0"
proof -
  let ?dw = "dw\<lparr>dw_preallocated := True\<rparr>"
  have p: "absolute_path ?dw = absolute_path dw" by (simp add: absolute_path_def fun_eq_iff)
  obtain d' where d': "preallocate_loop dw (dw_files dw) d = (None, d')"
    "\<forall>f\<in>set (dw_files dw). dk_files d' (absolute_path dw f) = Some (replicate (fe_length f) 0)"
    "dk_openable d' = dk_openable d" "dk_writable d' = dk_writable d"
    using preallocate_loop_ready [OF assms(2)] assms(1) by (auto simp: dw_ok_def)
  have "disk_ok ?dw d'" using assms d' by (auto simp: disk_ok_def dw_ok_def stored_def healthy_def p)
  moreover have "image ?dw d' = replicate (dw_total_size dw) 0"
    using image_of_zeros [of "dw_files dw" d' ?dw] d'(2) assms(1) by (simp add: image_def p dw_ok_def)
  ultimately show ?thesis using d'(1) by (simp add: preallocate_files_def)
qed

text \<open>A torrent of eight bytes in pieces of four over two files.\<close>

definition sample_writer :: disk_writer where
  "sample_writer =
     \<lparr>dw_output_dir = str ''out'', dw_piece_size = 4, dw_total_size = 8,
      dw_files = [\<lparr>fe_rel_path = str ''a'', fe_length = 3, fe_offset = 0\<rparr>,
                  \<lparr>fe_rel_path = str ''b'', fe_length = 5, fe_offset = 3\<rparr>],
      dw_preallocated = True\<rparr>"

definition sample_disk :: disk where
  "sample_disk =
     \<lparr>dk_files = [str ''out/a'' \<mapsto> [0, 0, 0], str ''out/b'' \<mapsto> [0, 0, 0, 0, 0]],
      dk_openable = (\<lambda>p. True), dk_writable = (\<lambda>p. True)\<rparr>"

lemma sample_paths:
  "absolute_path sample_writer (dw_files sample_writer ! 0) = str ''out/a''"
  "absolute_path sample_writer (dw_files sample_writer ! 1) = str ''out/b''"
  by (simp_all add: sample_writer_def absolute_path_def path_join_def)

lemma sample_disk_ok: "disk_ok sample_writer sample_disk"
  by (simp add: disk_ok_def dw_ok_def stored_def healthy_def sample_writer_def sample_disk_def
      absolute_path_def path_join_def)

lemma sample_ranges: "in_range sample_writer 0" "in_range sample_writer 1"
    "piece_bytes sample_writer 0 = 4" "piece_bytes sample_writer 1 = 4"
  by (simp_all add: sample_writer_def in_range_def piece_bytes_def)

text \<open>The constructor's result satisfies what preallocation needs.\<close>

lemma dw_new_ok:
  assumes "dw_new piece_size total_size layout dir = Inr dw"
    "piece_size < 2 ^ 32" "sum_list (map snd layout) + piece_size < 2 ^ 64"
    "distinct (map (\<lambda>e. path_join dir (fst e)) layout)"
    "\<forall>(p, n)\<in>set layout. n \<le> 2 ^ 63 \<and> dk_openable d (path_join dir p) \<and> dk_writable d (path_join dir p)"
  shows "dw_ok dw" "\<forall>f\<in>set (dw_files dw). healthy dw d f \<and> fe_length f \<le> 2 ^ 63"
    "dw_piece_size dw = piece_size" "dw_total_size dw = total_size" "0 < total_size"
proof -
  obtain fs where fs: "layout_entries 0 layout = (fs, total_size)" "0 < piece_size" "0 < total_size"
    and dw: "dw = \<lparr>dw_output_dir = dir, dw_piece_size = piece_size, dw_total_size = total_size,
      dw_files = fs, dw_preallocated = False\<rparr>"
    using assms(1) by (auto simp: dw_new_def Let_def split: if_splits prod.splits)
  have lay: "laid_out 0 fs" "total_size = total fs" "map fe_rel_path fs = map fst layout"
      "map fe_length fs = map snd layout"
    using layout_entries_laid_out [OF fs(1)] assms(3) by auto
  have paths: "map (absolute_path dw) fs = map (\<lambda>e. path_join dir (fst e)) layout"
    using arg_cong [OF lay(3), of "map (path_join dir)"] by (simp add: absolute_path_def [abs_def] dw comp_def)
  have layout: "layout = zip (map fe_rel_path fs) (map fe_length fs)"
    by (simp add: lay(3,4) zip_map_fst_snd)
  show "dw_ok dw"
    using assms(2,3,4) fs(2) lay paths by (simp add: dw_ok_def dw total_def)
  show "\<forall>f\<in>set (dw_files dw). healthy dw d f \<and> fe_length f \<le> 2 ^ 63"
    using assms(5) unfolding layout by (auto simp: zip_map_map zip_same_conv_map healthy_def absolute_path_def dw)
  show "dw_piece_size dw = piece_size" "dw_total_size dw = total_size" "0 < total_size" using fs(3) by (simp_all add: dw)
qed

subsection \<open>Properties\<close>

text \<open>C23: Storing pieces is reliable: starting from a ready disk, after any sequence of
  writes of pieces of the right length, in any order and with repetitions, every
  piece in range reads back as the last value written to it, or as it was before
  if it was not written, even when pieces span several files.\<close>

theorem pieces_read_back:
  assumes "disk_ok dw d" "\<forall>(i, data)\<in>set ps. in_range dw i \<and> length data = piece_bytes dw i" "in_range dw j"
  shows "read_piece dw j (foldl (\<lambda>d (i, data). snd (write_piece dw i data d)) d ps) =
    (case map_of (rev ps) j of None \<Rightarrow> read_piece dw j d | Some data \<Rightarrow> Inr data)"
  using disk.put_all_ok [OF assms(1,2)] assms(3) by (simp add: disk.put_all_def)

theorem pieces_read_back_witness:
  "read_piece sample_writer 0 (foldl (\<lambda>d (i, data). snd (write_piece sample_writer i data d)) sample_disk
     [(0, [1, 2, 3, 4]), (1, [5, 6, 7, 8]), (0, [9, 9, 9, 9])]) = Inr [9, 9, 9, 9]"
proof -
  have "\<forall>(i, data)\<in>set [(0, [1, 2, 3, 4 :: byte]), (1, [5, 6, 7, 8]), (0, [9, 9, 9, 9])].
      in_range sample_writer i \<and> length data = piece_bytes sample_writer i"
    using sample_ranges by simp
  from pieces_read_back [OF sample_disk_ok this sample_ranges(1)] show ?thesis by simp
qed

text \<open>C24: Writing a piece refines the view of the torrent as one byte string: on a ready
  disk it succeeds, replaces exactly the piece's range of the concatenation of
  the output files, keeps every file's length and touches no other file.\<close>

theorem write_piece_refines:
  assumes "disk_ok dw d" "in_range dw i" "length data = piece_bytes dw i"
  shows "\<exists>d'. write_piece dw i data d = (None, d') \<and> disk_ok dw d' \<and>
    image dw d' = splice (i * dw_piece_size dw) data (image dw d) \<and>
    (\<forall>p. p \<notin> absolute_path dw ` set (dw_files dw) \<longrightarrow> dk_files d' p = dk_files d p)"
  by (rule write_piece_image [OF assms])

theorem write_piece_refines_witness:
  "image sample_writer (snd (write_piece sample_writer 0 [1, 2, 3, 4] sample_disk)) = [1, 2, 3, 4, 0, 0, 0, 0]"
proof -
  have "image sample_writer sample_disk = [0, 0, 0, 0, 0, 0, 0, 0]"
    by (simp add: image_def sample_writer_def sample_disk_def content_def absolute_path_def path_join_def)
  then show ?thesis
    using write_piece_refines [OF sample_disk_ok sample_ranges(1), of "[1, 2, 3, 4]"] sample_ranges
    by (auto simp: splice_def)
qed

text \<open>Preallocation makes the disk ready: for a layout whose total fits the
  arithmetic, whose paths are distinct and whose files can be created, the
  constructor's result is preallocated without error, every file has its final
  length and the whole torrent reads as zeros.\<close>

theorem preallocate_ready:
  assumes "dw_new piece_size total_size layout dir = Inr dw"
    "piece_size < 2 ^ 32" "sum_list (map snd layout) + piece_size < 2 ^ 64"
    "distinct (map (\<lambda>e. path_join dir (fst e)) layout)"
    "\<forall>(p, n)\<in>set layout. n \<le> 2 ^ 63 \<and> dk_openable d (path_join dir p) \<and> dk_writable d (path_join dir p)"
  shows "\<exists>d'. preallocate_files dw d = (None, dw\<lparr>dw_preallocated := True\<rparr>, d') \<and>
    disk_ok (dw\<lparr>dw_preallocated := True\<rparr>) d' \<and>
    image (dw\<lparr>dw_preallocated := True\<rparr>) d' = replicate total_size 0"
  using disk_ok_preallocated [OF dw_new_ok(1,2) [OF assms]] dw_new_ok(4) [OF assms] by simp

theorem preallocate_ready_witness:
  "fst (preallocate_files (sample_writer\<lparr>dw_preallocated := False\<rparr>) (sample_disk\<lparr>dk_files := Map.empty\<rparr>)) = None"
proof -
  have "dw_new 4 8 [(str ''a'', 3), (str ''b'', 5)] (str ''out'') = Inr (sample_writer\<lparr>dw_preallocated := False\<rparr>)"
    by (simp add: dw_new_def sample_writer_def u64_def)
  from preallocate_ready [OF this, of "sample_disk\<lparr>dk_files := Map.empty\<rparr>"]
  show ?thesis by (auto simp: path_join_def sample_disk_def)
qed

text \<open>The mutexes a write takes are the right ones: they are listed in strictly
  ascending order, so two writers cannot deadlock, and every file the write
  changes, whether it succeeds or fails half way, is among them.\<close>

theorem write_piece_locked:
  assumes "dw_ok dw" "in_range dw i"
  shows "\<exists>locks. file_indices_for_piece dw i = Inr locks \<and> sorted_wrt (<) locks \<and>
    (\<forall>p. dk_files (snd (write_piece dw i data d)) p \<noteq> dk_files d p \<longrightarrow>
       (\<exists>k\<in>set locks. p = absolute_path dw (dw_files dw ! k)))"
proof -
  note geo = piece_geometry [OF assms] and locks = file_indices_mem [OF assms]
  have "\<exists>k. k < length (dw_files dw) \<and> p = absolute_path dw (dw_files dw ! k) \<and>
      fe_offset (dw_files dw ! k) < i * dw_piece_size dw + piece_bytes dw i \<and>
      i * dw_piece_size dw < fe_offset (dw_files dw ! k) + fe_length (dw_files dw ! k)"
    if p: "dk_files (snd (write_piece dw i data d)) p \<noteq> dk_files d p" for p
  proof -
    obtain r d' where r: "write_loop dw data (dw_files dw) (i * dw_piece_size dw) (piece_bytes dw i) 0 d = (r, d')"
      and ch: "dk_files d' p \<noteq> dk_files d p"
      using p geo(1,2) locks
      by (auto simp: write_piece_def split: if_splits prod.splits sum.splits)
    from write_loop_touches [of 0, OF _ _ _ _ r ch] geo(3) assms(1)
    obtain f where "f \<in> set (dw_files dw)" "p = absolute_path dw f"
      "fe_offset f < i * dw_piece_size dw + piece_bytes dw i" "i * dw_piece_size dw < fe_offset f + fe_length f"
      by (auto simp: dw_ok_def)
    then show ?thesis by (auto simp: in_set_conv_nth)
  qed
  moreover have "sorted_wrt (<) (filter P [0..<n])" for P n by (simp add: sorted_wrt_filter)
  ultimately show ?thesis unfolding locks by fastforce
qed

theorem write_piece_locked_witness:
  "\<exists>locks. file_indices_for_piece sample_writer 0 = Inr locks \<and> sorted_wrt (<) locks"
proof -
  have "dw_ok sample_writer" using sample_disk_ok by (simp add: disk_ok_def)
  from write_piece_locked [OF this sample_ranges(1), of "[]" sample_disk] show ?thesis by blast
qed

end
