(* ===== verification/Piece_Manager.thy ===== *)
theory Piece_Manager
  imports Disk_Writer
begin

section \<open>Piece selection and completion\<close>

text \<open>
  \<^verbatim>\<open>PieceManager\<close> (\<^verbatim>\<open>inc/peer_wire/piece_manager.h\<close>,
  \<^verbatim>\<open>src/peer_wire/piece_manager.cpp\<close>): which pieces are held, which are
  claimed by a peer thread, and the hand-over of an assembled piece to the disk.
  The first part models each operation as one step, as a single thread sees it.
  The second part models the lock-free protocol between peer threads: every
  atomic load, store, compare-exchange and counter update of
  \<^verbatim>\<open>next_needed\<close>, \<^verbatim>\<open>complete_piece\<close> and \<^verbatim>\<open>abort_piece\<close> is a
  separate step of \<open>pm_step\<close>, in any interleaving, with disk failures.
  SHA-1 is the parameter \<open>sha1\<close>.
\<close>

definition BLOCK_SIZE :: nat where "BLOCK_SIZE = 2 ^ 14"

record needed_piece =
  np_index :: nat
  np_exclusive :: bool

datatype manager_error =
    HashCountMismatch | PieceIndexOutOfRange | PieceNotAvailable | BlockOutOfBounds | DiskError disk_error

record piece_manager =
  mg_total_length :: nat
  mg_downloaded :: nat
  mg_num_pieces :: nat
  mg_nominal :: nat
  mg_hashes :: "bytes list"
  mg_have :: "bool list"
  mg_claimed :: "bool list"
  mg_completed :: nat
  mg_hash_failures :: nat
  mg_writer :: disk_writer
  mg_disk :: disk

subsection \<open>Operations\<close>

definition mg_new :: "nat \<Rightarrow> nat \<Rightarrow> nat \<Rightarrow> bytes list \<Rightarrow> disk_writer \<Rightarrow> disk \<Rightarrow> manager_error + piece_manager" where
  "mg_new num_pieces piece_len total_length hashes dw d =
     (if length hashes \<noteq> num_pieces then Inl HashCountMismatch
      else Inr \<lparr>mg_total_length = total_length, mg_downloaded = 0, mg_num_pieces = num_pieces,
                mg_nominal = piece_len, mg_hashes = hashes,
                mg_have = replicate num_pieces False, mg_claimed = replicate num_pieces False,
                mg_completed = 0, mg_hash_failures = 0, mg_writer = dw, mg_disk = d\<rparr>)"

definition peer_offers :: "bool list \<Rightarrow> nat \<Rightarrow> bool" where
  "peer_offers bf i = (i < length bf \<and> bf ! i)"

fun claim_loop :: "bool list \<Rightarrow> nat list \<Rightarrow> piece_manager \<Rightarrow> nat option" where
  "claim_loop bf [] m = None"
| "claim_loop bf (i # is) m =
     (if \<not> peer_offers bf i then claim_loop bf is m
      else if mg_have m ! i then claim_loop bf is m
      else if \<not> mg_claimed m ! i then Some i
      else claim_loop bf is m)"

fun endgame_loop :: "bool list \<Rightarrow> nat list \<Rightarrow> piece_manager \<Rightarrow> nat option" where
  "endgame_loop bf [] m = None"
| "endgame_loop bf (i # is) m =
     (if \<not> peer_offers bf i then endgame_loop bf is m
      else if mg_have m ! i then endgame_loop bf is m
      else Some i)"

definition next_needed :: "bool list \<Rightarrow> piece_manager \<Rightarrow> needed_piece option \<times> piece_manager" where
  "next_needed bf m =
     (case claim_loop bf [0..<mg_num_pieces m] m of
        Some i \<Rightarrow> (Some \<lparr>np_index = i, np_exclusive = True\<rparr>, m\<lparr>mg_claimed := (mg_claimed m)[i := True]\<rparr>)
      | None \<Rightarrow> (case endgame_loop bf [0..<mg_num_pieces m] m of
            Some i \<Rightarrow> (Some \<lparr>np_index = i, np_exclusive = False\<rparr>, m)
          | None \<Rightarrow> (None, m)))"

definition piece_length :: "nat \<Rightarrow> piece_manager \<Rightarrow> nat" where
  "piece_length index m =
     (if u32 (index + 1) < mg_num_pieces m then mg_nominal m
      else u32 (u64_sub (mg_total_length m) (u64 (mg_nominal m * u32_sub (mg_num_pieces m) 1))))"

definition complete_piece ::
    "(bytes \<Rightarrow> bytes) \<Rightarrow> nat \<Rightarrow> bytes \<Rightarrow> piece_manager \<Rightarrow> (manager_error + bool) \<times> piece_manager" where
  "complete_piece sha1 i data m =
     (if mg_num_pieces m \<le> i then (Inl PieceIndexOutOfRange, m)
      else if mg_have m ! i then (Inr True, m)
      else if sha1 data \<noteq> mg_hashes m ! i
      then (Inr False, m\<lparr>mg_hash_failures := u64 (mg_hash_failures m + 1)\<rparr>)
      else let m = m\<lparr>mg_have := (mg_have m)[i := True]\<rparr>
           in case write_piece (mg_writer m) i data (mg_disk m) of
                (Some e, d) \<Rightarrow> (Inl (DiskError e), m\<lparr>mg_disk := d\<rparr>)
              | (None, d) \<Rightarrow>
                  (Inr True, m\<lparr>mg_disk := d,
                               mg_downloaded := u64 (mg_downloaded m + piece_length i m),
                               mg_completed := u32 (mg_completed m + 1)\<rparr>))"

definition is_complete :: "piece_manager \<Rightarrow> bool" where
  "is_complete m = (mg_completed m = mg_num_pieces m)"

definition have_piece :: "nat \<Rightarrow> piece_manager \<Rightarrow> bool" where
  "have_piece i m = (if mg_num_pieces m \<le> i then False else mg_have m ! i)"

definition current_bitfield :: "piece_manager \<Rightarrow> bool list" where
  "current_bitfield m = map (\<lambda>i. mg_have m ! i) [0..<mg_num_pieces m]"

definition read_block :: "nat \<Rightarrow> nat \<Rightarrow> nat \<Rightarrow> piece_manager \<Rightarrow> manager_error + bytes" where
  "read_block index begin_at len m =
     (if \<not> have_piece index m then Inl PieceNotAvailable
      else let plen = piece_length index m
           in if plen < begin_at \<or> plen - begin_at < len then Inl BlockOutOfBounds
              else case read_piece (mg_writer m) index (mg_disk m) of
                  Inl e \<Rightarrow> Inl (DiskError e)
                | Inr piece \<Rightarrow> Inr (take len (drop begin_at piece)))"

definition abort_piece :: "nat \<Rightarrow> piece_manager \<Rightarrow> piece_manager" where
  "abort_piece i m =
     (if mg_num_pieces m \<le> i then m
      else if \<not> mg_have m ! i then m\<lparr>mg_claimed := (mg_claimed m)[i := False]\<rparr>
      else m)"

subsection \<open>Invariant\<close>

text \<open>
  The torrent's geometry: the manager and the disk agree on piece size, total
  size and number of pieces, and the files have their final lengths. Every held
  piece is on disk with its hash, except those in \<open>lost\<close>, whose write failed.
\<close>

definition geometry :: "piece_manager \<Rightarrow> bool" where
  "geometry m = (files_ok (mg_writer m) (mg_disk m) \<and>
     mg_nominal m = dw_piece_size (mg_writer m) \<and> mg_total_length m = dw_total_size (mg_writer m) \<and>
     0 < mg_num_pieces m \<and> mg_num_pieces m < 2 ^ 32 \<and>
     (mg_num_pieces m - 1) * dw_piece_size (mg_writer m) < dw_total_size (mg_writer m) \<and>
     dw_total_size (mg_writer m) \<le> mg_num_pieces m * dw_piece_size (mg_writer m) \<and>
     length (mg_hashes m) = mg_num_pieces m \<and> length (mg_have m) = mg_num_pieces m \<and>
     length (mg_claimed m) = mg_num_pieces m)"

definition verified :: "(bytes \<Rightarrow> bytes) \<Rightarrow> piece_manager \<Rightarrow> nat \<Rightarrow> bool" where
  "verified sha1 m i = (sha1 (slot (mg_writer m) (mg_disk m) i) = mg_hashes m ! i)"

definition held :: "piece_manager \<Rightarrow> nat set" where
  "held m = {i. i < mg_num_pieces m \<and> mg_have m ! i}"

definition mg_inv :: "(bytes \<Rightarrow> bytes) \<Rightarrow> nat set \<Rightarrow> piece_manager \<Rightarrow> bool" where
  "mg_inv sha1 lost m = (geometry m \<and> lost \<subseteq> held m \<and>
     (\<forall>i\<in>held m - lost. verified sha1 m i) \<and> mg_completed m = card (held m - lost))"

lemma finite_held [simp]: "finite (held m)"
  by (simp add: held_def)

lemma geometry_range: "geometry m \<Longrightarrow> i < mg_num_pieces m \<Longrightarrow> in_range (mg_writer m) i"
  unfolding geometry_def in_range_def
  by (metis less_eq_Suc_le Suc_diff_1 Suc_le_mono mult_le_mono1 le_less_trans)

text \<open>The manager's length of a piece, computed in 32 bits, is its length on disk.\<close>

lemma piece_length_eq:
  assumes "geometry m" "i < mg_num_pieces m"
  shows "piece_length i m = piece_bytes (mg_writer m) i"
proof -
  let ?n = "mg_num_pieces m" and ?s = "mg_nominal m" and ?t = "mg_total_length m"
  have g: "?s = dw_piece_size (mg_writer m)" "?t = dw_total_size (mg_writer m)" "?n < 2 ^ 32"
    "(?n - 1) * ?s < ?t" "?t \<le> ?n * ?s" "?s < 2 ^ 32" "?t + ?s < 2 ^ 64"
    using assms(1) by (auto simp: geometry_def files_ok_def dw_ok_def)
  have i: "u32 (Suc i) = Suc i" using assms(2) g(3) by (simp add: u32_id)
  show ?thesis
  proof (cases "i + 1 < ?n")
    case True
    then have "(i + 1) * ?s \<le> (?n - 1) * ?s" by (intro mult_le_mono1) simp
    with True g show ?thesis by (simp add: piece_length_def i piece_bytes_def)
  next
    case False
    with assms(2) have n: "i = ?n - 1" "1 \<le> ?n" by simp_all
    have "?n * ?s = (?n - 1) * ?s + ?s" using n(2) by (cases ?n) simp_all
    then have r: "?t - i * ?s \<le> ?s" using g(5) n(1) by simp
    have "u64 (?s * u32_sub ?n 1) = i * ?s"
      using g(3,4,7) n by (simp add: u32_sub_id u64_id mult.commute)
    moreover have "u64_sub ?t (i * ?s) = ?t - i * ?s" using g(4,7) n(1) by (simp add: u64_sub_id)
    ultimately show ?thesis using False i r g by (simp add: piece_length_def piece_bytes_def u32_id)
  qed
qed

lemma length_slot:
  assumes "geometry m" "i < mg_num_pieces m"
  shows "length (slot (mg_writer m) (mg_disk m) i) = piece_length i m"
proof -
  have f: "files_ok (mg_writer m) (mg_disk m)" using assms(1) by (simp add: geometry_def)
  then have "dw_ok (mg_writer m)" by (simp add: files_ok_def)
  from piece_geometry(3) [OF this geometry_range [OF assms]] show ?thesis
    by (simp add: slot_def length_image_files [OF f] piece_length_eq [OF assms])
qed

subsection \<open>Operations keep the invariant\<close>

lemma claim_loop_Some: "claim_loop bf is m = Some i \<Longrightarrow> i \<in> set is \<and> peer_offers bf i \<and> \<not> mg_have m ! i \<and> \<not> mg_claimed m ! i"
  by (induction bf "is" m rule: claim_loop.induct) (auto split: if_splits)

lemma claim_loop_None:
  "claim_loop bf is m = None \<longleftrightarrow> (\<forall>i\<in>set is. peer_offers bf i \<longrightarrow> mg_have m ! i \<or> mg_claimed m ! i)"
  by (induction bf "is" m rule: claim_loop.induct) auto

lemma claim_loop_first:
  "claim_loop bf [k..<n] m = Some i \<Longrightarrow> k \<le> j \<Longrightarrow> j < i \<Longrightarrow> peer_offers bf j \<Longrightarrow> mg_have m ! j \<or> mg_claimed m ! j"
proof (induction "n - k" arbitrary: k)
  case 0
  then show ?case by simp
next
  case (Suc d)
  then have e: "[k..<n] = k # [Suc k..<n]" by (simp add: upt_conv_Cons)
  show ?case
  proof (cases "j = k")
    case True
    with Suc.prems e show ?thesis by (auto split: if_splits)
  next
    case False
    then have "claim_loop bf [Suc k..<n] m = Some i" using Suc.prems e by (auto split: if_splits)
    with Suc.hyps(1) [of "Suc k"] Suc.hyps(2) Suc.prems False show ?thesis by simp
  qed
qed

lemma endgame_loop_Some: "endgame_loop bf is m = Some i \<Longrightarrow> i \<in> set is \<and> peer_offers bf i \<and> \<not> mg_have m ! i"
  by (induction bf "is" m rule: endgame_loop.induct) (auto split: if_splits)

lemma endgame_loop_None: "endgame_loop bf is m = None \<longleftrightarrow> (\<forall>i\<in>set is. peer_offers bf i \<longrightarrow> mg_have m ! i)"
  by (induction bf "is" m rule: endgame_loop.induct) auto

lemma mg_inv_claimed: "mg_inv sha1 lost m \<Longrightarrow> mg_inv sha1 lost (m\<lparr>mg_claimed := (mg_claimed m)[i := b]\<rparr>)"
  by (simp add: mg_inv_def geometry_def verified_def held_def)

lemma next_needed_inv: "mg_inv sha1 lost m \<Longrightarrow> mg_inv sha1 lost (snd (next_needed bf m))"
  by (auto simp: next_needed_def mg_inv_claimed split: option.splits)

lemma abort_piece_inv: "mg_inv sha1 lost m \<Longrightarrow> mg_inv sha1 lost (abort_piece i m)"
  by (simp add: abort_piece_def mg_inv_claimed)

lemma held_insert: "i < mg_num_pieces m \<Longrightarrow> length (mg_have m) = mg_num_pieces m \<Longrightarrow>
    held (m\<lparr>mg_have := (mg_have m)[i := True]\<rparr>) = insert i (held m)"
  by (auto simp: held_def nth_list_update)

text \<open>The state after a write has returned, before and after the flag is counted in.\<close>

lemma disk_piece:
  assumes "geometry m" "i < mg_num_pieces m" "write_piece (mg_writer m) i data (mg_disk m) = (e, d)"
  shows "geometry (m\<lparr>mg_disk := d\<rparr>)" "held (m\<lparr>mg_disk := d\<rparr>) = held m"
    "j < mg_num_pieces m \<Longrightarrow> j \<noteq> i \<Longrightarrow> verified sha1 (m\<lparr>mg_disk := d\<rparr>) j = verified sha1 m j"
    "e = None \<Longrightarrow> sha1 data = mg_hashes m ! i \<Longrightarrow> verified sha1 (m\<lparr>mg_disk := d\<rparr>) i"
proof -
  have f: "files_ok (mg_writer m) (mg_disk m)" using assms(1) by (simp add: geometry_def)
  note slot = slot_write [OF f geometry_range [OF assms(1,2)] assms(3)]
  show "geometry (m\<lparr>mg_disk := d\<rparr>)" using assms(1) slot(1) by (simp add: geometry_def)
  show "held (m\<lparr>mg_disk := d\<rparr>) = held m" by (simp add: held_def)
  show "verified sha1 (m\<lparr>mg_disk := d\<rparr>) j = verified sha1 m j" if "j < mg_num_pieces m" "j \<noteq> i"
    using slot(3) [OF geometry_range [OF assms(1) that(1)] that(2)] by (simp add: verified_def)
  show "verified sha1 (m\<lparr>mg_disk := d\<rparr>) i" if "e = None" "sha1 data = mg_hashes m ! i"
    using slot(2) that by (simp add: verified_def)
qed

lemma store_piece:
  assumes "geometry m" "i < mg_num_pieces m" "write_piece (mg_writer m) i data (mg_disk m) = (e, d)"
  defines "m' \<equiv> m\<lparr>mg_have := (mg_have m)[i := True], mg_disk := d\<rparr>"
  shows "geometry m'" "held m' = insert i (held m)"
    "j < mg_num_pieces m \<Longrightarrow> j \<noteq> i \<Longrightarrow> verified sha1 m' j = verified sha1 m j"
    "e = None \<Longrightarrow> sha1 data = mg_hashes m ! i \<Longrightarrow> verified sha1 m' i"
proof -
  note disk = disk_piece [OF assms(1-3)]
  have eq: "verified sha1 m' = verified sha1 (m\<lparr>mg_disk := d\<rparr>)" for sha1
    by (simp add: m'_def verified_def fun_eq_iff)
  show "geometry m'" using disk(1) by (simp add: geometry_def m'_def)
  show "held m' = insert i (held m)"
    using assms(1,2) by (auto simp: held_def m'_def geometry_def nth_list_update)
  show "verified sha1 m' j = verified sha1 m j" if "j < mg_num_pieces m" "j \<noteq> i"
    using disk(3) [OF that] by (simp add: eq)
  show "verified sha1 m' i" if "e = None" "sha1 data = mg_hashes m ! i"
    using disk(4) [of sha1] that by (simp add: eq)
qed

lemma complete_piece_inv:
  assumes "mg_inv sha1 lost m" "complete_piece sha1 i data m = (r, m')"
  shows "\<exists>lost'. mg_inv sha1 lost' m' \<and> (lost' = lost \<or> (\<exists>e. r = Inl (DiskError e)) \<and> lost' = insert i lost)"
proof -
  have g: "geometry m" using assms(1) by (simp add: mg_inv_def)
  obtain we wd where w: "write_piece (mg_writer m) i data (mg_disk m) = (we, wd)" by fastforce
  consider "m' = m" | "m' = m\<lparr>mg_hash_failures := u64 (mg_hash_failures m + 1)\<rparr>"
    | e d where "i < mg_num_pieces m" "\<not> mg_have m ! i" "sha1 data = mg_hashes m ! i"
        "write_piece (mg_writer m) i data (mg_disk m) = (Some e, d)" "r = Inl (DiskError e)"
        "m' = m\<lparr>mg_have := (mg_have m)[i := True], mg_disk := d\<rparr>"
    | d where "i < mg_num_pieces m" "\<not> mg_have m ! i" "sha1 data = mg_hashes m ! i"
        "write_piece (mg_writer m) i data (mg_disk m) = (None, d)" "r = Inr True"
        "m' = m\<lparr>mg_have := (mg_have m)[i := True], mg_disk := d,
           mg_downloaded := u64 (mg_downloaded m + piece_length i m), mg_completed := u32 (mg_completed m + 1)\<rparr>"
    using assms(2) w
    by (cases we) (auto simp: complete_piece_def Let_def piece_length_def split: if_splits)
  then show ?thesis
  proof cases
    case 1
    then show ?thesis using assms(1) by auto
  next
    case 2
    then have "mg_inv sha1 lost m'" using assms(1) by (simp add: mg_inv_def geometry_def verified_def held_def)
    then show ?thesis by blast
  next
    case 3
    note st = store_piece [OF g 3(1) 3(4)]
    have "i \<notin> held m" using 3(2) by (simp add: held_def)
    then have eq: "held m' - insert i lost = held m - lost" using st(2) 3(6) assms(1) by (auto simp: mg_inv_def)
    have "verified sha1 m' j" if "j \<in> held m - lost" for j
    proof -
      have "j < mg_num_pieces m" "j \<noteq> i" "verified sha1 m j"
        using that \<open>i \<notin> held m\<close> assms(1) by (auto simp: held_def mg_inv_def)
      then show ?thesis using st(3) 3(6) by simp
    qed
    then have "mg_inv sha1 (insert i lost) m'"
      using st(1,2) assms(1) 3(6) unfolding mg_inv_def eq by auto
    then show ?thesis using 3(5) by blast
  next
    case 4
    let ?m1 = "m\<lparr>mg_have := (mg_have m)[i := True], mg_disk := d\<rparr>"
    note st = store_piece [OF g 4(1) 4(4)]
    have new: "i \<notin> held m" "i \<notin> lost" using 4(2) assms(1) by (auto simp: held_def mg_inv_def)
    have m': "geometry m' = geometry ?m1" "held m' = held ?m1" "verified sha1 m' = verified sha1 ?m1"
      "mg_completed m' = u32 (mg_completed m + 1)"
      by (simp_all add: 4(6) geometry_def held_def verified_def fun_eq_iff)
    have eq: "held m' - lost = insert i (held m - lost)" using m'(2) st(2) new by auto
    have "card (insert i (held m - lost)) = mg_completed m + 1" using assms(1) new by (simp add: mg_inv_def)
    moreover have "card (insert i (held m - lost)) \<le> card {..<mg_num_pieces m}"
      by (rule card_mono) (use 4(1) in \<open>auto simp: held_def\<close>)
    ultimately have "mg_completed m' = card (held m' - lost)"
      using g m'(4) eq by (simp add: geometry_def u32_id)
    moreover have "verified sha1 m' j" if "j \<in> held m' - lost" for j
    proof (cases "j = i")
      case True
      then show ?thesis using st(4) [of sha1] 4(3) m'(3) by simp
    next
      case False
      then have "j < mg_num_pieces m" "verified sha1 m j" using that assms(1) unfolding eq by (auto simp: held_def mg_inv_def)
      then show ?thesis using st(3) [of j sha1] False m'(3) by simp
    qed
    ultimately have "mg_inv sha1 lost m'" using st(1,2) assms(1) m' by (auto simp: mg_inv_def)
    then show ?thesis by blast
  qed
qed

lemma held_readable:
  assumes "mg_inv sha1 lost m" "i \<in> held m - lost" "\<forall>f\<in>set (dw_files (mg_writer m)). healthy (mg_writer m) (mg_disk m) f"
  shows "read_piece (mg_writer m) i (mg_disk m) = Inr (slot (mg_writer m) (mg_disk m) i) \<and>
    sha1 (slot (mg_writer m) (mg_disk m) i) = mg_hashes m ! i"
proof -
  have "disk_ok (mg_writer m) (mg_disk m)" "geometry m" "i < mg_num_pieces m" "verified sha1 m i"
    using assms by (auto simp: mg_inv_def geometry_def files_ok_def disk_ok_def held_def)
  then show ?thesis using read_piece_image geometry_range by (auto simp: verified_def)
qed

subsection \<open>Interleaved peer threads\<close>

text \<open>
  Where a peer thread is between two atomic operations on the shared manager:
  it has picked a piece, with or without the exclusive claim; it has checked
  the hash of the data it assembled; it has won the compare-exchange on
  \<^verbatim>\<open>m_have\<close> and is writing; it has written and updates the counters; it
  is inside \<^verbatim>\<open>abort_piece\<close> before its load or before its store.
\<close>

datatype worker =
    Idle
  | Picked nat bool
  | Checked nat bool bytes
  | Writing nat bool bytes
  | Written nat
  | Counting nat
  | Aborting nat
  | Releasing nat

record pm_system =
  sy_mg :: piece_manager
  sy_workers :: "nat \<Rightarrow> worker"
  sy_lost :: "nat set"

definition put_worker :: "nat \<Rightarrow> worker \<Rightarrow> pm_system \<Rightarrow> pm_system" where
  "put_worker t w s = s\<lparr>sy_workers := (sy_workers s)(t := w)\<rparr>"

definition put_mg :: "piece_manager \<Rightarrow> pm_system \<Rightarrow> pm_system" where
  "put_mg m s = s\<lparr>sy_mg := m\<rparr>"

definition give_up :: "nat \<Rightarrow> bool \<Rightarrow> worker" where
  "give_up i exclusive = (if exclusive then Aborting i else Idle)"

text \<open>
  A load that a thread made earlier may be stale, so a step that depends on
  such a load has no guard on the current value; the compare-exchange steps and
  the loads that are themselves the step have one.
\<close>

inductive pm_step :: "(bytes \<Rightarrow> bytes) \<Rightarrow> pm_system \<Rightarrow> pm_system \<Rightarrow> bool" for sha1 where
  claim: "pm_step sha1 s (put_worker t (Picked i True) (put_mg (m\<lparr>mg_claimed := (mg_claimed m)[i := True]\<rparr>) s))"
    if "sy_workers s t = Idle" "m = sy_mg s" "i < mg_num_pieces m" "\<not> mg_claimed m ! i"
| endgame: "pm_step sha1 s (put_worker t (Picked i False) s)"
    if "sy_workers s t = Idle" "i < mg_num_pieces (sy_mg s)"
| already_have: "pm_step sha1 s (put_worker t Idle s)"
    if "sy_workers s t = Picked i x" "mg_have (sy_mg s) ! i"
| drop_piece: "pm_step sha1 s (put_worker t (give_up i x) s)"
    if "sy_workers s t = Picked i x"
| hash_ok: "pm_step sha1 s (put_worker t (Checked i x data) s)"
    if "sy_workers s t = Picked i x" "sha1 data = mg_hashes (sy_mg s) ! i"
| hash_bad: "pm_step sha1 s (put_worker t (give_up i x) (put_mg (m\<lparr>mg_hash_failures := u64 (mg_hash_failures m + 1)\<rparr>) s))"
    if "sy_workers s t = Picked i x" "m = sy_mg s" "sha1 data \<noteq> mg_hashes m ! i"
| cas_lose: "pm_step sha1 s (put_worker t Idle s)"
    if "sy_workers s t = Checked i x data" "mg_have (sy_mg s) ! i"
| cas_win: "pm_step sha1 s (put_worker t (Writing i x data) (put_mg (m\<lparr>mg_have := (mg_have m)[i := True]\<rparr>) s))"
    if "sy_workers s t = Checked i x data" "m = sy_mg s" "\<not> mg_have m ! i"
| write_ok: "pm_step sha1 s (put_worker t (Written i) (put_mg (m\<lparr>mg_disk := d\<rparr>) s))"
    if "sy_workers s t = Writing i x data" "m = sy_mg s" "write_piece (mg_writer m) i data (mg_disk m) = (None, d)"
| write_throws: "pm_step sha1 s (put_worker t (give_up i x) (put_mg (m\<lparr>mg_disk := d\<rparr>) (s\<lparr>sy_lost := insert i (sy_lost s)\<rparr>)))"
    if "sy_workers s t = Writing i x data" "m = sy_mg s" "write_piece (mg_writer m) i data (mg_disk m) = (Some e, d)"
| add_bytes: "pm_step sha1 s (put_worker t (Counting i) (put_mg (m\<lparr>mg_downloaded := u64 (mg_downloaded m + piece_length i m)\<rparr>) s))"
    if "sy_workers s t = Written i" "m = sy_mg s"
| add_piece: "pm_step sha1 s (put_worker t Idle (put_mg (m\<lparr>mg_completed := u32 (mg_completed m + 1)\<rparr>) s))"
    if "sy_workers s t = Counting i" "m = sy_mg s"
| abort_held: "pm_step sha1 s (put_worker t Idle s)"
    if "sy_workers s t = Aborting i" "mg_have (sy_mg s) ! i"
| abort_load: "pm_step sha1 s (put_worker t (Releasing i) s)"
    if "sy_workers s t = Aborting i" "\<not> mg_have (sy_mg s) ! i"
| abort_store: "pm_step sha1 s (put_worker t Idle (put_mg (m\<lparr>mg_claimed := (mg_claimed m)[i := False]\<rparr>) s))"
    if "sy_workers s t = Releasing i" "m = sy_mg s"
| disk_fault: "pm_step sha1 s (put_mg (m\<lparr>mg_disk := (mg_disk m)\<lparr>dk_openable := p, dk_writable := q\<rparr>\<rparr>) s)"
    if "m = sy_mg s"

inductive pm_reach :: "(bytes \<Rightarrow> bytes) \<Rightarrow> piece_manager \<Rightarrow> pm_system \<Rightarrow> bool" for sha1 m where
  start: "pm_reach sha1 m \<lparr>sy_mg = m, sy_workers = (\<lambda>t. Idle), sy_lost = {}\<rparr>"
| step: "pm_reach sha1 m s \<Longrightarrow> pm_step sha1 s s' \<Longrightarrow> pm_reach sha1 m s'"

fun own_of :: "worker \<Rightarrow> nat option" where
  "own_of (Picked i True) = Some i"
| "own_of (Checked i True data) = Some i"
| "own_of (Writing i True data) = Some i"
| "own_of (Aborting i) = Some i"
| "own_of (Releasing i) = Some i"
| "own_of _ = None"

fun wr_of :: "worker \<Rightarrow> nat option" where
  "wr_of (Writing i x data) = Some i"
| "wr_of (Written i) = Some i"
| "wr_of (Counting i) = Some i"
| "wr_of _ = None"

fun worker_ok :: "(bytes \<Rightarrow> bytes) \<Rightarrow> piece_manager \<Rightarrow> worker \<Rightarrow> bool" where
  "worker_ok sha1 m Idle = True"
| "worker_ok sha1 m (Checked i x data) = (i < mg_num_pieces m \<and> sha1 data = mg_hashes m ! i)"
| "worker_ok sha1 m (Writing i x data) = (i < mg_num_pieces m \<and> sha1 data = mg_hashes m ! i)"
| "worker_ok sha1 m (Picked i x) = (i < mg_num_pieces m)"
| "worker_ok sha1 m (Written i) = (i < mg_num_pieces m)"
| "worker_ok sha1 m (Counting i) = (i < mg_num_pieces m)"
| "worker_ok sha1 m (Aborting i) = (i < mg_num_pieces m)"
| "worker_ok sha1 m (Releasing i) = (i < mg_num_pieces m)"

definition settled :: "pm_system \<Rightarrow> nat set" where
  "settled s = {i \<in> held (sy_mg s) - sy_lost s. \<forall>t. wr_of (sy_workers s t) \<noteq> Some i}"

definition sys_inv :: "(bytes \<Rightarrow> bytes) \<Rightarrow> pm_system \<Rightarrow> bool" where
  "sys_inv sha1 s = (geometry (sy_mg s) \<and> sy_lost s \<subseteq> held (sy_mg s) \<and>
     (\<forall>t i. own_of (sy_workers s t) = Some i \<longrightarrow> mg_claimed (sy_mg s) ! i) \<and>
     (\<forall>t t' i. own_of (sy_workers s t) = Some i \<longrightarrow> own_of (sy_workers s t') = Some i \<longrightarrow> t = t') \<and>
     (\<forall>t i. wr_of (sy_workers s t) = Some i \<longrightarrow> i \<in> held (sy_mg s) - sy_lost s) \<and>
     (\<forall>t t' i. wr_of (sy_workers s t) = Some i \<longrightarrow> wr_of (sy_workers s t') = Some i \<longrightarrow> t = t') \<and>
     (\<forall>t. worker_ok sha1 (sy_mg s) (sy_workers s t)) \<and>
     (\<forall>i\<in>held (sy_mg s) - sy_lost s. verified sha1 (sy_mg s) i \<or> (\<exists>t x data. sy_workers s t = Writing i x data)) \<and>
     mg_completed (sy_mg s) = card (settled s))"

lemma sys_invD:
  assumes "sys_inv sha1 s"
  shows "geometry (sy_mg s)" "sy_lost s \<subseteq> held (sy_mg s)"
    "own_of (sy_workers s t) = Some i \<Longrightarrow> mg_claimed (sy_mg s) ! i"
    "own_of (sy_workers s t) = Some i \<Longrightarrow> own_of (sy_workers s t') = Some i \<Longrightarrow> t = t'"
    "wr_of (sy_workers s t) = Some i \<Longrightarrow> i \<in> held (sy_mg s) - sy_lost s"
    "wr_of (sy_workers s t) = Some i \<Longrightarrow> wr_of (sy_workers s t') = Some i \<Longrightarrow> t = t'"
    "worker_ok sha1 (sy_mg s) (sy_workers s t)"
    "i \<in> held (sy_mg s) - sy_lost s \<Longrightarrow> verified sha1 (sy_mg s) i \<or> (\<exists>t x data. sy_workers s t = Writing i x data)"
    "mg_completed (sy_mg s) = card (settled s)"
  using assms unfolding sys_inv_def by blast+

lemma sys_invI:
  assumes "geometry (sy_mg s)" "sy_lost s \<subseteq> held (sy_mg s)"
    "\<And>t i. own_of (sy_workers s t) = Some i \<Longrightarrow> mg_claimed (sy_mg s) ! i"
    "\<And>t t' i. own_of (sy_workers s t) = Some i \<Longrightarrow> own_of (sy_workers s t') = Some i \<Longrightarrow> t = t'"
    "\<And>t i. wr_of (sy_workers s t) = Some i \<Longrightarrow> i \<in> held (sy_mg s) - sy_lost s"
    "\<And>t t' i. wr_of (sy_workers s t) = Some i \<Longrightarrow> wr_of (sy_workers s t') = Some i \<Longrightarrow> t = t'"
    "\<And>t. worker_ok sha1 (sy_mg s) (sy_workers s t)"
    "\<And>i. i \<in> held (sy_mg s) - sy_lost s \<Longrightarrow> verified sha1 (sy_mg s) i \<or> (\<exists>t x data. sy_workers s t = Writing i x data)"
    "mg_completed (sy_mg s) = card (settled s)"
  shows "sys_inv sha1 s"
  using assms unfolding sys_inv_def by blast

lemma put_simps [simp]:
  "sy_mg (put_worker t w s) = sy_mg s" "sy_lost (put_worker t w s) = sy_lost s"
  "sy_workers (put_worker t w s) = (sy_workers s)(t := w)"
  "sy_mg (put_mg m s) = m" "sy_lost (put_mg m s) = sy_lost s" "sy_workers (put_mg m s) = sy_workers s"
  by (simp_all add: put_worker_def put_mg_def)

lemma own_give_up: "own_of (give_up i x) = (if x then Some i else None)" "wr_of (give_up i x) = None"
  "i < mg_num_pieces m \<Longrightarrow> worker_ok sha1 m (give_up i x)"
  by (simp_all add: give_up_def)

text \<open>A thread moves on without touching what it owns or writes.\<close>

lemma sys_inv_move:
  assumes "sys_inv sha1 s" "own_of w = None \<or> own_of w = own_of (sy_workers s t)"
    "wr_of w = wr_of (sy_workers s t)" "\<forall>i x data. sy_workers s t \<noteq> Writing i x data"
    "worker_ok sha1 (sy_mg s) w"
  shows "sys_inv sha1 (put_worker t w s)"
proof -
  note inv = sys_invD [OF assms(1)]
  define ws where "ws = (sy_workers s)(t := w)"
  have own: "own_of (sy_workers s t') = Some i" if "own_of (ws t') = Some i" for t' i
    using that assms(2) by (auto simp: ws_def split: if_splits)
  have wr: "wr_of (ws t') = wr_of (sy_workers s t')" for t' using assms(3) by (simp add: ws_def)
  have writing: "ws t' = Writing i x data" if "sy_workers s t' = Writing i x data" for t' i x data
    using that assms(4) by (auto simp: ws_def)
  have st: "settled (put_worker t w s) = settled s" by (simp add: settled_def ws_def [symmetric] wr del: fun_upd_apply)
  have ok: "worker_ok sha1 (sy_mg s) (ws t')" for t' using assms(5) inv(7) by (simp add: ws_def)
  show ?thesis
    by (intro sys_invI; unfold put_simps ws_def [symmetric]; (use inv own wr writing st ok in \<open>metis | simp\<close>))
qed

text \<open>Changes of the manager that the invariant does not see.\<close>

lemma sys_inv_mg:
  assumes "sys_inv sha1 s" "geometry m" "held m = held (sy_mg s)"
    "\<And>t i. own_of (sy_workers s t) = Some i \<Longrightarrow> mg_claimed m ! i"
    "mg_num_pieces m = mg_num_pieces (sy_mg s)" "mg_hashes m = mg_hashes (sy_mg s)"
    "\<And>i. verified sha1 m i = verified sha1 (sy_mg s) i" "mg_completed m = mg_completed (sy_mg s)"
  shows "sys_inv sha1 (put_mg m s)"
proof -
  note inv = sys_invD [OF assms(1)]
  have st: "settled (put_mg m s) = settled s" by (simp add: settled_def assms(3))
  have ok: "worker_ok sha1 m w = worker_ok sha1 (sy_mg s) w" for w by (cases w) (simp_all add: assms(5,6))
  show ?thesis
    by (intro sys_invI; unfold put_simps assms(3,7,8); (use inv assms(2,4) st ok in \<open>metis | simp\<close>))
qed

lemma put_commute: "put_worker t w (put_mg m s) = put_mg m (put_worker t w s)"
  by (simp add: put_worker_def put_mg_def)

lemma sys_inv_claim:
  assumes "sys_inv sha1 s" "sy_workers s t = Idle" "i < mg_num_pieces (sy_mg s)" "mg_claimed (sy_mg s) ! i"
    "\<And>t'. own_of (sy_workers s t') \<noteq> Some i"
  shows "sys_inv sha1 (put_worker t (Picked i True) s)"
proof -
  note inv = sys_invD [OF assms(1)]
  define ws where "ws = (sy_workers s)(t := Picked i True)"
  have own: "own_of (ws t') = (if t' = t then Some i else own_of (sy_workers s t'))" for t' by (simp add: ws_def)
  have wr: "wr_of (ws t') = wr_of (sy_workers s t')" for t' using assms(2) by (simp add: ws_def)
  have writing: "ws t' = Writing j x data" if "sy_workers s t' = Writing j x data" for t' j x data
    using that assms(2) by (auto simp: ws_def)
  have st: "settled (put_worker t (Picked i True) s) = settled s"
    by (simp add: settled_def ws_def [symmetric] wr del: fun_upd_apply)
  have ok: "worker_ok sha1 (sy_mg s) (ws t')" for t' using assms(3) inv(7) by (simp add: ws_def)
  show ?thesis
    by (intro sys_invI; unfold put_simps ws_def [symmetric];
        (use inv own wr writing st ok assms(4,5) in \<open>metis option.inject | simp\<close>))
qed

lemma sys_inv_cas_win:
  assumes "sys_inv sha1 s" "sy_workers s t = Checked i x data" "\<not> mg_have (sy_mg s) ! i"
  defines "m \<equiv> (sy_mg s)\<lparr>mg_have := (mg_have (sy_mg s))[i := True]\<rparr>"
  shows "sys_inv sha1 (put_worker t (Writing i x data) (put_mg m s))"
proof -
  note inv = sys_invD [OF assms(1)]
  define ws where "ws = (sy_workers s)(t := Writing i x data)"
  have i: "i < mg_num_pieces (sy_mg s)" "sha1 data = mg_hashes (sy_mg s) ! i" using inv(7) [of t] assms(2) by simp_all
  have new: "i \<notin> held (sy_mg s)" "i \<notin> sy_lost s" using assms(3) inv(2) by (auto simp: held_def)
  have held: "held m = insert i (held (sy_mg s))"
    unfolding m_def by (rule held_insert) (use i inv(1) in \<open>simp_all add: geometry_def\<close>)
  have g: "geometry m" using inv(1) by (simp add: geometry_def m_def)
  have ver: "verified sha1 m = verified sha1 (sy_mg s)" by (simp add: verified_def m_def fun_eq_iff)
  have own: "own_of (ws t') = own_of (sy_workers s t')" for t' using assms(2) by (cases x) (simp_all add: ws_def)
  have wr: "wr_of (ws t') = (if t' = t then Some i else wr_of (sy_workers s t'))" for t' by (simp add: ws_def)
  have old: "wr_of (sy_workers s t') \<noteq> Some i" for t' using inv(5) new by blast
  have writing: "ws t' = Writing j y dt" if "sy_workers s t' = Writing j y dt" for t' j y dt
    using that assms(2) by (auto simp: ws_def)
  have wt: "ws t = Writing i x data" by (simp add: ws_def)
  have ok: "worker_ok sha1 m (ws t')" for t'
  proof -
    have "worker_ok sha1 m w = worker_ok sha1 (sy_mg s) w" for w by (cases w) (simp_all add: m_def)
    then show ?thesis using inv(7) [of t'] i by (simp add: ws_def)
  qed
  have st: "settled (put_worker t (Writing i x data) (put_mg m s)) = settled s"
    using new old assms(2) unfolding settled_def put_simps held ws_def [symmetric] wr by auto
  have c: "mg_completed m = mg_completed (sy_mg s)" "mg_claimed m = mg_claimed (sy_mg s)" by (simp_all add: m_def)
  show ?thesis
  proof (intro sys_invI; unfold put_simps ws_def [symmetric] held ver c)
    show "sy_lost s \<subseteq> insert i (held (sy_mg s))" using inv(2) by auto
    show "j \<in> insert i (held (sy_mg s)) - sy_lost s" if "wr_of (ws t') = Some j" for t' j
      using that inv(5) new wr by (cases "t' = t") auto
    show "t1 = t2" if "wr_of (ws t1) = Some j" "wr_of (ws t2) = Some j" for t1 t2 j
      using that wr old inv(6) by (metis option.inject)
    show "verified sha1 (sy_mg s) j \<or> (\<exists>t x data. ws t = Writing j x data)"
      if "j \<in> insert i (held (sy_mg s)) - sy_lost s" for j
      using that inv(8) writing wt by blast
  qed (use inv g own ok st in \<open>metis | simp\<close>)+
qed

text \<open>A write returns: the piece is on disk, or it is lost.\<close>

lemma unsettled_writer: "wr_of (sy_workers s t) = Some i \<Longrightarrow> i \<notin> settled s"
  by (auto simp: settled_def)

lemma writer_leaves:
  assumes "wr_of (sy_workers s t) = Some i" "wr_of w = None" "j \<noteq> i"
  shows "(\<forall>t'. wr_of (((sy_workers s)(t := w)) t') \<noteq> Some j) \<longleftrightarrow> (\<forall>t'. wr_of (sy_workers s t') \<noteq> Some j)"
  using assms by (metis fun_upd_apply option.distinct(1) option.inject)

lemma sys_inv_write:
  assumes "sys_inv sha1 s" "sy_workers s t = Writing i x data"
    "write_piece (mg_writer (sy_mg s)) i data (mg_disk (sy_mg s)) = (e, d)"
  defines "m \<equiv> (sy_mg s)\<lparr>mg_disk := d\<rparr>"
  shows "e = None \<Longrightarrow> sys_inv sha1 (put_worker t (Written i) (put_mg m s))"
    "e \<noteq> None \<Longrightarrow> sys_inv sha1 (put_worker t (give_up i x) (put_mg m (s\<lparr>sy_lost := insert i (sy_lost s)\<rparr>)))"
proof -
  note inv = sys_invD [OF assms(1)]
  have i: "i < mg_num_pieces (sy_mg s)" "sha1 data = mg_hashes (sy_mg s) ! i" using inv(7) [of t] assms(2) by simp_all
  note disk = disk_piece [OF inv(1) i(1) assms(3), folded m_def]
  have c: "mg_completed m = mg_completed (sy_mg s)" "mg_claimed m = mg_claimed (sy_mg s)" by (simp_all add: m_def)
  have okm: "worker_ok sha1 m w = worker_ok sha1 (sy_mg s) w" for w by (cases w) (simp_all add: m_def)
  have only: "j = i \<or> (\<exists>t' x data. t' \<noteq> t \<and> sy_workers s t' = Writing j x data)"
    if "sy_workers s t' = Writing j x data" for t' j x data
    using that assms(2) by (cases "t' = t") auto
  have ver: "verified sha1 m j \<or> (\<exists>t' x data. t' \<noteq> t \<and> sy_workers s t' = Writing j x data)"
    if "j \<in> held (sy_mg s) - sy_lost s" "j \<noteq> i" for j
  proof -
    have "j < mg_num_pieces (sy_mg s)" using that(1) by (simp add: held_def)
    then show ?thesis using inv(8) [OF that(1)] disk(3) [of j sha1] only that(2) by blast
  qed
  have hl: "i \<in> held (sy_mg s) - sy_lost s" using inv(5) [of t i] assms(2) by simp
  {
    assume "e = None"
    then have vi: "verified sha1 m i" using disk(4) i(2) by blast
    define ws where "ws = (sy_workers s)(t := Written i)"
    have own: "own_of (sy_workers s t') = Some j" if "own_of (ws t') = Some j" for t' j
      using that by (auto simp: ws_def split: if_splits)
    have wr: "wr_of (ws t') = wr_of (sy_workers s t')" for t' using assms(2) by (simp add: ws_def)
    have writing: "ws t' = Writing j y dt" if "sy_workers s t' = Writing j y dt" "t' \<noteq> t" for t' j y dt
      using that by (simp add: ws_def)
    have ok: "worker_ok sha1 m (ws t')" for t' using inv(7) [of t'] i okm by (simp add: ws_def m_def)
    have st: "settled (put_worker t (Written i) (put_mg m s)) = settled s"
      unfolding settled_def put_simps disk(2) ws_def [symmetric] wr ..
    show "sys_inv sha1 (put_worker t (Written i) (put_mg m s))"
    proof (intro sys_invI; unfold put_simps ws_def [symmetric] disk(2) c)
      show "verified sha1 m j \<or> (\<exists>t x data. ws t = Writing j x data)" if "j \<in> held (sy_mg s) - sy_lost s" for j
        using ver [OF that] vi writing by blast
    qed (use inv disk(1) own wr ok st in \<open>metis | simp\<close>)+
  }
  {
    assume "e \<noteq> None"
    define ws where "ws = (sy_workers s)(t := give_up i x)"
    have own: "own_of (sy_workers s t') = Some j" if "own_of (ws t') = Some j" for t' j
      using that assms(2) by (cases x) (auto simp: ws_def own_give_up split: if_splits)
    have wr: "wr_of (ws t') = (if t' = t then None else wr_of (sy_workers s t'))" for t'
      by (simp add: ws_def own_give_up)
    have oth: "wr_of (sy_workers s t') \<noteq> Some i" if "t' \<noteq> t" for t' using inv(6) [of t i t'] assms(2) that by auto
    have writing: "ws t' = Writing j y dt" if "sy_workers s t' = Writing j y dt" "t' \<noteq> t" for t' j y dt
      using that by (simp add: ws_def)
    have ok: "worker_ok sha1 m (ws t')" for t' using inv(7) [of t'] i okm by (simp add: ws_def own_give_up m_def)
    have st: "settled (put_worker t (give_up i x) (put_mg m (s\<lparr>sy_lost := insert i (sy_lost s)\<rparr>))) = settled s"
    proof (rule set_eqI)
      fix j
      show "j \<in> settled (put_worker t (give_up i x) (put_mg m (s\<lparr>sy_lost := insert i (sy_lost s)\<rparr>))) \<longleftrightarrow> j \<in> settled s"
        using unsettled_writer [of s t i] writer_leaves [of s t i "give_up i x" j] assms(2)
        by (cases "j = i") (auto simp: settled_def disk(2) own_give_up simp del: fun_upd_apply)
    qed
    have s1: "sy_lost (s\<lparr>sy_lost := insert i (sy_lost s)\<rparr>) = insert i (sy_lost s)"
      "sy_workers (s\<lparr>sy_lost := insert i (sy_lost s)\<rparr>) = sy_workers s" by simp_all
    show "sys_inv sha1 (put_worker t (give_up i x) (put_mg m (s\<lparr>sy_lost := insert i (sy_lost s)\<rparr>)))"
    proof (intro sys_invI; unfold put_simps s1 ws_def [symmetric] disk(2) c)
      show "insert i (sy_lost s) \<subseteq> held (sy_mg s)" using inv(2) hl by auto
      show "j \<in> held (sy_mg s) - insert i (sy_lost s)" if "wr_of (ws t') = Some j" for t' j
        using that inv(5) [of t' j] oth wr by (cases "t' = t") auto
      show "t1 = t2" if "wr_of (ws t1) = Some j" "wr_of (ws t2) = Some j" for t1 t2 j
        using that wr inv(6) by (metis option.distinct(1))
      show "verified sha1 m j \<or> (\<exists>t x data. ws t = Writing j x data)" if "j \<in> held (sy_mg s) - insert i (sy_lost s)" for j
        using that ver [of j] writing by blast
    qed (use inv disk(1) own ok st in \<open>metis | simp\<close>)+
  }
qed

lemma settled_less: "settled s \<subseteq> {..<mg_num_pieces (sy_mg s)}"
  by (auto simp: settled_def held_def)

lemma sys_inv_count:
  assumes "sys_inv sha1 s" "sy_workers s t = Counting i"
  defines "m \<equiv> (sy_mg s)\<lparr>mg_completed := u32 (mg_completed (sy_mg s) + 1)\<rparr>"
  shows "sys_inv sha1 (put_worker t Idle (put_mg m s))"
proof -
  note inv = sys_invD [OF assms(1)]
  define ws where "ws = (sy_workers s)(t := Idle)"
  have c: "held m = held (sy_mg s)" "mg_claimed m = mg_claimed (sy_mg s)" "verified sha1 m = verified sha1 (sy_mg s)"
    "geometry m = geometry (sy_mg s)"
    by (simp_all add: m_def held_def verified_def geometry_def fun_eq_iff)
  have ok: "worker_ok sha1 m (ws t')" for t'
  proof -
    have "worker_ok sha1 m w = worker_ok sha1 (sy_mg s) w" for w by (cases w) (simp_all add: m_def)
    then show ?thesis using inv(7) [of t'] by (simp add: ws_def)
  qed
  have own: "own_of (sy_workers s t') = Some j" if "own_of (ws t') = Some j" for t' j
    using that by (auto simp: ws_def split: if_splits)
  have wr: "wr_of (ws t') = (if t' = t then None else wr_of (sy_workers s t'))" for t' by (simp add: ws_def)
  have oth: "wr_of (sy_workers s t') \<noteq> Some i" if "t' \<noteq> t" for t' using inv(6) [of t i t'] assms(2) that by auto
  have writing: "ws t' = Writing j x data" if "sy_workers s t' = Writing j x data" for t' j x data
    using that assms(2) by (auto simp: ws_def)
  have hl: "i \<in> held (sy_mg s) - sy_lost s" using inv(5) [of t i] assms(2) by simp
  have st: "settled (put_worker t Idle (put_mg m s)) = insert i (settled s)"
  proof (rule set_eqI)
    fix j
    show "j \<in> settled (put_worker t Idle (put_mg m s)) \<longleftrightarrow> j \<in> insert i (settled s)"
    proof (cases "j = i")
      case True
      then show ?thesis using assms(2) hl oth by (simp add: settled_def c)
    next
      case False
      then show ?thesis
        using writer_leaves [of s t i Idle j] assms(2) by (auto simp: settled_def c simp del: fun_upd_apply)
    qed
  qed
  have "i \<notin> settled s" using unsettled_writer [of s t i] assms(2) by simp
  then have "card (insert i (settled s)) = mg_completed (sy_mg s) + 1"
    using inv(9) finite_subset [OF settled_less [of s]] by simp
  moreover have "card (insert i (settled s)) \<le> mg_num_pieces (sy_mg s)"
    using card_mono [of "{..<mg_num_pieces (sy_mg s)}" "insert i (settled s)"] settled_less [of s] hl
    by (auto simp: held_def)
  ultimately have cm: "mg_completed m = card (insert i (settled s))"
    using inv(1) by (simp add: m_def geometry_def u32_id)
  show ?thesis
  proof (intro sys_invI; unfold put_simps ws_def [symmetric] c)
    show "j \<in> held (sy_mg s) - sy_lost s" if "wr_of (ws t') = Some j" for t' j
      using that inv(5) [of t' j] wr by (cases "t' = t") auto
    show "t1 = t2" if "wr_of (ws t1) = Some j" "wr_of (ws t2) = Some j" for t1 t2 j
      using that wr inv(6) by (metis option.distinct(1))
  qed (use inv own ok st cm writing in \<open>metis | simp\<close>)+
qed

lemma fault_simps:
  "files_ok dw (d\<lparr>dk_openable := p, dk_writable := q\<rparr>) = files_ok dw d"
  "slot dw (d\<lparr>dk_openable := p, dk_writable := q\<rparr>) = slot dw d"
proof -
  have "content dw (d\<lparr>dk_openable := p, dk_writable := q\<rparr>) = content dw d" by (simp add: content_def fun_eq_iff)
  then show "slot dw (d\<lparr>dk_openable := p, dk_writable := q\<rparr>) = slot dw d"
    by (simp add: slot_def [abs_def] image_def image_of_def)
qed (simp add: files_ok_def stored_def)

lemma pm_step_inv:
  assumes "pm_step sha1 s s'" "sys_inv sha1 s"
  shows "sys_inv sha1 s'"
  using assms
proof (cases rule: pm_step.cases)
  case (claim t m i)
  have free: "own_of (sy_workers s t') \<noteq> Some i" for t' using sys_invD(3) [OF assms(2)] claim by blast
  have "length (mg_claimed (sy_mg s)) = mg_num_pieces (sy_mg s)" using sys_invD(1) [OF assms(2)] by (simp add: geometry_def)
  moreover have "(mg_claimed m)[i := True] ! j" if "own_of (sy_workers s t') = Some j" for t' j
    using that sys_invD(3) [OF assms(2)] free claim by (cases "j = i") auto
  then have "sys_inv sha1 (put_mg (m\<lparr>mg_claimed := (mg_claimed m)[i := True]\<rparr>) s)"
    using assms(2) sys_invD(1) [OF assms(2)] claim
    by (intro sys_inv_mg) (auto simp: geometry_def held_def verified_def)
  ultimately show ?thesis using claim free by (simp add: sys_inv_claim)
next
  case (endgame t i)
  then show ?thesis using assms(2) by (simp add: sys_inv_move)
next
  case (already_have t i x)
  then show ?thesis using assms(2) by (simp add: sys_inv_move)
next
  case (drop_piece t i x)
  then show ?thesis using assms(2) sys_invD(7) [OF assms(2), of t]
    by (cases x) (simp_all add: sys_inv_move own_give_up)
next
  case (hash_ok t i x data)
  then show ?thesis using assms(2) sys_invD(7) [OF assms(2), of t]
    by (cases x) (simp_all add: sys_inv_move)
next
  case (hash_bad t i x m data)
  have "sys_inv sha1 (put_mg (m\<lparr>mg_hash_failures := u64 (mg_hash_failures m + 1)\<rparr>) s)"
    using assms(2) sys_invD [OF assms(2)] hash_bad
    by (intro sys_inv_mg) (auto simp: geometry_def held_def verified_def)
  then show ?thesis using hash_bad sys_invD(7) [OF assms(2), of t]
    by (cases x) (simp_all add: sys_inv_move own_give_up)
next
  case (cas_lose t i x data)
  then show ?thesis using assms(2) by (simp add: sys_inv_move)
next
  case (cas_win t i x data m)
  then show ?thesis using sys_inv_cas_win [OF assms(2)] by simp
next
  case (write_ok t i x data m d)
  then show ?thesis using sys_inv_write(1) [OF assms(2)] by simp
next
  case (write_throws t i x data m e d)
  then show ?thesis using sys_inv_write(2) [OF assms(2)] by simp
next
  case (add_bytes t i m)
  have "sys_inv sha1 (put_mg (m\<lparr>mg_downloaded := u64 (mg_downloaded m + piece_length i m)\<rparr>) s)"
    using assms(2) sys_invD [OF assms(2)] add_bytes
    by (intro sys_inv_mg) (auto simp: geometry_def held_def verified_def)
  then show ?thesis using add_bytes sys_invD(7) [OF assms(2), of t] by (simp add: sys_inv_move)
next
  case (add_piece t i m)
  then show ?thesis using sys_inv_count [OF assms(2)] by simp
next
  case (abort_held t i)
  then show ?thesis using assms(2) by (simp add: sys_inv_move)
next
  case (abort_load t i)
  then show ?thesis using assms(2) sys_invD(7) [OF assms(2), of t] by (simp add: sys_inv_move)
next
  case (abort_store t i m)
  let ?s = "put_worker t Idle s"
  have moved: "sys_inv sha1 ?s" using abort_store assms(2) by (simp add: sys_inv_move)
  have free: "own_of (sy_workers ?s t') \<noteq> Some i" for t'
    using sys_invD(4) [OF assms(2), of t i t'] abort_store by auto
  have "(mg_claimed m)[i := False] ! j" if "own_of (sy_workers ?s t') = Some j" for t' j
    using that sys_invD(3) [OF moved] free abort_store by (cases "j = i") auto
  then have "sys_inv sha1 (put_mg (m\<lparr>mg_claimed := (mg_claimed m)[i := False]\<rparr>) ?s)"
    using moved sys_invD(1) [OF moved] abort_store
    by (intro sys_inv_mg) (auto simp: geometry_def held_def verified_def)
  then show ?thesis using abort_store by (simp add: put_commute)
next
  case (disk_fault m p q)
  then show ?thesis
    using assms(2) sys_invD(1) [OF assms(2)]
    by (auto intro!: sys_inv_mg sys_invD(3) [OF assms(2)] simp: geometry_def held_def verified_def fault_simps)
qed

lemma pm_reach_inv:
  assumes "pm_reach sha1 m s" "geometry m" "mg_completed m = 0" "held m = {}"
  shows "sys_inv sha1 s"
  using assms(1)
proof induction
  case start
  show ?case using assms(2-4) by (simp add: sys_inv_def settled_def)
next
  case (step s s')
  then show ?case using pm_step_inv by blast
qed

lemma pm_reach_const:
  assumes "pm_reach sha1 m s"
  shows "mg_num_pieces (sy_mg s) = mg_num_pieces m" "mg_hashes (sy_mg s) = mg_hashes m" "mg_writer (sy_mg s) = mg_writer m"
  using assms by (induction) (auto elim!: pm_step.cases)

text \<open>A piece whose write failed is held but never counted: the torrent never completes.\<close>

lemma lost_piece_never_completes:
  assumes "sys_inv sha1 s" "i \<in> sy_lost s"
  shows "\<not> is_complete (sy_mg s)"
proof -
  note inv = sys_invD [OF assms(1)]
  have "i \<notin> settled s" using assms(2) by (simp add: settled_def)
  moreover have "i \<in> {..<mg_num_pieces (sy_mg s)}" using inv(2) assms(2) by (auto simp: held_def)
  ultimately have "settled s \<subset> {..<mg_num_pieces (sy_mg s)}" using settled_less [of s] by blast
  then have "card (settled s) < mg_num_pieces (sy_mg s)"
    using psubset_card_mono [of "{..<mg_num_pieces (sy_mg s)}" "settled s"] by simp
  then show ?thesis using inv(9) by (simp add: is_complete_def)
qed

subsection \<open>A one-piece torrent\<close>

definition sample_dw :: disk_writer where
  "sample_dw = sample_writer\<lparr>dw_piece_size := 8\<rparr>"

definition sample_data :: bytes where
  "sample_data = [1, 2, 3, 4, 5, 6, 7, 8]"

definition sample_manager :: piece_manager where
  "sample_manager =
     \<lparr>mg_total_length = 8, mg_downloaded = 0, mg_num_pieces = 1, mg_nominal = 8, mg_hashes = [sample_data],
      mg_have = [False], mg_claimed = [False], mg_completed = 0, mg_hash_failures = 0,
      mg_writer = sample_dw, mg_disk = sample_disk\<rparr>"

lemma sample_dw_ok: "disk_ok sample_dw sample_disk" "in_range sample_dw 0" "piece_bytes sample_dw 0 = 8"
proof -
  have "absolute_path sample_dw = absolute_path sample_writer"
    by (simp add: absolute_path_def sample_dw_def fun_eq_iff)
  then show "disk_ok sample_dw sample_disk"
    using sample_disk_ok by (simp add: disk_ok_def dw_ok_def stored_def healthy_def sample_dw_def sample_writer_def)
qed (simp_all add: sample_dw_def sample_writer_def in_range_def piece_bytes_def)

lemma sample_new: "mg_new 1 8 8 [sample_data] sample_dw sample_disk = Inr sample_manager"
  by (simp add: mg_new_def sample_manager_def)

lemma sample_manager_ok: "geometry sample_manager" "held sample_manager = {}" "mg_inv (\<lambda>b. b) {} sample_manager"
proof -
  show g: "geometry sample_manager"
    using disk_ok_files [OF sample_dw_ok(1)]
    by (simp add: geometry_def sample_manager_def) (simp add: sample_dw_def sample_writer_def)
  show "held sample_manager = {}" by (auto simp: held_def sample_manager_def)
  then show "mg_inv (\<lambda>b. b) {} sample_manager" using g by (simp add: mg_inv_def sample_manager_def)
qed

abbreviation sample_start :: pm_system where
  "sample_start \<equiv> \<lparr>sy_mg = sample_manager, sy_workers = (\<lambda>t. Idle), sy_lost = {}\<rparr>"

lemma sample_won:
  "pm_reach (\<lambda>b. b) sample_manager
     \<lparr>sy_mg = sample_manager\<lparr>mg_claimed := [True], mg_have := [True]\<rparr>,
      sy_workers = (\<lambda>t. Idle)(0 := Writing 0 True sample_data), sy_lost = {}\<rparr>"
proof -
  let ?r = "pm_reach (\<lambda>b. b) sample_manager"
  let ?m = "sample_manager\<lparr>mg_claimed := [True]\<rparr>"
  have "pm_step (\<lambda>b. b) sample_start \<lparr>sy_mg = ?m, sy_workers = (\<lambda>t. Idle)(0 := Picked 0 True), sy_lost = {}\<rparr>"
    using pm_step.claim [of sample_start 0 sample_manager 0]
    by (simp add: put_worker_def put_mg_def sample_manager_def)
  from pm_reach.step [OF pm_reach.start this]
  have 1: "?r \<lparr>sy_mg = ?m, sy_workers = (\<lambda>t. Idle)(0 := Picked 0 True), sy_lost = {}\<rparr>" .
  have "pm_step (\<lambda>b. b) \<lparr>sy_mg = ?m, sy_workers = (\<lambda>t. Idle)(0 := Picked 0 True), sy_lost = {}\<rparr>
      \<lparr>sy_mg = ?m, sy_workers = (\<lambda>t. Idle)(0 := Checked 0 True sample_data), sy_lost = {}\<rparr>"
    using pm_step.hash_ok [of "\<lparr>sy_mg = ?m, sy_workers = (\<lambda>t. Idle)(0 := Picked 0 True), sy_lost = {}\<rparr>" 0 0 True "\<lambda>b. b" sample_data]
    by (simp add: put_worker_def sample_manager_def)
  from pm_reach.step [OF 1 this]
  have 2: "?r \<lparr>sy_mg = ?m, sy_workers = (\<lambda>t. Idle)(0 := Checked 0 True sample_data), sy_lost = {}\<rparr>" .
  have "pm_step (\<lambda>b. b) \<lparr>sy_mg = ?m, sy_workers = (\<lambda>t. Idle)(0 := Checked 0 True sample_data), sy_lost = {}\<rparr>
      \<lparr>sy_mg = ?m\<lparr>mg_have := [True]\<rparr>, sy_workers = (\<lambda>t. Idle)(0 := Writing 0 True sample_data), sy_lost = {}\<rparr>"
    using pm_step.cas_win [of "\<lparr>sy_mg = ?m, sy_workers = (\<lambda>t. Idle)(0 := Checked 0 True sample_data), sy_lost = {}\<rparr>" 0 0 True sample_data ?m]
    by (simp add: put_worker_def put_mg_def sample_manager_def)
  from pm_reach.step [OF 2 this] show ?thesis by simp
qed

lemma sample_complete:
  "\<exists>s. pm_reach (\<lambda>b. b) sample_manager s \<and> is_complete (sy_mg s)"
proof -
  let ?m = "sample_manager\<lparr>mg_claimed := [True], mg_have := [True]\<rparr>"
  let ?s = "\<lparr>sy_mg = ?m, sy_workers = (\<lambda>t. Idle)(0 := Writing 0 True sample_data), sy_lost = {}\<rparr>"
  obtain d where d: "write_piece sample_dw 0 sample_data sample_disk = (None, d)"
    using write_piece_image [OF sample_dw_ok(1,2), of sample_data] sample_dw_ok(3) by (auto simp: sample_data_def)
  let ?s1 = "put_worker 0 (Written 0) (put_mg (?m\<lparr>mg_disk := d\<rparr>) ?s)"
  let ?m1 = "sy_mg ?s1"
  let ?s2 = "put_worker 0 (Counting 0) (put_mg (?m1\<lparr>mg_downloaded := u64 (mg_downloaded ?m1 + piece_length 0 ?m1)\<rparr>) ?s1)"
  let ?m2 = "sy_mg ?s2"
  let ?s3 = "put_worker 0 Idle (put_mg (?m2\<lparr>mg_completed := u32 (mg_completed ?m2 + 1)\<rparr>) ?s2)"
  have 1: "pm_step (\<lambda>b. b) ?s ?s1"
    by (rule pm_step.write_ok [of _ _ _ True sample_data]) (use d in \<open>simp_all add: sample_manager_def\<close>)
  have 2: "pm_step (\<lambda>b. b) ?s1 ?s2" by (rule pm_step.add_bytes) simp_all
  have 3: "pm_step (\<lambda>b. b) ?s2 ?s3" by (rule pm_step.add_piece [of _ _ 0]) simp_all
  have "pm_reach (\<lambda>b. b) sample_manager ?s3"
    by (rule pm_reach.step [OF pm_reach.step [OF pm_reach.step [OF sample_won 1] 2] 3])
  moreover have "is_complete (sy_mg ?s3)" by (simp add: is_complete_def sample_manager_def u32_def)
  ultimately show ?thesis by blast
qed

lemma sample_completed:
  "\<exists>m. complete_piece (\<lambda>b. b) 0 sample_data sample_manager = (Inr True, m) \<and> mg_inv (\<lambda>b. b) {} m \<and> have_piece 0 m \<and>
     piece_length 0 m = 8 \<and> slot (mg_writer m) (mg_disk m) 0 = sample_data \<and>
     (\<forall>f\<in>set (dw_files (mg_writer m)). healthy (mg_writer m) (mg_disk m) f)"
proof -
  obtain d where d: "write_piece sample_dw 0 sample_data sample_disk = (None, d)"
    using write_piece_image [OF sample_dw_ok(1,2), of sample_data] sample_dw_ok(3) by (auto simp: sample_data_def)
  obtain m where m: "complete_piece (\<lambda>b. b) 0 sample_data sample_manager = (Inr True, m)"
    and mg: "mg_writer m = sample_dw" "mg_disk m = d" "have_piece 0 m"
    using d by (auto simp: complete_piece_def sample_manager_def have_piece_def)
  have inv: "mg_inv (\<lambda>b. b) {} m" using complete_piece_inv [OF sample_manager_ok(3) m] by auto
  note w = slot_write [OF disk_ok_files [OF sample_dw_ok(1)] sample_dw_ok(2) d]
  have "\<forall>f\<in>set (dw_files (mg_writer m)). healthy (mg_writer m) (mg_disk m) f"
    using sample_dw_ok(1) w(4,5) by (simp add: mg disk_ok_def healthy_def)
  moreover have "geometry m" "0 < mg_num_pieces m" using inv by (simp_all add: mg_inv_def geometry_def)
  then have "piece_length 0 m = 8" using piece_length_eq [of m 0] sample_dw_ok(3) mg(1) by simp
  ultimately show ?thesis using m mg inv w(2) by auto
qed

text \<open>
  Between the compare-exchange on \<^verbatim>\<open>m_have\<close> and the end of the write the piece
  is advertised and served although its bytes are not yet on disk.
\<close>

lemma served_before_written:
  "\<exists>s. pm_reach (\<lambda>b. b) sample_manager s \<and>
     read_block 0 0 4 (sy_mg s) = Inr [0, 0, 0, 0] \<and> take 4 sample_data \<noteq> [0, 0, 0, 0]"
proof (intro exI conjI)
  show "pm_reach (\<lambda>b. b) sample_manager
     \<lparr>sy_mg = sample_manager\<lparr>mg_claimed := [True], mg_have := [True]\<rparr>,
      sy_workers = (\<lambda>t. Idle)(0 := Writing 0 True sample_data), sy_lost = {}\<rparr>"
    by (rule sample_won)
  let ?m = "sample_manager\<lparr>mg_claimed := [True], mg_have := [True]\<rparr>"
  have "image sample_dw sample_disk = [0, 0, 0, 0, 0, 0, 0, 0]"
    by (simp add: image_def sample_dw_def sample_writer_def sample_disk_def content_def absolute_path_def
        path_join_def)
  then have r: "read_piece sample_dw 0 sample_disk = Inr [0, 0, 0, 0, 0, 0, 0, 0]"
    using read_piece_image [OF sample_dw_ok(1,2)] by (simp add: slot_def sample_dw_ok(3))
  have "geometry ?m" using sample_manager_ok(1) by (simp add: geometry_def sample_manager_def)
  then have "piece_length 0 ?m = 8"
    using piece_length_eq [of ?m 0] sample_dw_ok(3) by (simp add: sample_manager_def)
  then show "read_block 0 0 4 (sy_mg \<lparr>sy_mg = ?m,
      sy_workers = (\<lambda>t. Idle)(0 := Writing 0 True sample_data), sy_lost = {}\<rparr>) = Inr [0, 0, 0, 0]"
    using r by (simp add: read_block_def have_piece_def Let_def) (simp add: sample_manager_def)
  show "take 4 sample_data \<noteq> [0, 0, 0, 0]" by (simp add: sample_data_def)
qed

subsection \<open>Properties\<close>

text \<open>C2: However the peer threads interleave their atomic operations, and whatever disk
  faults occur, once is_complete returns true every piece of the torrent is on
  disk with the hash the torrent names and no thread is still writing one.\<close>

theorem complete_means_verified:
  assumes "pm_reach sha1 m s" "geometry m" "held m = {}" "mg_completed m = 0" "is_complete (sy_mg s)"
  shows "\<forall>i<mg_num_pieces m.
    sha1 (slot (mg_writer m) (mg_disk (sy_mg s)) i) = mg_hashes m ! i \<and>
    have_piece i (sy_mg s) \<and> (\<forall>t. wr_of (sy_workers s t) \<noteq> Some i)"
proof -
  note inv = sys_invD [OF pm_reach_inv [OF assms(1,2,4,3)]] and const = pm_reach_const [OF assms(1)]
  have "card (settled s) = card {..<mg_num_pieces (sy_mg s)}" using inv(9) assms(5) by (simp add: is_complete_def)
  then have "settled s = {..<mg_num_pieces (sy_mg s)}"
    using card_subset_eq [OF _ settled_less [of s]] by simp
  then have all: "i \<in> settled s" if "i < mg_num_pieces m" for i using that const(1) by simp
  have "verified sha1 (sy_mg s) i" if "i < mg_num_pieces m" for i
  proof -
    have "i \<in> held (sy_mg s) - sy_lost s" "\<forall>t. wr_of (sy_workers s t) \<noteq> Some i"
      using all [OF that] by (auto simp: settled_def)
    then show ?thesis using inv(8) [of i] by (metis wr_of.simps(1))
  qed
  then show ?thesis using all const by (auto simp: verified_def settled_def held_def have_piece_def)
qed

theorem complete_means_verified_witness:
  "\<exists>s. pm_reach (\<lambda>b. b) sample_manager s \<and> slot sample_dw (mg_disk (sy_mg s)) 0 = sample_data"
proof -
  obtain s where s: "pm_reach (\<lambda>b. b) sample_manager s" "is_complete (sy_mg s)" using sample_complete by blast
  have "mg_completed sample_manager = 0" by (simp add: sample_manager_def)
  from complete_means_verified [OF s(1) sample_manager_ok(1,2) this s(2)] s(1) show ?thesis
    by (auto simp: sample_manager_def)
qed

text \<open>C1: Claims and writes are exclusive in every interleaving: a piece has at most one
  exclusive owner and at most one thread that writes it, an owned piece is
  marked claimed, a piece being written is held, and the completion counter
  never exceeds the number of held pieces.\<close>

theorem claims_exclusive:
  assumes "pm_reach sha1 m s" "geometry m" "held m = {}" "mg_completed m = 0"
  shows "(\<forall>t t' i. own_of (sy_workers s t) = Some i \<and> own_of (sy_workers s t') = Some i \<longrightarrow> t = t') \<and>
    (\<forall>t t' i. wr_of (sy_workers s t) = Some i \<and> wr_of (sy_workers s t') = Some i \<longrightarrow> t = t') \<and>
    (\<forall>t i. own_of (sy_workers s t) = Some i \<longrightarrow> mg_claimed (sy_mg s) ! i) \<and>
    (\<forall>t i. wr_of (sy_workers s t) = Some i \<longrightarrow> have_piece i (sy_mg s)) \<and>
    mg_completed (sy_mg s) \<le> card (held (sy_mg s))"
proof -
  note inv = sys_invD [OF pm_reach_inv [OF assms(1,2,4,3)]]
  have "mg_completed (sy_mg s) \<le> card (held (sy_mg s))"
    unfolding inv(9) by (rule card_mono) (auto simp: settled_def)
  moreover have "have_piece i (sy_mg s)" if "wr_of (sy_workers s t) = Some i" for t i
    using inv(5) [OF that] by (simp add: have_piece_def held_def)
  ultimately show ?thesis using inv(3,4,6) by blast
qed

theorem claims_exclusive_witness:
  "\<exists>s. pm_reach (\<lambda>b. b) sample_manager s \<and> wr_of (sy_workers s 0) = Some 0 \<and> have_piece 0 (sy_mg s)"
proof -
  let ?s = "\<lparr>sy_mg = sample_manager\<lparr>mg_claimed := [True], mg_have := [True]\<rparr>,
      sy_workers = (\<lambda>t. Idle)(0 := Writing 0 True sample_data), sy_lost = {}\<rparr>"
  have "mg_completed sample_manager = 0" by (simp add: sample_manager_def)
  from claims_exclusive [OF sample_won sample_manager_ok(1,2) this]
  have "\<forall>t i. wr_of (sy_workers ?s t) = Some i \<longrightarrow> have_piece i (sy_mg ?s)" by blast
  then have "have_piece 0 (sy_mg ?s)" by (rule allE [of _ 0]) simp
  moreover have "wr_of (sy_workers ?s 0) = Some 0" by simp
  ultimately show ?thesis using sample_won by blast
qed

text \<open>C25: next_needed picks correctly: an exclusive pick is the lowest piece the peer
  offers that is neither held nor claimed and is claimed afterwards; a shared
  pick is only given when every needed piece the peer offers is already
  claimed; nothing is picked exactly when the peer offers nothing that is
  still needed.\<close>

theorem next_needed_spec:
  fixes bf :: "bool list" and m :: piece_manager
  assumes "length (mg_claimed m) = mg_num_pieces m"
  defines "needed i \<equiv> i < mg_num_pieces m \<and> peer_offers bf i \<and> \<not> mg_have m ! i"
  shows "(case next_needed bf m of
      (None, m') \<Rightarrow> m' = m \<and> (\<forall>i. \<not> needed i)
    | (Some np, m') \<Rightarrow> needed (np_index np) \<and>
        (if np_exclusive np
         then \<not> mg_claimed m ! np_index np \<and> (\<forall>j<np_index np. needed j \<longrightarrow> mg_claimed m ! j) \<and> m' = m\<lparr>mg_claimed := (mg_claimed m)[np_index np := True]\<rparr> \<and>
              mg_claimed m' ! np_index np
         else m' = m \<and> (\<forall>i. needed i \<longrightarrow> mg_claimed m ! i)))"
proof (cases "claim_loop bf [0..<mg_num_pieces m] m")
  case None
  then have cl: "\<forall>i. needed i \<longrightarrow> mg_claimed m ! i" by (auto simp: claim_loop_None needed_def)
  show ?thesis
  proof (cases "endgame_loop bf [0..<mg_num_pieces m] m")
    case none: None
    then have "\<forall>i. \<not> needed i" by (auto simp: endgame_loop_None needed_def)
    then show ?thesis using None none by (simp add: next_needed_def)
  next
    case (Some i)
    then have "needed i" using endgame_loop_Some [OF Some] by (simp add: needed_def)
    then show ?thesis using None Some cl by (simp add: next_needed_def)
  qed
next
  case (Some i)
  have "\<forall>j<i. needed j \<longrightarrow> mg_claimed m ! j"
    using claim_loop_first [OF Some] by (auto simp: needed_def)
  then show ?thesis using Some claim_loop_Some [OF Some] assms(1) by (simp add: next_needed_def needed_def)
qed

theorem next_needed_spec_witness:
  "fst (next_needed [True] sample_manager) = Some \<lparr>np_index = 0, np_exclusive = True\<rparr> \<and>
   (case next_needed [True] sample_manager of
      (None, m') \<Rightarrow> False | (Some np, m') \<Rightarrow> mg_claimed m' ! np_index np)"
  using next_needed_spec [of sample_manager "[True]"]
  by (auto simp: next_needed_def sample_manager_def peer_offers_def)

text \<open>A request for a block is answered exactly when the range lies inside the piece,
  with no overflow in the bounds check, and the bytes returned are that range
  of the verified piece; a piece that is not held or a range outside it is
  refused with an error.\<close>

theorem read_block_exact:
  assumes "mg_inv sha1 lost m" "i \<notin> lost" "\<forall>f\<in>set (dw_files (mg_writer m)). healthy (mg_writer m) (mg_disk m) f"
  shows "read_block i b n m =
    (if \<not> have_piece i m then Inl PieceNotAvailable
     else if b + n \<le> piece_length i m then Inr (take n (drop b (slot (mg_writer m) (mg_disk m) i)))
     else Inl BlockOutOfBounds) \<and>
    (have_piece i m \<longrightarrow> sha1 (slot (mg_writer m) (mg_disk m) i) = mg_hashes m ! i)"
proof (cases "have_piece i m")
  case True
  then have "i \<in> held m - lost" using assms(2) by (auto simp: have_piece_def held_def split: if_splits)
  from held_readable [OF assms(1) this assms(3)] show ?thesis using True by (auto simp: read_block_def Let_def)
next
  case False
  then show ?thesis by (simp add: read_block_def)
qed

theorem read_block_exact_witness:
  "\<exists>m. complete_piece (\<lambda>b. b) 0 sample_data sample_manager = (Inr True, m) \<and> read_block 0 2 3 m = Inr [3, 4, 5]"
proof -
  obtain m where m: "complete_piece (\<lambda>b. b) 0 sample_data sample_manager = (Inr True, m)"
    "mg_inv (\<lambda>b. b) {} m" "have_piece 0 m" "piece_length 0 m = 8" "slot (mg_writer m) (mg_disk m) 0 = sample_data"
    "\<forall>f\<in>set (dw_files (mg_writer m)). healthy (mg_writer m) (mg_disk m) f"
    using sample_completed by blast
  show ?thesis using read_block_exact [OF m(2) _ m(6), of 0 2 3] m by (auto simp: sample_data_def)
qed

end
