(* ===== verification/Peer_Connection.thy ===== *)
theory Peer_Connection
  imports Peer_Message Piece_Manager
begin

section \<open>Peer connections\<close>

text \<open>
  \<^verbatim>\<open>PeerConnection\<close> (\<^verbatim>\<open>inc/peer_wire/peer_connection.h\<close>,
  \<^verbatim>\<open>src/peer_wire/peer_connection.cpp\<close>): the state machine of one peer
  thread on top of the shared piece manager. A handler maps the pair of the
  connection and the manager to an optional error, the exception that ends
  \<^verbatim>\<open>run\<close>, and the pair it leaves. The bytes a peer sends are a list the
  receive functions consume; its end is the timeout or the closed socket. The
  buffers handed to the socket are collected in \<open>cn_sent\<close>, and
  \<open>cn_send_ok\<close> is how many more of them the socket accepts before it fails.
  Logging is left out.
\<close>

datatype conn_error =
    WireError wire_error | SendFailed | RecvFailed | MessageTooLong | UnexpectedHeader
  | InfoHashMismatch | HaveOutOfRange | BitfieldSizeMismatch | ManagerError manager_error

record in_flight =
  if_index :: nat
  if_length :: nat
  if_next :: nat
  if_requests :: nat
  if_data :: bytes
  if_received :: "bool list"
  if_done :: nat
  if_total :: nat

record peer_connection =
  cn_info_hash :: info_hash
  cn_my_peer_id :: bytes
  cn_connected :: bool
  cn_downloaded :: nat
  cn_uploaded :: nat
  cn_blocks_uploaded :: nat
  cn_am_choking :: bool
  cn_am_interested :: bool
  cn_peer_choking :: bool
  cn_peer_interested :: bool
  cn_bitfield :: "bool list"
  cn_current :: "in_flight option"
  cn_exclusive :: bool
  cn_sent :: "bytes list"
  cn_send_ok :: nat

type_synonym session = "peer_connection \<times> piece_manager"
type_synonym outcome = "conn_error option \<times> session"

definition MAX_PIPELINE :: nat where "MAX_PIPELINE = 15"

definition and_then :: "outcome \<Rightarrow> (session \<Rightarrow> outcome) \<Rightarrow> outcome" where
  "and_then r f = (case r of (None, s) \<Rightarrow> f s | (Some e, s) \<Rightarrow> (Some e, s))"

definition cn_new :: "info_hash \<Rightarrow> bytes \<Rightarrow> nat \<Rightarrow> piece_manager \<Rightarrow> peer_connection" where
  "cn_new h my_id send_ok m =
     \<lparr>cn_info_hash = h, cn_my_peer_id = my_id, cn_connected = False, cn_downloaded = 0, cn_uploaded = 0,
      cn_blocks_uploaded = 0, cn_am_choking = True, cn_am_interested = False, cn_peer_choking = True,
      cn_peer_interested = False, cn_bitfield = replicate (mg_num_pieces m) False,
      cn_current = None, cn_exclusive = False, cn_sent = [], cn_send_ok = send_ok\<rparr>"

text \<open>The destructor releases a claim that is still held.\<close>

definition cn_close :: "session \<Rightarrow> session" where
  "cn_close s = (case s of (c, m) \<Rightarrow>
     (case cn_current c of
        Some p \<Rightarrow> if cn_exclusive c then (c, abort_piece (if_index p) m) else (c, m)
      | None \<Rightarrow> (c, m)))"

subsection \<open>Sending and receiving\<close>

definition send_bytes :: "bytes \<Rightarrow> session \<Rightarrow> outcome" where
  "send_bytes wire s = (case s of (c, m) \<Rightarrow>
     if cn_send_ok c = 0 then (Some SendFailed, s)
     else (None, (c\<lparr>cn_sent := cn_sent c @ [wire], cn_send_ok := cn_send_ok c - 1\<rparr>, m)))"

definition send_message :: "peer_message \<Rightarrow> session \<Rightarrow> outcome" where
  "send_message msg s = (case serialize msg of
       Inl e \<Rightarrow> (Some (WireError e), s)
     | Inr wire \<Rightarrow> send_bytes wire s)"

definition recv_exact :: "nat \<Rightarrow> bytes \<Rightarrow> conn_error + (bytes \<times> bytes)" where
  "recv_exact n input = (if length input < n then Inl RecvFailed else Inr (take n input, drop n input))"

definition recv_message :: "bytes \<Rightarrow> conn_error + (peer_message option \<times> bytes)" where
  "recv_message input =
     (case recv_exact 4 input of
        Inl e \<Rightarrow> Inl e
      | Inr (len_buf, input) \<Rightarrow>
          let len = unat (read_be32 len_buf 0)
          in if len = 0 then Inr (None, input)
             else if 2 ^ 24 < len then Inl MessageTooLong
             else (case recv_exact len input of
                 Inl e \<Rightarrow> Inl e
               | Inr (body, input) \<Rightarrow>
                   Inr (Some \<lparr>pm_id = id_of_byte (body ! 0),
                              pm_payload = (if 1 < len then drop 1 body else [])\<rparr>, input)))"

subsection \<open>Handshake\<close>

definition do_handshake :: "bytes \<Rightarrow> session \<Rightarrow> outcome \<times> bytes" where
  "do_handshake input s =
     (let wire = serialize_handshake \<lparr>hs_reserved = replicate 8 0, hs_info_hash = cn_info_hash (fst s),
                                      hs_peer_id = cn_my_peer_id (fst s)\<rparr>
      in case send_bytes wire s of
           (Some e, s) \<Rightarrow> ((Some e, s), input)
         | (None, s) \<Rightarrow> (case recv_exact HANDSHAKE_LENGTH input of
               Inl e \<Rightarrow> ((Some e, s), input)
             | Inr (reply_buf, input) \<Rightarrow>
                 if reply_buf ! 0 \<noteq> PROTOCOL_STRING_LENGTH then ((Some UnexpectedHeader, s), input)
                 else (case deserialize_handshake reply_buf of
                     Inl e \<Rightarrow> ((Some (WireError e), s), input)
                   | Inr reply \<Rightarrow>
                       if hs_info_hash reply \<noteq> cn_info_hash (fst s) then ((Some InfoHashMismatch, s), input)
                       else ((None, s), input))))"

definition pack_bits :: "bool list \<Rightarrow> bytes" where
  "pack_bits have_bits =
     fold (\<lambda>i bf. if have_bits ! i then bf[i div 8 := bf ! (i div 8) OR push_bit (7 - i mod 8) 1] else bf)
       [0..<length have_bits] (replicate ((length have_bits + 7) div 8) 0)"

definition send_bitfield :: "session \<Rightarrow> outcome" where
  "send_bitfield s =
     (let have_bits = current_bitfield (snd s)
      in if length (filter id have_bits) = 0 then (None, s)
         else send_message (bitfield_to_message \<lparr>bm_bitfield = pack_bits have_bits\<rparr>) s)"

definition connect :: "bytes \<Rightarrow> session \<Rightarrow> outcome \<times> bytes" where
  "connect input s =
     (case do_handshake input s of
        ((Some e, s), input) \<Rightarrow> ((Some e, s), input)
      | ((None, (c, m)), input) \<Rightarrow> (send_bitfield (c\<lparr>cn_connected := True\<rparr>, m), input))"

subsection \<open>Requests\<close>

definition send_interested :: "session \<Rightarrow> outcome" where
  "send_interested s =
     (if cn_am_interested (fst s) then (None, s)
      else and_then (send_message \<lparr>pm_id = Interested, pm_payload = []\<rparr> s)
             (\<lambda>(c, m). (None, (c\<lparr>cn_am_interested := True\<rparr>, m))))"

definition new_in_flight :: "nat \<Rightarrow> nat \<Rightarrow> in_flight" where
  "new_in_flight index len =
     (let num_blocks = u32 (len + BLOCK_SIZE - 1) div BLOCK_SIZE
      in \<lparr>if_index = index, if_length = len, if_next = 0, if_requests = 0, if_data = replicate len 0,
          if_received = replicate num_blocks False, if_done = 0, if_total = num_blocks\<rparr>)"

definition block_len :: "in_flight \<Rightarrow> nat" where
  "block_len p = min BLOCK_SIZE (if_length p - if_next p)"

definition next_request :: "in_flight \<Rightarrow> request_message" where
  "next_request p =
     \<lparr>rm_index = of_nat (if_index p), rm_begin = of_nat (if_next p), rm_length = of_nat (block_len p)\<rparr>"

definition requested :: "in_flight \<Rightarrow> in_flight" where
  "requested p = p\<lparr>if_next := u32 (if_next p + block_len p), if_requests := u32 (if_requests p + 1)\<rparr>"

function (sequential) request_loop :: "in_flight \<Rightarrow> session \<Rightarrow> outcome" where
  "request_loop p (c, m) =
     (if if_requests p < MAX_PIPELINE \<and> if_next p < if_length p
      then case send_message (request_to_message (next_request p)) (c\<lparr>cn_current := Some p\<rparr>, m) of
             (Some e, s) \<Rightarrow> (Some e, s)
           | (None, s) \<Rightarrow> request_loop (requested p) s
      else (None, (c\<lparr>cn_current := Some p\<rparr>, m)))"
  by pat_completeness auto
termination
  by (relation "measure (\<lambda>(p, s). MAX_PIPELINE - if_requests p)")
    (auto simp: requested_def u32_def MAX_PIPELINE_def)

definition pick_piece :: "session \<Rightarrow> session" where
  "pick_piece s = (case s of (c, m) \<Rightarrow>
     (case next_needed (cn_bitfield c) m of
        (None, m) \<Rightarrow> (c, m)
      | (Some pick, m) \<Rightarrow>
          (c\<lparr>cn_current := Some (new_in_flight (np_index pick) (piece_length (np_index pick) m)),
             cn_exclusive := np_exclusive pick\<rparr>, m)))"

definition fill_requests :: "session \<Rightarrow> outcome" where
  "fill_requests s = (case s of (c, m) \<Rightarrow>
     if cn_peer_choking c then (None, s)
     else if \<not> cn_am_interested c then (None, s)
     else let c = (case cn_current c of
                     Some p \<Rightarrow> if have_piece (if_index p) m
                               then c\<lparr>cn_current := None, cn_exclusive := False\<rparr> else c
                   | None \<Rightarrow> c);
              (c, m) = (if cn_current c = None then pick_piece (c, m) else (c, m))
          in case cn_current c of
               None \<Rightarrow> (None, (c, m))
             | Some p \<Rightarrow> request_loop p (c, m))"

subsection \<open>Handlers\<close>

definition send_unchoke :: "session \<Rightarrow> outcome" where
  "send_unchoke s =
     (if \<not> cn_am_choking (fst s) then (None, s)
      else and_then (send_message \<lparr>pm_id = Unchoke, pm_payload = []\<rparr> s)
             (\<lambda>(c, m). (None, (c\<lparr>cn_am_choking := False\<rparr>, m))))"

definition handle_choke :: "session \<Rightarrow> outcome" where
  "handle_choke s = (case s of (c, m) \<Rightarrow>
     let c = c\<lparr>cn_peer_choking := True\<rparr>
     in case cn_current c of
          None \<Rightarrow> (None, (c, m))
        | Some p \<Rightarrow> (None, (c\<lparr>cn_current := None, cn_exclusive := False\<rparr>,
                            if cn_exclusive c then abort_piece (if_index p) m else m)))"

definition handle_unchoke :: "session \<Rightarrow> outcome" where
  "handle_unchoke s = (case s of (c, m) \<Rightarrow> (None, (c\<lparr>cn_peer_choking := False\<rparr>, m)))"

definition handle_interested :: "session \<Rightarrow> outcome" where
  "handle_interested s = (case s of (c, m) \<Rightarrow> send_unchoke (c\<lparr>cn_peer_interested := True\<rparr>, m))"

definition handle_not_interested :: "session \<Rightarrow> outcome" where
  "handle_not_interested s = (case s of (c, m) \<Rightarrow> (None, (c\<lparr>cn_peer_interested := False\<rparr>, m)))"

definition handle_have :: "peer_message \<Rightarrow> session \<Rightarrow> outcome" where
  "handle_have msg s = (case s of (c, m) \<Rightarrow>
     (case have_from_message msg of
        Inl e \<Rightarrow> (Some (WireError e), s)
      | Inr h \<Rightarrow>
          let i = unat (hm_piece_index h)
          in if length (cn_bitfield c) \<le> i then (Some HaveOutOfRange, s)
             else let c = c\<lparr>cn_bitfield := (cn_bitfield c)[i := True]\<rparr>
                  in if \<not> have_piece i m then send_interested (c, m) else (None, (c, m))))"

fun bitfield_loop :: "bitfield_message \<Rightarrow> nat list \<Rightarrow> bool list \<Rightarrow> wire_error option \<times> bool list" where
  "bitfield_loop bf [] bits = (None, bits)"
| "bitfield_loop bf (i # is) bits =
     (case has_piece bf i of
        Inl e \<Rightarrow> (Some e, bits)
      | Inr b \<Rightarrow> bitfield_loop bf is (if b then bits[i := True] else bits))"

definition handle_bitfield :: "peer_message \<Rightarrow> session \<Rightarrow> outcome" where
  "handle_bitfield msg s = (case s of (c, m) \<Rightarrow>
     (case bitfield_from_message msg of
        Inl e \<Rightarrow> (Some (WireError e), s)
      | Inr bf \<Rightarrow>
          let num = mg_num_pieces m
          in if length (cn_bitfield c) \<noteq> num then (Some BitfieldSizeMismatch, s)
             else case bitfield_loop bf [0..<num] (cn_bitfield c) of
                (Some e, bits) \<Rightarrow> (Some (WireError e), (c\<lparr>cn_bitfield := bits\<rparr>, m))
              | (None, bits) \<Rightarrow>
                  let c = c\<lparr>cn_bitfield := bits\<rparr>
                  in if list_ex (\<lambda>i. bits ! i \<and> \<not> have_piece i m) [0..<num]
                     then send_interested (c, m) else (None, (c, m))))"

text \<open>The part of \<^verbatim>\<open>handle_piece\<close> that only touches the in-flight buffer.\<close>

definition put_block :: "nat \<Rightarrow> bytes \<Rightarrow> in_flight \<Rightarrow> in_flight" where
  "put_block begin_at block p =
     p\<lparr>if_data := take begin_at (if_data p) @ block @ drop (begin_at + length block) (if_data p),
       if_received := (if_received p)[begin_at div BLOCK_SIZE := True],
       if_done := u32 (if_done p + 1)\<rparr>"

definition handle_piece :: "(bytes \<Rightarrow> bytes) \<Rightarrow> peer_message \<Rightarrow> session \<Rightarrow> outcome" where
  "handle_piece sha1 msg s = (case s of (c, m) \<Rightarrow>
     (case piece_from_message msg of
        Inl e \<Rightarrow> (Some (WireError e), s)
      | Inr piece \<Rightarrow>
          (case cn_current c of
             None \<Rightarrow> (None, s)
           | Some p \<Rightarrow>
               if unat (pc_index piece) \<noteq> if_index p then (None, s)
               else let p = p\<lparr>if_requests := u32_sub (if_requests p) 1\<rparr>;
                        begin_at = unat (pc_begin piece);
                        block = pc_block piece;
                        block_idx = begin_at div BLOCK_SIZE
                    in if length (if_data p) < begin_at + length block
                       then (None, (c\<lparr>cn_current := Some p\<rparr>, m))
                       else if length (if_received p) \<le> block_idx \<or> if_received p ! block_idx
                       then (None, (c\<lparr>cn_current := Some p\<rparr>, m))
                       else let p = put_block begin_at block p;
                                c = c\<lparr>cn_downloaded := u64 (cn_downloaded c + length block),
                                      cn_current := Some p\<rparr>
                            in if if_done p < if_total p then (None, (c, m))
                               else (case complete_piece sha1 (if_index p) (if_data p) m of
                                   (Inl e, m) \<Rightarrow> (Some (ManagerError e), (c, m))
                                 | (Inr ok, m) \<Rightarrow>
                                     (None, (c\<lparr>cn_current := None, cn_exclusive := False\<rparr>,
                                             if \<not> ok \<and> cn_exclusive c then abort_piece (if_index p) m else m))))))"

definition handle_request :: "peer_message \<Rightarrow> session \<Rightarrow> outcome" where
  "handle_request msg s = (case s of (c, m) \<Rightarrow>
     (case request_from_message msg of
        Inl e \<Rightarrow> (Some (WireError e), s)
      | Inr req \<Rightarrow>
          if cn_am_choking c then (None, s)
          else if rm_length req = 0 \<or> BLOCK_SIZE < unat (rm_length req) then (None, s)
          else case read_block (unat (rm_index req)) (unat (rm_begin req)) (unat (rm_length req)) m of
              Inl e \<Rightarrow> (None, s)
            | Inr block \<Rightarrow>
                and_then (send_message (piece_to_message
                    \<lparr>pc_index = rm_index req, pc_begin = rm_begin req, pc_block = block\<rparr>) s)
                  (\<lambda>(c, m). (None, (c\<lparr>cn_uploaded := u64 (cn_uploaded c + unat (rm_length req)),
                                       cn_blocks_uploaded := u64 (cn_blocks_uploaded c + 1)\<rparr>, m)))))"

definition handle_cancel :: "peer_message \<Rightarrow> session \<Rightarrow> outcome" where
  "handle_cancel msg s = (case cancel_from_message msg of
       Inl e \<Rightarrow> (Some (WireError e), s)
     | Inr cancel \<Rightarrow> (None, s))"

subsection \<open>The peer loop\<close>

definition dispatch :: "(bytes \<Rightarrow> bytes) \<Rightarrow> peer_message \<Rightarrow> session \<Rightarrow> outcome" where
  "dispatch sha1 msg s = (case pm_id msg of
       Choke \<Rightarrow> handle_choke s
     | Unchoke \<Rightarrow> handle_unchoke s
     | Interested \<Rightarrow> handle_interested s
     | NotInterested \<Rightarrow> handle_not_interested s
     | Have \<Rightarrow> handle_have msg s
     | Bitfield \<Rightarrow> handle_bitfield msg s
     | Piece \<Rightarrow> handle_piece sha1 msg s
     | Request \<Rightarrow> handle_request msg s
     | Cancel \<Rightarrow> handle_cancel msg s
     | OtherId b \<Rightarrow> (None, s))"

definition handle_one :: "(bytes \<Rightarrow> bytes) \<Rightarrow> peer_message \<Rightarrow> session \<Rightarrow> outcome" where
  "handle_one sha1 msg s = and_then (dispatch sha1 msg s) fill_requests"

lemma recv_message_shorter: "recv_message input = Inr (msg, rest) \<Longrightarrow> length rest < length input"
  by (auto simp: recv_message_def recv_exact_def Let_def split: if_splits)

text \<open>The loop ends only with an exception; it is taken when the input is exhausted.\<close>

function run :: "(bytes \<Rightarrow> bytes) \<Rightarrow> bytes \<Rightarrow> session \<Rightarrow> conn_error \<times> session" where
  "run sha1 input s =
     (case recv_message input of
        Inl e \<Rightarrow> (e, s)
      | Inr (None, rest) \<Rightarrow> run sha1 rest s
      | Inr (Some msg, rest) \<Rightarrow>
          (case handle_one sha1 msg s of
             (Some e, s') \<Rightarrow> (e, s')
           | (None, s') \<Rightarrow> run sha1 rest s'))"
  by pat_completeness auto
termination
  by (relation "measure (\<lambda>(sha1, input, s). length input)") (auto dest: recv_message_shorter)

declare run.simps [simp del] request_loop.simps [simp del]

subsection \<open>Session invariant\<close>

text \<open>
  The in-flight buffer fits the piece it is for, and \<open>if_done\<close> counts the
  blocks that have been marked as received.
\<close>

definition in_flight_ok :: "piece_manager \<Rightarrow> in_flight \<Rightarrow> bool" where
  "in_flight_ok m p = (if_index p < mg_num_pieces m \<and> if_length p = piece_length (if_index p) m \<and>
     length (if_data p) = if_length p \<and> length (if_received p) = if_total p \<and>
     if_total p = (if_length p + BLOCK_SIZE - 1) div BLOCK_SIZE \<and>
     if_done p = length (filter id (if_received p)) \<and> if_next p \<le> if_length p)"

text \<open>
  The part of the session this connection is responsible for: its view of the
  peer, its buffer, and the claims. \<open>cl\<close> are the claims of others.
\<close>

definition session_ok :: "bool list \<Rightarrow> session \<Rightarrow> bool" where
  "session_ok cl s = (case s of (c, m) \<Rightarrow>
     geometry m \<and> mg_nominal m + BLOCK_SIZE \<le> 2 ^ 32 \<and>
     length (cn_bitfield c) = mg_num_pieces m \<and> (cn_exclusive c \<longrightarrow> cn_current c \<noteq> None) \<and>
     (\<forall>p. cn_current c = Some p \<longrightarrow> in_flight_ok m p \<and> if_done p \<le> if_total p) \<and>
     (\<forall>i<mg_num_pieces m. mg_claimed m ! i \<longrightarrow> cl ! i \<or> mg_have m ! i \<or>
        (cn_exclusive c \<and> (\<exists>p. cn_current c = Some p \<and> if_index p = i))) \<and>
     (\<forall>i<mg_num_pieces m. cl ! i \<longrightarrow> mg_claimed m ! i) \<and>
     (\<forall>p. cn_current c = Some p \<longrightarrow> cn_exclusive c \<longrightarrow> \<not> cl ! if_index p))"

definition same_torrent :: "piece_manager \<Rightarrow> piece_manager \<Rightarrow> bool" where
  "same_torrent m m' = (mg_num_pieces m' = mg_num_pieces m \<and> mg_nominal m' = mg_nominal m \<and>
     mg_total_length m' = mg_total_length m \<and> mg_hashes m' = mg_hashes m \<and> mg_writer m' = mg_writer m)"

lemma same_torrent_refl [simp]: "same_torrent m m" by (simp add: same_torrent_def)

lemma same_torrent_trans: "same_torrent m m1 \<Longrightarrow> same_torrent m1 m2 \<Longrightarrow> same_torrent m m2"
  by (simp add: same_torrent_def)

lemma same_torrent_updates [simp]:
  "same_torrent m (m'\<lparr>mg_claimed := x\<rparr>) = same_torrent m m'"
  "same_torrent m (abort_piece i m') = same_torrent m m'"
  by (simp_all add: same_torrent_def abort_piece_def)

lemma same_torrent_next: "next_needed bf m = (r, m') \<Longrightarrow> same_torrent m m'"
  by (auto simp: next_needed_def split: option.splits)

lemma piece_length_same: "same_torrent m m' \<Longrightarrow> piece_length i m' = piece_length i m"
  by (simp add: same_torrent_def piece_length_def)

lemma in_flight_ok_same: "same_torrent m m' \<Longrightarrow> in_flight_ok m' p = in_flight_ok m p"
  by (simp add: in_flight_ok_def piece_length_same) (simp add: same_torrent_def)

lemma complete_piece_frame:
  assumes "complete_piece sha1 i data m = (r, m')"
  shows "same_torrent m m'" "mg_claimed m' = mg_claimed m"
    "length (mg_have m) = mg_num_pieces m \<Longrightarrow> mg_have m ! j \<Longrightarrow> mg_have m' ! j"
    "length (mg_have m) = mg_num_pieces m \<Longrightarrow> r = Inr True \<Longrightarrow> mg_have m' ! i"
proof -
  obtain we wd where w: "write_piece (mg_writer m) i data (mg_disk m) = (we, wd)" by fastforce
  have frame: "same_torrent m m' \<and> mg_claimed m' = mg_claimed m \<and>
    (length (mg_have m) = mg_num_pieces m \<longrightarrow> (mg_have m ! j \<longrightarrow> mg_have m' ! j) \<and> (r = Inr True \<longrightarrow> mg_have m' ! i))" for j
    using assms w
    by (cases we) (auto simp: complete_piece_def same_torrent_def Let_def nth_list_update split: if_splits)
  then show "same_torrent m m'" "mg_claimed m' = mg_claimed m"
    "length (mg_have m) = mg_num_pieces m \<Longrightarrow> mg_have m ! j \<Longrightarrow> mg_have m' ! j"
    "length (mg_have m) = mg_num_pieces m \<Longrightarrow> r = Inr True \<Longrightarrow> mg_have m' ! i" by auto
qed

lemma geometry_complete:
  assumes "geometry m" "complete_piece sha1 i data m = (r, m')"
  shows "geometry m'"
proof -
  obtain we wd where w: "write_piece (mg_writer m) i data (mg_disk m) = (we, wd)" by fastforce
  have g: "geometry (m\<lparr>mg_disk := wd\<rparr>)" if "i < mg_num_pieces m" using disk_piece(1) [OF assms(1) that w] .
  show ?thesis
  proof (cases "i < mg_num_pieces m \<and> \<not> mg_have m ! i \<and> sha1 data = mg_hashes m ! i")
    case True
    then show ?thesis using assms(2) w g
      by (cases we) (auto simp: complete_piece_def geometry_def Let_def)
  next
    case False
    then show ?thesis using assms by (auto simp: complete_piece_def geometry_def split: if_splits)
  qed
qed

text \<open>Sending changes only the record of what was sent.\<close>

lemma send_bytes_frame:
  "send_bytes wire s = (r, s') \<Longrightarrow> snd s' = snd s \<and>
     fst s' = (fst s)\<lparr>cn_sent := cn_sent (fst s'), cn_send_ok := cn_send_ok (fst s')\<rparr>"
  by (cases s) (auto simp: send_bytes_def split: if_splits)

lemma send_message_frame:
  "send_message msg s = (r, s') \<Longrightarrow> snd s' = snd s \<and>
     fst s' = (fst s)\<lparr>cn_sent := cn_sent (fst s'), cn_send_ok := cn_send_ok (fst s')\<rparr>"
  by (auto simp: send_message_def dest: send_bytes_frame split: sum.splits)

lemma session_ok_sent: "session_ok cl (c\<lparr>cn_sent := x, cn_send_ok := y\<rparr>, m) = session_ok cl (c, m)"
  by (simp add: session_ok_def)

lemma session_ok_flags [simp]:
  "session_ok cl (c\<lparr>cn_am_interested := b\<rparr>, m) = session_ok cl (c, m)"
  "session_ok cl (c\<lparr>cn_am_choking := b\<rparr>, m) = session_ok cl (c, m)"
  "session_ok cl (c\<lparr>cn_peer_choking := b\<rparr>, m) = session_ok cl (c, m)"
  "session_ok cl (c\<lparr>cn_peer_interested := b\<rparr>, m) = session_ok cl (c, m)"
  "session_ok cl (c\<lparr>cn_connected := b\<rparr>, m) = session_ok cl (c, m)"
  "session_ok cl (c\<lparr>cn_uploaded := u, cn_blocks_uploaded := v\<rparr>, m) = session_ok cl (c, m)"
  by (simp_all add: session_ok_def)

lemma session_ok_send:
  "session_ok cl s \<Longrightarrow> send_message msg s = (r, s') \<Longrightarrow> session_ok cl s'"
  using send_message_frame [of msg s r s'] session_ok_sent [where c = "fst s" and m = "snd s"]
  by (metis prod.collapse)

lemma session_ok_and_then:
  assumes "\<And>r s'. a = (r, s') \<Longrightarrow> session_ok cl s'" "\<And>s r s'. session_ok cl s \<Longrightarrow> f s = (r, s') \<Longrightarrow> session_ok cl s'"
    "and_then a f = (r, s')"
  shows "session_ok cl s'"
  using assms by (cases a; cases "fst a") (auto simp: and_then_def)

lemma session_ok_interested:
  assumes "session_ok cl s" "send_interested s = (r, s')" shows "session_ok cl s'"
proof (cases "cn_am_interested (fst s)")
  case False
  show ?thesis
    by (rule session_ok_and_then [OF _ _ assms(2) [unfolded send_interested_def if_not_P [OF False]]])
      (use assms(1) session_ok_send in auto)
qed (use assms in \<open>simp add: send_interested_def\<close>)

lemma session_ok_unchoke:
  assumes "session_ok cl s" "send_unchoke s = (r, s')" shows "session_ok cl s'"
proof (cases "cn_am_choking (fst s)")
  case True
  then have eq: "and_then (send_message \<lparr>pm_id = Unchoke, pm_payload = []\<rparr> s)
             (\<lambda>(c, m). (None, (c\<lparr>cn_am_choking := False\<rparr>, m))) = (r, s')"
    using assms(2) by (simp add: send_unchoke_def)
  show ?thesis by (rule session_ok_and_then [OF _ _ eq]) (use assms(1) session_ok_send in auto)
qed (use assms in \<open>simp add: send_unchoke_def\<close>)

subsection \<open>Requests keep the invariant\<close>

lemma BLOCK_SIZE_pos [simp]: "0 < BLOCK_SIZE" by (simp add: BLOCK_SIZE_def)

lemma piece_length_bound:
  assumes "geometry m" "i < mg_num_pieces m" "mg_nominal m + BLOCK_SIZE \<le> 2 ^ 32"
  shows "0 < piece_length i m" "piece_length i m + BLOCK_SIZE \<le> 2 ^ 32"
proof -
  have "dw_ok (mg_writer m)" using assms(1) by (simp add: geometry_def files_ok_def)
  then have "0 < piece_bytes (mg_writer m) i" "piece_bytes (mg_writer m) i \<le> mg_nominal m"
    using geometry_range [OF assms(1,2)] assms(1)
    by (simp_all add: piece_bytes_def in_range_def geometry_def dw_ok_def)
  then show "0 < piece_length i m" "piece_length i m + BLOCK_SIZE \<le> 2 ^ 32"
    using assms(3) by (simp_all add: piece_length_eq [OF assms(1,2)])
qed

lemma new_in_flight_ok:
  assumes "geometry m" "i < mg_num_pieces m" "mg_nominal m + BLOCK_SIZE \<le> 2 ^ 32"
  shows "in_flight_ok m (new_in_flight i (piece_length i m)) \<and> if_done (new_in_flight i (piece_length i m)) = 0"
proof -
  have "u32 (piece_length i m + BLOCK_SIZE - 1) = piece_length i m + BLOCK_SIZE - 1"
    using piece_length_bound [OF assms] by (intro u32_id) linarith
  then show ?thesis using assms(2) by (simp add: in_flight_ok_def new_in_flight_def Let_def)
qed

lemma session_ok_current:
  assumes "session_ok cl (c, m)" "cn_current c = Some p"
  shows "geometry m" "mg_nominal m + BLOCK_SIZE \<le> 2 ^ 32" "in_flight_ok m p" "if_done p \<le> if_total p"
  using assms by (simp_all add: session_ok_def)

text \<open>Replacing the buffer by another for the same piece.\<close>

lemma session_ok_put:
  assumes "session_ok cl (c, m)" "cn_current c = Some p" "in_flight_ok m q" "if_done q \<le> if_total q" "if_index q = if_index p"
  shows "session_ok cl (c\<lparr>cn_current := Some q\<rparr>, m)"
  using assms by (simp add: session_ok_def)

lemma requested_ok:
  assumes "in_flight_ok m p" "if_next p < if_length p" "geometry m" "mg_nominal m + BLOCK_SIZE \<le> 2 ^ 32"
  shows "in_flight_ok m (requested p)" "if_next (requested p) = if_next p + block_len p"
proof -
  have "if_next p + block_len p \<le> if_length p" using assms(2) by (simp add: block_len_def)
  moreover have "if_length p < 2 ^ 32"
    using piece_length_bound(2) [OF assms(3) _ assms(4), of "if_index p"] assms(1)
    by (simp add: in_flight_ok_def BLOCK_SIZE_def)
  ultimately show "in_flight_ok m (requested p)" "if_next (requested p) = if_next p + block_len p"
    using assms(1) by (simp_all add: in_flight_ok_def requested_def u32_id)
qed

lemma send_current: "send_message msg s = (e, s') \<Longrightarrow> cn_current (fst s') = cn_current (fst s) \<and> snd s' = snd s"
  by (cases s) (auto simp: send_message_def send_bytes_def split: sum.splits if_splits)

lemma session_ok_request_loop:
  assumes "session_ok cl s" "cn_current (fst s) = Some q" "if_index q = if_index p"
    "in_flight_ok (snd s) p" "if_done p \<le> if_total p" "request_loop p s = (r, s')"
  shows "session_ok cl s'"
  using assms
proof (induction p s arbitrary: q rule: request_loop.induct)
  case (1 p c m)
  let ?s = "(c\<lparr>cn_current := Some p\<rparr>, m)"
  have ok: "session_ok cl ?s" using session_ok_put [of cl c m q p] 1(2-6) by simp
  show ?case
  proof (cases "if_requests p < MAX_PIPELINE \<and> if_next p < if_length p")
    case False
    then show ?thesis using ok 1(7) by (auto simp: request_loop.simps)
  next
    case True
    obtain e s1 where s1: "send_message (request_to_message (next_request p)) ?s = (e, s1)" by (rule prod.exhaust)
    have ok1: "session_ok cl s1" using session_ok_send [OF ok s1] .
    have frame: "cn_current (fst s1) = Some p" "snd s1 = m" using send_current [OF s1] by simp_all
    have nxt: "in_flight_ok m (requested p)"
      using requested_ok(1) 1(5) True ok by (simp add: session_ok_def)
    show ?thesis
    proof (cases e)
      case (Some x)
      then show ?thesis using 1(7) True s1 ok1 by (simp add: request_loop.simps [of p])
    next
      case None
      then have "request_loop (requested p) s1 = (r, s')"
        using 1(7) True s1 by (simp add: request_loop.simps [of p])
      then show ?thesis
        using 1(1) [OF True s1 [symmetric] None ok1 frame(1)] frame(2) nxt 1(6) by (simp add: requested_def)
    qed
  qed
qed

lemma session_ok_drop:
  assumes "session_ok cl (c, m)" "\<forall>p. cn_current c = Some p \<longrightarrow> cn_exclusive c \<longrightarrow> mg_have m ! if_index p \<or> \<not> mg_claimed m ! if_index p"
  shows "session_ok cl (c\<lparr>cn_current := None, cn_exclusive := False\<rparr>, m)"
  using assms by (auto simp: session_ok_def)

lemma session_ok_pick:
  assumes "session_ok cl (c, m)" "cn_current c = None"
  shows "session_ok cl (pick_piece (c, m))"
proof -
  have g: "geometry m" "mg_nominal m + BLOCK_SIZE \<le> 2 ^ 32" "\<not> cn_exclusive c"
    using assms by (auto simp: session_ok_def)
  have len: "length (mg_claimed m) = mg_num_pieces m" using g(1) by (simp add: geometry_def)
  obtain r m' where n: "next_needed (cn_bitfield c) m = (r, m')" by fastforce
  show ?thesis
  proof (cases "claim_loop (cn_bitfield c) [0..<mg_num_pieces m] m")
    case (Some i)
    let ?m = "m\<lparr>mg_claimed := (mg_claimed m)[i := True]\<rparr>"
    have i: "i < mg_num_pieces m" "\<not> mg_claimed m ! i" using claim_loop_Some [OF Some] by simp_all
    have "geometry ?m" using g(1) by (simp add: geometry_def)
    then have "in_flight_ok ?m (new_in_flight i (piece_length i ?m)) \<and> if_done (new_in_flight i (piece_length i ?m)) = 0"
      using new_in_flight_ok [of ?m i] i g(2) by simp
    moreover have "if_index (new_in_flight i k) = i" for k by (simp add: new_in_flight_def Let_def)
    ultimately show ?thesis using assms g i len \<open>geometry ?m\<close> Some
      by (auto simp: pick_piece_def next_needed_def session_ok_def nth_list_update)
  next
    case None
    then show ?thesis
    proof (cases "endgame_loop (cn_bitfield c) [0..<mg_num_pieces m] m")
      case (Some i)
      then have "i < mg_num_pieces m" using endgame_loop_Some [OF Some] by simp
      then show ?thesis using assms new_in_flight_ok [OF g(1) _ g(2), of i] g None Some
        by (auto simp: pick_piece_def next_needed_def session_ok_def)
    qed (use assms None in \<open>simp add: pick_piece_def next_needed_def\<close>)
  qed
qed

lemma session_ok_fill:
  assumes "session_ok cl s" "fill_requests s = (r, s')"
  shows "session_ok cl s'"
proof -
  obtain c m where s: "s = (c, m)" by fastforce
  show ?thesis
  proof (cases "cn_peer_choking c \<or> \<not> cn_am_interested c")
    case True
    then show ?thesis using assms by (cases "cn_peer_choking c") (auto simp: fill_requests_def s)
  next
    case False
    define c1 where "c1 = (case cn_current c of
        Some p \<Rightarrow> if have_piece (if_index p) m then c\<lparr>cn_current := None, cn_exclusive := False\<rparr> else c | None \<Rightarrow> c)"
    have ok1: "session_ok cl (c1, m)"
      using assms(1) session_ok_drop [of cl c m] unfolding s
      by (auto simp: c1_def have_piece_def split: option.splits)
    define s2 where "s2 = (if cn_current c1 = None then pick_piece (c1, m) else (c1, m))"
    obtain c2 m2 where s2: "s2 = (c2, m2)" by fastforce
    have ok2: "session_ok cl (c2, m2)"
      using session_ok_pick [OF ok1] ok1 s2 by (auto simp: s2_def split: if_splits)
    have eq: "(case cn_current c2 of None \<Rightarrow> (None, (c2, m2)) | Some p \<Rightarrow> request_loop p (c2, m2)) = (r, s')"
      using assms(2) False s2 by (simp add: fill_requests_def s c1_def [symmetric] s2_def [symmetric] Let_def)
    show ?thesis
    proof (cases "cn_current c2")
      case None
      then show ?thesis using eq ok2 by auto
    next
      case (Some p)
      then show ?thesis
        using session_ok_request_loop [OF ok2, of p p r s'] session_ok_current(3,4) [OF ok2 Some] eq by simp
    qed
  qed
qed

subsection \<open>Handlers keep the invariant\<close>

lemma session_ok_abort:
  assumes "session_ok cl (c, m)" "cn_current c = Some p"
  shows "session_ok cl (c\<lparr>cn_current := None, cn_exclusive := False\<rparr>, if cn_exclusive c then abort_piece (if_index p) m else m)"
proof -
  have g: "geometry m" "if_index p < mg_num_pieces m" using assms by (auto simp: session_ok_def in_flight_ok_def)
  have "geometry (abort_piece (if_index p) m)" using g(1) by (simp add: abort_piece_def geometry_def)
  then show ?thesis using assms g by (auto simp: session_ok_def abort_piece_def geometry_def nth_list_update)
qed

lemma session_ok_choke:
  assumes "session_ok cl s" "handle_choke s = (r, s')"
  shows "session_ok cl s'"
proof -
  obtain c m where s: "s = (c, m)" by (rule prod.exhaust)
  have ok: "session_ok cl (c\<lparr>cn_peer_choking := True\<rparr>, m)" using assms(1) s by simp
  show ?thesis
  proof (cases "cn_current c")
    case None
    then show ?thesis using assms(2) ok by (auto simp: handle_choke_def s)
  next
    case (Some p)
    then show ?thesis using assms(2) session_ok_abort [OF ok, of p] by (auto simp: handle_choke_def s Let_def)
  qed
qed

lemma length_bitfield_loop: "length (snd (bitfield_loop bf is bits)) = length bits"
  by (induction bf "is" bits rule: bitfield_loop.induct) (auto split: sum.splits)

lemma session_ok_bits:
  "session_ok cl (c, m) \<Longrightarrow> length bits = mg_num_pieces m \<Longrightarrow> session_ok cl (c\<lparr>cn_bitfield := bits\<rparr>, m)"
  by (simp add: session_ok_def)

lemma session_ok_have:
  assumes "session_ok cl s" "handle_have msg s = (r, s')"
  shows "session_ok cl s'"
proof -
  obtain c m where s: "s = (c, m)" by fastforce
  have "length (cn_bitfield c) = mg_num_pieces m" using assms(1) by (simp add: s session_ok_def)
  then have ok: "session_ok cl (c\<lparr>cn_bitfield := (cn_bitfield c)[i := True]\<rparr>, m)" for i
    using assms(1) session_ok_bits s by simp
  show ?thesis using assms ok session_ok_interested [OF ok]
    by (auto simp: handle_have_def s Let_def split: sum.splits if_splits)
qed

lemma session_ok_bitfield:
  assumes "session_ok cl s" "handle_bitfield msg s = (r, s')"
  shows "session_ok cl s'"
proof -
  obtain c m where s: "s = (c, m)" by fastforce
  have len: "length (cn_bitfield c) = mg_num_pieces m" using assms(1) by (simp add: s session_ok_def)
  have ok: "session_ok cl (c\<lparr>cn_bitfield := bits\<rparr>, m)" if "bitfield_loop bf [0..<mg_num_pieces m] (cn_bitfield c) = (e, bits)" for e bits bf
    using assms(1) session_ok_bits len length_bitfield_loop [of bf "[0..<mg_num_pieces m]" "cn_bitfield c"] that s by simp
  show ?thesis using assms ok session_ok_interested [OF ok]
    by (auto simp: handle_bitfield_def s Let_def split: sum.splits if_splits prod.splits option.splits)
qed

lemma session_ok_request:
  assumes "session_ok cl s" "handle_request msg s = (r, s')"
  shows "session_ok cl s'"
proof -
  obtain c m where s: "s = (c, m)" by fastforce
  show ?thesis
    using assms(2) unfolding handle_request_def s
    by (auto split: sum.splits if_splits intro: assms(1) [unfolded s]
        elim!: session_ok_and_then [rotated 2] dest: session_ok_send [OF assms(1) [unfolded s]])
qed

lemma count_mark:
  "k < length bs \<Longrightarrow> \<not> bs ! k \<Longrightarrow> length (filter id (bs[k := True])) = Suc (length (filter id bs))"
proof (induction bs arbitrary: k)
  case (Cons b bs)
  then show ?case by (cases k) auto
qed simp

lemma put_block_ok:
  assumes "in_flight_ok m p" "if_total p < 2 ^ 32" "at + length block \<le> length (if_data p)"
    "at div BLOCK_SIZE < length (if_received p)" "\<not> if_received p ! (at div BLOCK_SIZE)"
  shows "in_flight_ok m (put_block at block p)" "if_done (put_block at block p) = Suc (if_done p)"
proof -
  have "Suc (if_done p) \<le> if_total p"
    using count_mark [OF assms(4,5)] length_filter_le [of id "(if_received p)[at div BLOCK_SIZE := True]"] assms(1)
    by (simp add: in_flight_ok_def)
  then show "if_done (put_block at block p) = Suc (if_done p)" using assms(2) by (simp add: put_block_def u32_id)
  then show "in_flight_ok m (put_block at block p)"
    using assms(1,3) count_mark [OF assms(4,5)] by (simp add: in_flight_ok_def put_block_def)
qed

lemma in_flight_done: "in_flight_ok m p \<Longrightarrow> if_done p \<le> if_total p"
  using length_filter_le [of id "if_received p"] by (simp add: in_flight_ok_def)

lemma in_flight_total:
  assumes "in_flight_ok m p" "geometry m" "mg_nominal m + BLOCK_SIZE \<le> 2 ^ 32"
  shows "if_total p < 2 ^ 32" "0 < if_total p"
  using piece_length_bound [OF assms(2) _ assms(3), of "if_index p"] assms(1)
  by (simp_all add: in_flight_ok_def BLOCK_SIZE_def)

lemma session_ok_complete:
  assumes "session_ok cl (c, m)" "complete_piece sha1 i data m = (r, m')"
  shows "session_ok cl (c, m')"
proof -
  have "length (mg_have m) = mg_num_pieces m" using assms(1) by (simp add: session_ok_def geometry_def)
  note frame = complete_piece_frame(1,2) [OF assms(2)] complete_piece_frame(3) [OF assms(2) this]
  have "geometry m'" using geometry_complete assms by (auto simp: session_ok_def)
  then show ?thesis using assms(1) frame in_flight_ok_same [OF frame(1)]
    by (auto simp: session_ok_def same_torrent_def)
qed

lemma session_ok_assembled:
  assumes "session_ok cl (c, m)" "cn_current c = Some p" "complete_piece sha1 (if_index p) data m = (Inr ok, m')"
  shows "session_ok cl (c\<lparr>cn_current := None, cn_exclusive := False\<rparr>,
           if \<not> ok \<and> cn_exclusive c then abort_piece (if_index p) m' else m')"
proof (cases ok)
  case True
  have "length (mg_have m) = mg_num_pieces m" using assms(1) by (simp add: session_ok_def geometry_def)
  then have "mg_have m' ! if_index p" using complete_piece_frame(4) [OF assms(3)] True by simp
  then show ?thesis using session_ok_drop [OF session_ok_complete [OF assms(1,3)]] assms(2) True by simp
next
  case False
  then show ?thesis using session_ok_abort [OF session_ok_complete [OF assms(1,3)] assms(2)] by simp
qed

lemma session_ok_piece:
  assumes "session_ok cl s" "handle_piece sha1 msg s = (r, s')"
  shows "session_ok cl s'"
proof -
  obtain c m where s: "s = (c, m)" by fastforce
  have base: "session_ok cl (c, m)" using assms(1) s by simp
  show ?thesis
  proof (cases "piece_from_message msg")
    case (Inl e)
    then show ?thesis using assms(2) base by (auto simp: handle_piece_def s)
  next
    case (Inr b)
    show ?thesis
    proof (cases "\<exists>p. cn_current c = Some p \<and> unat (pc_index b) = if_index p")
      case False
      then show ?thesis using assms(2) base Inr by (auto simp: handle_piece_def s split: option.splits)
    next
      case True
      then obtain p where p: "cn_current c = Some p" "unat (pc_index b) = if_index p" by auto
      note cur = session_ok_current [OF base p(1)]
      let ?at = "unat (pc_begin b)"
      let ?p = "p\<lparr>if_requests := u32_sub (if_requests p) 1\<rparr>"
      let ?q = "put_block ?at (pc_block b) ?p"
      have okp: "in_flight_ok m ?p" using cur(3) by (simp add: in_flight_ok_def)
      have ok1: "session_ok cl (c\<lparr>cn_current := Some ?p\<rparr>, m)"
        using session_ok_put [OF base p(1) okp] cur(4) by simp
      show ?thesis
      proof (cases "length (if_data p) < ?at + length (pc_block b) \<or> length (if_received p) \<le> ?at div BLOCK_SIZE
          \<or> if_received p ! (?at div BLOCK_SIZE)")
        case True
        then show ?thesis using assms(2) ok1 Inr p by (auto simp: handle_piece_def s Let_def split: if_splits)
      next
        case False
        have okq: "in_flight_ok m ?q"
          using put_block_ok(1) [OF okp, of ?at "pc_block b"] in_flight_total(1) [OF cur(3,1,2)] False by simp
        let ?c = "c\<lparr>cn_downloaded := u64 (cn_downloaded c + length (pc_block b)), cn_current := Some ?q\<rparr>"
        have idx: "if_index ?q = if_index p" by (simp add: put_block_def)
        have "session_ok cl (c\<lparr>cn_current := Some ?q\<rparr>, m)"
          using session_ok_put [OF base p(1) okq in_flight_done [OF okq]] idx by simp
        then have ok2: "session_ok cl (?c, m)" by (simp add: session_ok_def)
        obtain cr m' where cr: "complete_piece sha1 (if_index p) (if_data ?q) m = (cr, m')" by (rule prod.exhaust)
        show ?thesis
        proof (cases "if_done ?q < if_total ?q")
          case True
          then show ?thesis using assms(2) ok2 Inr p False by (simp add: handle_piece_def s Let_def)
        next
          case full: False
          then show ?thesis
            using assms(2) Inr p False cr idx session_ok_complete [OF ok2 cr]
              session_ok_assembled [OF ok2, of ?q sha1 "if_data ?q" _ m']
            by (cases cr) (auto simp: handle_piece_def s Let_def)
        qed
      qed
    qed
  qed
qed

lemma session_ok_dispatch:
  assumes "session_ok cl s" "dispatch sha1 msg s = (r, s')" shows "session_ok cl s'"
proof (cases "pm_id msg")
  case Interested
  then show ?thesis using assms session_ok_unchoke [of cl "((fst s)\<lparr>cn_peer_interested := True\<rparr>, snd s)" r s']
    by (auto simp: dispatch_def handle_interested_def split: prod.splits)
next
  case Cancel
  then show ?thesis using assms by (auto simp: dispatch_def handle_cancel_def split: sum.splits)
qed (use assms session_ok_choke [OF assms(1)] session_ok_have [OF assms(1)] session_ok_bitfield [OF assms(1)]
      session_ok_piece [OF assms(1)] session_ok_request [OF assms(1)] in
    \<open>auto simp: dispatch_def handle_unchoke_def handle_not_interested_def split: prod.splits\<close>)

lemma session_ok_handle_one:
  assumes "session_ok cl s" "handle_one sha1 msg s = (r, s')" shows "session_ok cl s'"
  by (rule session_ok_and_then [OF _ _ assms(2) [unfolded handle_one_def]])
    (use session_ok_dispatch [OF assms(1)] session_ok_fill in blast)+

lemma session_ok_run:
  "session_ok cl s \<Longrightarrow> session_ok cl (snd (run sha1 input s))"
proof (induction sha1 input s rule: run.induct)
  case (1 sha1 input s)
  show ?case
  proof (cases "recv_message input")
    case (Inl e)
    then show ?thesis using 1(3) by (simp add: run.simps [of sha1 input])
  next
    case (Inr x)
    obtain om rest where x: "x = (om, rest)" by fastforce
    show ?thesis
    proof (cases om)
      case None
      then show ?thesis using 1(1) 1(3) Inr x by (simp add: run.simps [of sha1 input])
    next
      case (Some msg)
      obtain e s1 where h: "handle_one sha1 msg s = (e, s1)" by (rule prod.exhaust)
      have ok: "session_ok cl s1" using session_ok_handle_one [OF 1(3) h] .
      show ?thesis using 1(2) [OF Inr x [symmetric] Some h [symmetric] _ ok] ok Inr x Some h
        by (cases e) (simp_all add: run.simps [of sha1 input])
    qed
  qed
qed

subsection \<open>What a session keeps of the manager\<close>

text \<open>
  The interface between a connection and the manager it shares with the others:
  whatever claiming, giving up and handing over a piece keep, a whole session
  keeps, for every input. \<open>J\<close> is what is left when the hand-over itself fails,
  which ends the session.
\<close>

locale manager_contract =
  fixes sha1 :: "bytes \<Rightarrow> bytes" and I :: "piece_manager \<Rightarrow> bool" and J :: "manager_error \<Rightarrow> piece_manager \<Rightarrow> bool"
  assumes claims: "I m \<Longrightarrow> I (snd (next_needed bf m))"
    and aborts: "I m \<Longrightarrow> I (abort_piece i m)"
    and completes: "I m \<Longrightarrow> complete_piece sha1 i data m = (Inr ok, m') \<Longrightarrow> I m'"
    and fails: "I m \<Longrightarrow> complete_piece sha1 i data m = (Inl e, m') \<Longrightarrow> J e m'"
begin

definition keeps :: "outcome \<Rightarrow> bool" where
  "keeps r = (case r of (Some (ManagerError e), s) \<Rightarrow> J e (snd s) | (_, s) \<Rightarrow> I (snd s))"

lemma keeps_result [simp]:
  "keeps (None, s) = I (snd s)" "keeps (Some (WireError w), s) = I (snd s)"
  "keeps (Some HaveOutOfRange, s) = I (snd s)" "keeps (Some BitfieldSizeMismatch, s) = I (snd s)"
  by (simp_all add: keeps_def)

lemma keepsD: "keeps (r, s) \<Longrightarrow> I (snd s) \<or> (\<exists>e. r = Some (ManagerError e) \<and> J e (snd s))"
  by (auto simp: keeps_def split: option.splits conn_error.splits)

lemma keeps_and_then:
  assumes "keeps r" "\<And>s. I (snd s) \<Longrightarrow> keeps (f s)"
  shows "keeps (and_then r f)"
proof -
  obtain e s where r: "r = (e, s)" by (rule prod.exhaust)
  show ?thesis using assms r by (cases e) (simp_all add: and_then_def)
qed

lemma keeps_send: "I (snd s) \<Longrightarrow> keeps (send_message msg s)"
  by (auto simp: keeps_def send_message_def send_bytes_def split: sum.splits prod.splits)

lemma keeps_interested: "I (snd s) \<Longrightarrow> keeps (send_interested s)"
  by (auto simp: send_interested_def intro!: keeps_and_then keeps_send)

lemma keeps_unchoke: "I (snd s) \<Longrightarrow> keeps (send_unchoke s)"
  by (auto simp: send_unchoke_def intro!: keeps_and_then keeps_send)

lemma keeps_request_loop: "I (snd s) \<Longrightarrow> keeps (request_loop p s)"
proof (induction p s rule: request_loop.induct)
  case (1 p c m)
  let ?r = "send_message (request_to_message (next_request p)) (c\<lparr>cn_current := Some p\<rparr>, m)"
  have sent: "keeps ?r" by (rule keeps_send) (use 1(2) in simp)
  obtain e s1 where r: "?r = (e, s1)" by (rule prod.exhaust)
  show ?case
  proof (cases e)
    case None
    then show ?thesis using 1(1) [OF _ r [symmetric] None] 1(2) sent r by (simp add: request_loop.simps [of p])
  next
    case (Some x)
    then show ?thesis using 1(2) sent r by (simp add: request_loop.simps [of p])
  qed
qed

lemma keeps_fill:
  assumes "I (snd s)"
  shows "keeps (fill_requests s)"
proof -
  have pick: "I m'" if "I m" "pick_piece (c, m) = (c', m')" for c m c' m'
    using claims [OF that(1), of "cn_bitfield c"] that(2)
    by (auto simp: pick_piece_def split: prod.splits option.splits)
  show ?thesis using assms
    by (auto simp: fill_requests_def Let_def intro!: keeps_request_loop intro: pick
        split: prod.splits option.splits if_splits)
qed

lemma keeps_piece:
  assumes "I (snd s)"
  shows "keeps (handle_piece sha1 msg s)"
  using assms completes fails
  by (auto simp: handle_piece_def keeps_def Let_def intro!: aborts split: prod.splits sum.splits option.splits)

lemma keeps_dispatch: "I (snd s) \<Longrightarrow> keeps (dispatch sha1 msg s)"
  by (cases "pm_id msg")
    (auto simp: dispatch_def handle_choke_def handle_unchoke_def handle_interested_def handle_not_interested_def
      handle_have_def handle_bitfield_def handle_request_def handle_cancel_def Let_def keeps_piece
      intro!: keeps_unchoke keeps_interested keeps_and_then keeps_send aborts
      split: prod.splits sum.splits option.splits)

lemma keeps_run: "I (snd s) \<Longrightarrow> keeps (map_prod Some id (run sha1 input s))"
proof (induction "length input" arbitrary: input s rule: less_induct)
  case less
  show ?case
  proof (cases "recv_message input")
    case (Inl e)
    moreover have "\<not> (\<exists>x. e = ManagerError x)" using Inl
      by (auto simp: recv_message_def recv_exact_def Let_def split: if_splits)
    ultimately show ?thesis using less(2) by (cases e) (auto simp: run.simps [of sha1 input] keeps_def)
  next
    case (Inr x)
    obtain om rest where x: "x = (om, rest)" by fastforce
    then have shorter: "length rest < length input" using recv_message_shorter Inr by simp
    show ?thesis
    proof (cases om)
      case None
      then show ?thesis using less(1) [OF shorter] less(2) Inr x by (simp add: run.simps [of sha1 input])
    next
      case (Some msg)
      obtain e s1 where h: "handle_one sha1 msg s = (e, s1)" by (rule prod.exhaust)
      have "keeps (e, s1)" unfolding h [symmetric] handle_one_def
        by (intro keeps_and_then keeps_dispatch keeps_fill less(2))
      then show ?thesis using less(1) [OF shorter] Inr x Some h
        by (cases e) (simp_all add: run.simps [of sha1 input])
    qed
  qed
qed

end

text \<open>
  The two contracts of the model. A piece that is held stays held and the
  torrent stays the same; the pieces that are held, apart from those lost to a
  failed write, are verified.
\<close>

definition extends :: "piece_manager \<Rightarrow> piece_manager \<Rightarrow> bool" where
  "extends m m' = (same_torrent m m' \<and> length (mg_have m') = mg_num_pieces m \<and> held m \<subseteq> held m')"

lemma extends_complete:
  assumes "extends m0 m" "complete_piece sha1 i data m = (r, m')"
  shows "extends m0 m'"
proof -
  have eq: "mg_num_pieces m = mg_num_pieces m0" "length (mg_have m) = mg_num_pieces m"
    using assms(1) by (simp_all add: extends_def same_torrent_def)
  note frame = complete_piece_frame [OF assms(2)]
  have "length (mg_have m') = length (mg_have m)"
    using assms(2) by (auto simp: complete_piece_def Let_def split: if_splits prod.splits option.splits)
  then show ?thesis
    using assms(1) eq frame(1) frame(3) [OF eq(2)] same_torrent_trans [of m0 m m']
    by (auto simp: extends_def held_def same_torrent_def)
qed

interpretation extending: manager_contract sha1 "extends m0" "\<lambda>e. extends m0" for sha1 m0
proof
  show "extends m0 (snd (next_needed bf m))" if "extends m0 m" for m bf
    using that by (auto simp: next_needed_def extends_def held_def split: option.splits)
  show "extends m0 (abort_piece i m)" if "extends m0 m" for m i
    using that by (simp add: extends_def held_def abort_piece_def)
qed (rule extends_complete, assumption+)+

interpretation verifying: manager_contract sha1 "mg_inv sha1 lost"
  "\<lambda>e m. \<exists>i. mg_inv sha1 (insert i lost) m \<or> mg_inv sha1 lost m" for sha1 lost
proof
  show "mg_inv sha1 lost m'" if "mg_inv sha1 lost m" "complete_piece sha1 i data m = (Inr ok, m')" for m i data ok m'
    using complete_piece_inv [OF that] by auto
  show "\<exists>i. mg_inv sha1 (insert i lost) m' \<or> mg_inv sha1 lost m'"
    if "mg_inv sha1 lost m" "complete_piece sha1 i data m = (Inl e, m')" for m i data e m'
    using complete_piece_inv [OF that] by auto
qed (auto intro: next_needed_inv abort_piece_inv)

end
