(* ===== verification/Peer_Session.thy ===== *)
theory Peer_Session
  imports Peer_Connection
begin

section \<open>Whole peer sessions\<close>

text \<open>
  Properties of a connection from its constructor to its destructor
  (\<^verbatim>\<open>src/peer_wire/peer_connection.cpp\<close>), for every byte sequence the peer may
  send and every point at which the socket may fail: what the session leaves of
  the shared piece manager, which blocks it serves, which requests it sends and
  how the blocks of a piece are assembled.
\<close>

subsection \<open>From the handshake to the destructor\<close>

lemma session_ok_handshake:
  assumes "session_ok cl s" "do_handshake input s = ((r, s'), rest)" shows "session_ok cl s'"
proof -
  have ok: "session_ok cl s1" if "send_bytes wire s = (r1, s1)" for wire r1 s1
    using send_bytes_frame [OF that] session_ok_sent [where c = "fst s" and m = "snd s"] assms(1)
    by (metis prod.collapse)
  show ?thesis using assms(2) ok
    by (auto simp: do_handshake_def Let_def split: prod.splits option.splits sum.splits if_splits)
qed

lemma session_ok_connect:
  assumes "session_ok cl s" "connect input s = ((r, s'), rest)" shows "session_ok cl s'"
proof -
  obtain r1 s1 rest1 where h: "do_handshake input s = ((r1, s1), rest1)" by (metis prod.exhaust)
  obtain c m where s1: "s1 = (c, m)" by (rule prod.exhaust)
  have ok1: "session_ok cl (c\<lparr>cn_connected := True\<rparr>, m)" using session_ok_handshake [OF assms(1) h] s1 by simp
  have "session_ok cl s'" if "send_bitfield (c\<lparr>cn_connected := True\<rparr>, m) = (r, s')"
    using that ok1 session_ok_send [OF ok1] by (auto simp: send_bitfield_def Let_def split: if_splits)
  then show ?thesis using assms(2) session_ok_handshake [OF assms(1) h] h s1
    by (auto simp: connect_def split: option.splits)
qed

lemma session_ok_new:
  assumes "geometry m" "mg_nominal m + BLOCK_SIZE \<le> 2 ^ 32"
  shows "session_ok (mg_claimed m) (cn_new h my_id k m, m)"
  using assms by (simp add: session_ok_def cn_new_def)

lemma session_ok_close:
  assumes "session_ok cl s" "i < mg_num_pieces (snd s)"
  shows "cl ! i \<Longrightarrow> mg_claimed (snd (cn_close s)) ! i"
    "mg_claimed (snd (cn_close s)) ! i \<Longrightarrow> cl ! i \<or> mg_have (snd (cn_close s)) ! i"
proof -
  obtain c m where s: "s = (c, m)" by (rule prod.exhaust)
  have "length (mg_claimed m) = mg_num_pieces m" using assms(1) by (simp add: s session_ok_def geometry_def)
  then show "cl ! i \<Longrightarrow> mg_claimed (snd (cn_close s)) ! i"
    "mg_claimed (snd (cn_close s)) ! i \<Longrightarrow> cl ! i \<or> mg_have (snd (cn_close s)) ! i"
    using assms
    by (cases "cn_exclusive c"; auto simp: s cn_close_def session_ok_def abort_piece_def nth_list_update
        split: option.splits if_splits)+
qed

lemma connect_manager: "connect input s = ((r, s'), rest) \<Longrightarrow> snd s' = snd s"
  by (auto simp: connect_def do_handshake_def send_bitfield_def Let_def
      dest!: send_message_frame send_bytes_frame split: prod.splits option.splits sum.splits if_splits)

lemma run_extends:
  assumes "length (mg_have (snd s)) = mg_num_pieces (snd s)" "run sha1 input s = (e, s')"
  shows "extends (snd s) (snd s')"
proof -
  have "extends (snd s) (snd s)" using assms(1) by (simp add: extends_def)
  from extending.keepsD [OF extending.keeps_run [OF this, of sha1 input, unfolded assms(2) map_prod_simp]]
  show ?thesis by auto
qed

lemma serialize_piece:
  assumes "length (pc_block x) \<le> BLOCK_SIZE"
  shows "serialize (piece_to_message x) =
    Inr (be32 (of_nat (9 + length (pc_block x))) @ [7] @ be32 (pc_index x) @ be32 (pc_begin x) @ pc_block x)"
proof -
  have "pm_id (piece_to_message x) = Piece" by (simp add: piece_to_message_def Let_def)
  then show ?thesis using assms by (subst serialize_eq) (simp_all add: piece_payload byte_of_id_def BLOCK_SIZE_def)
qed

subsection \<open>Bitfields on the wire\<close>

lemma bit_test: "(drop_bit t w AND 1 = 1) = bit w t" for w :: byte
  by (simp add: bit_iff_odd_drop_bit and_one_eq odd_iff_mod_2_eq_one)

lemma pack_bits_prefix:
  fixes bits :: "bool list"
  assumes "k \<le> length bits"
  defines "pk \<equiv> fold (\<lambda>i bf. if bits ! i then bf[i div 8 := bf ! (i div 8) OR push_bit (7 - i mod 8) 1] else bf)
      [0..<k] (replicate ((length bits + 7) div 8) (0 :: byte))"
  shows "length pk = (length bits + 7) div 8 \<and>
    (\<forall>i. i div 8 < length pk \<longrightarrow> bit (pk ! (i div 8)) (7 - i mod 8) = (i < k \<and> bits ! i))"
  using assms(1) unfolding pk_def
proof (induction k)
  case (Suc k)
  let ?f = "\<lambda>i bf. if bits ! i then bf[i div 8 := bf ! (i div 8) OR push_bit (7 - i mod 8) 1] else bf"
  define q where "q = fold ?f [0..<k] (replicate ((length bits + 7) div 8) (0 :: byte))"
  have ih: "length q = (length bits + 7) div 8"
    "\<And>i. i div 8 < length q \<Longrightarrow> bit (q ! (i div 8)) (7 - i mod 8) = (i < k \<and> bits ! i)"
    using Suc(1) Suc(2) unfolding q_def by simp_all
  have k: "k div 8 < length q" using Suc(2) ih(1) by linarith
  have same: "(i div 8 = k div 8 \<and> 7 - i mod 8 = 7 - k mod 8) = (i = k)" for i
  proof -
    have "i mod 8 < 8" "k mod 8 < 8" by simp_all
    then have "(7 - i mod 8 = 7 - k mod 8) = (i mod 8 = k mod 8)" by linarith
    then show ?thesis by (metis div_mult_mod_eq)
  qed
  have "bit (?f k q ! (i div 8)) (7 - i mod 8) = (i < Suc k \<and> bits ! i)" if "i div 8 < length q" for i
  proof -
    have "bit (?f k q ! (i div 8)) (7 - i mod 8) =
        (bit (q ! (i div 8)) (7 - i mod 8) \<or> bits ! k \<and> i div 8 = k div 8 \<and> 7 - i mod 8 = 7 - k mod 8)"
      using k by (auto simp: nth_list_update bit_or_iff bit_exp_iff)
    then show ?thesis using ih(2) [OF that] same [of i] by (auto simp: less_Suc_eq)
  qed
  moreover have "fold ?f [0..<Suc k] (replicate ((length bits + 7) div 8) 0) = ?f k q" by (simp add: q_def)
  moreover have "length (?f k q) = (length bits + 7) div 8" using ih(1) by simp
  ultimately show ?case using ih(1) by presburger
qed auto

lemma length_pack_bits: "length (pack_bits bits) = (length bits + 7) div 8"
  using pack_bits_prefix [of "length bits" bits] by (simp add: pack_bits_def)

lemma has_piece_pack:
  "has_piece \<lparr>bm_bitfield = pack_bits bits\<rparr> i =
     (if i < length bits then Inr (bits ! i) else if i div 8 < length (pack_bits bits) then Inr False
      else Inl BitfieldOutOfRange)"
proof -
  have "i div 8 < (length bits + 7) div 8" if "i < length bits" using that by linarith
  then show ?thesis
    using pack_bits_prefix [of "length bits" bits] length_pack_bits [of bits]
    by (auto simp: has_piece_def Let_def bit_test pack_bits_def [symmetric])
qed

lemma bitfield_loop_pack:
  "n \<le> length bits \<Longrightarrow> length old = length bits \<Longrightarrow>
   bitfield_loop \<lparr>bm_bitfield = pack_bits bits\<rparr> [n..<length bits] old =
     (None, take n old @ map2 (\<or>) (drop n old) (drop n bits))"
proof (induction "length bits - n" arbitrary: n old)
  case (Suc k)
  then have n: "n < length bits" "k = length bits - Suc n" by simp_all
  let ?old = "if bits ! n then old[n := True] else old"
  have "bitfield_loop \<lparr>bm_bitfield = pack_bits bits\<rparr> [n..<length bits] old =
      (None, take (Suc n) ?old @ map2 (\<or>) (drop (Suc n) ?old) (drop (Suc n) bits))"
    using Suc(1) [OF n(2), of ?old] n Suc(4) by (simp add: upt_conv_Cons has_piece_pack)
  moreover have "take (Suc n) ?old = take n old @ [old ! n \<or> bits ! n]"
    using n Suc(4) by (auto simp: take_Suc_conv_app_nth list_update_beyond take_update_swap)
  moreover have "drop (Suc n) ?old = drop (Suc n) old" by simp
  moreover have "drop n old = old ! n # drop (Suc n) old" "drop n bits = bits ! n # drop (Suc n) bits"
    using n Suc(4) by (simp_all add: Cons_nth_drop_Suc)
  ultimately show ?case by simp
qed simp

subsection \<open>The request pipeline\<close>

text \<open>The reference: how many requests are due, which they are, and the buffer after them.\<close>

definition due :: "in_flight \<Rightarrow> nat" where
  "due p = min (MAX_PIPELINE - if_requests p) ((if_length p - if_next p + BLOCK_SIZE - 1) div BLOCK_SIZE)"

definition nth_request :: "in_flight \<Rightarrow> nat \<Rightarrow> bytes" where
  "nth_request p k = (let b = if_next p + k * BLOCK_SIZE
     in be32 13 @ [6] @ be32 (of_nat (if_index p)) @ be32 (of_nat b) @ be32 (of_nat (min BLOCK_SIZE (if_length p - b))))"

definition advance :: "nat \<Rightarrow> in_flight \<Rightarrow> in_flight" where
  "advance n p = p\<lparr>if_next := min (if_length p) (if_next p + n * BLOCK_SIZE), if_requests := if_requests p + n\<rparr>"

lemma serialize_request:
  "serialize (request_to_message r) = Inr (be32 13 @ [6] @ be32 (rm_index r) @ be32 (rm_begin r) @ be32 (rm_length r))"
  by (subst serialize_eq) (simp_all add: request_to_message_def request_payload byte_of_id_def)

lemma due_0: "due p = 0 \<Longrightarrow> \<not> (if_requests p < MAX_PIPELINE \<and> if_next p < if_length p)"
  by (auto simp: due_def BLOCK_SIZE_def MAX_PIPELINE_def)

lemma ceil_step:
  fixes l n b :: nat
  assumes "n < l" "0 < b"
  shows "(l - n + b - 1) div b = Suc ((l - min l (n + b) + b - 1) div b)"
proof (cases "n + b \<le> l")
  case True
  then have "l - n + b - 1 = (l - min l (n + b) + b - 1) + b" using assms by linarith
  then show ?thesis using assms(2) by (simp only: div_add_self2)
next
  case False
  then have "l - n + b - 1 = (l - n - 1) + b" "l - n - 1 < b" "l - min l (n + b) = 0" using assms by linarith+
  then show ?thesis using assms(2) by (simp only: div_add_self2 div_less)
qed

lemma due_Suc:
  assumes "due p = Suc n" "if_length p < 2 ^ 32"
  shows "if_requests p < MAX_PIPELINE" "if_next p < if_length p" "due (requested p) = n"
    "if_next (requested p) = min (if_length p) (if_next p + BLOCK_SIZE)" "if_requests (requested p) = Suc (if_requests p)"
    "0 < n \<Longrightarrow> if_next (requested p) = if_next p + BLOCK_SIZE"
proof -
  show 1: "if_requests p < MAX_PIPELINE" "if_next p < if_length p"
    using assms(1) by (auto simp: due_def BLOCK_SIZE_def split: if_splits)
  then show 2: "if_next (requested p) = min (if_length p) (if_next p + BLOCK_SIZE)"
    "if_requests (requested p) = Suc (if_requests p)"
    using assms(2) by (auto simp: requested_def block_len_def u32_id MAX_PIPELINE_def)
  have l: "if_length (requested p) = if_length p" by (simp add: requested_def)
  show "due (requested p) = n"
  proof -
    have "min a (Suc x) = Suc n \<Longrightarrow> min (a - 1) x = n" for a x by linarith
    then show ?thesis
      using assms(1) 2(2) l unfolding due_def 2(1) l ceil_step [OF 1(2) BLOCK_SIZE_pos] by simp
  qed
  then have "(if_length p - if_next (requested p) + BLOCK_SIZE - 1) div BLOCK_SIZE \<noteq> 0" if "0 < n"
    using that l by (auto simp: due_def)
  then have "if_next (requested p) \<noteq> if_length p" if "0 < n" using that by (auto simp: BLOCK_SIZE_def)
  then show "0 < n \<Longrightarrow> if_next (requested p) = if_next p + BLOCK_SIZE" using 2(1) by linarith
qed

lemma request_loop_due:
  assumes "if_length p < 2 ^ 32" "if_next p \<le> if_length p" "due p \<le> cn_send_ok c"
  shows "request_loop p (c, m) =
    (None, (c\<lparr>cn_current := Some (advance (due p) p), cn_sent := cn_sent c @ map (nth_request p) [0..<due p],
              cn_send_ok := cn_send_ok c - due p\<rparr>, m))"
  using assms
proof (induction "due p" arbitrary: p c)
  case 0
  have "request_loop p (c, m) = (None, (c\<lparr>cn_current := Some p\<rparr>, m))"
    using due_0 [OF 0(1) [symmetric]] by (subst request_loop.simps) (rule if_not_P)
  then show ?case using 0 by (simp add: advance_def min_def)
next
  case (Suc n)
  note d = due_Suc [OF Suc(2) [symmetric] Suc(3)]
  let ?q = "requested p"
  have l: "if_length ?q = if_length p" "if_index ?q = if_index p" by (simp_all add: requested_def)
  let ?c = "c\<lparr>cn_current := Some p, cn_sent := cn_sent c @ [nth_request p 0], cn_send_ok := cn_send_ok c - 1\<rparr>"
  have "send_message (request_to_message (next_request p)) (c\<lparr>cn_current := Some p\<rparr>, m) = (None, (?c, m))"
    using Suc(2,5) d(2)
    by (simp add: send_message_def serialize_request send_bytes_def next_request_def nth_request_def block_len_def Let_def)
  then have "request_loop p (c, m) = request_loop ?q (?c, m)"
    using d(1,2) by (simp add: request_loop.simps [of p])
  also have "\<dots> = (None, (?c\<lparr>cn_current := Some (advance n ?q), cn_sent := cn_sent ?c @ map (nth_request ?q) [0..<n],
      cn_send_ok := cn_send_ok ?c - n\<rparr>, m))"
    using Suc(1) [of ?q ?c] d(3,4) l Suc(2,3,5) by simp
  also have "advance n ?q = advance (due p) p"
  proof -
    have "min (if_length p) (if_next ?q + n * BLOCK_SIZE) = min (if_length p) (if_next p + due p * BLOCK_SIZE)"
      unfolding d(4) Suc(2) [symmetric] by (simp add: min_def)
    moreover have "if_requests ?q + n = if_requests p + due p" using d(5) Suc(2) by simp
    ultimately show ?thesis unfolding advance_def l by (simp add: requested_def)
  qed
  also have "map (nth_request ?q) [0..<n] = map (\<lambda>k. nth_request p (Suc k)) [0..<n]"
    using d(6) l by (simp add: nth_request_def Let_def algebra_simps)
  finally show ?case
    using Suc(2) [symmetric] by (simp add: upt_conv_Cons map_Suc_upt [symmetric] del: upt_Suc)
qed

subsection \<open>Assembling a piece\<close>

definition block_at :: "bytes \<Rightarrow> nat \<Rightarrow> nat \<Rightarrow> peer_message" where
  "block_at D i k = piece_to_message \<lparr>pc_index = of_nat i, pc_begin = of_nat (k * BLOCK_SIZE),
     pc_block = take BLOCK_SIZE (drop (k * BLOCK_SIZE) D)\<rparr>"

fun deliver :: "(bytes \<Rightarrow> bytes) \<Rightarrow> peer_message list \<Rightarrow> session \<Rightarrow> outcome" where
  "deliver sha1 [] s = (None, s)"
| "deliver sha1 (x # xs) s = and_then (handle_piece sha1 x s) (deliver sha1 xs)"

text \<open>The blocks marked as received hold the bytes of \<open>D\<close>.\<close>

definition agrees :: "bytes \<Rightarrow> in_flight \<Rightarrow> bool" where
  "agrees D p = (length D = if_length p \<and>
     (\<forall>x<if_length p. if_received p ! (x div BLOCK_SIZE) \<longrightarrow> if_data p ! x = D ! x))"

lemma piece_from_block_at:
  "piece_from_message (block_at D i k) = Inr \<lparr>pc_index = of_nat i, pc_begin = of_nat (k * BLOCK_SIZE),
     pc_block = take BLOCK_SIZE (drop (k * BLOCK_SIZE) D)\<rparr>"
proof -
  have "pm_id (block_at D i k) = Piece" by (simp add: block_at_def piece_to_message_def Let_def)
  then show ?thesis using piece_payload by (simp add: piece_from_message_def block_at_def)
qed

lemma deliver_idle: "cn_current (fst s) = None \<Longrightarrow> deliver sha1 (map (block_at D i) ks) s = (None, s)"
  by (induction ks) (auto simp: and_then_def handle_piece_def piece_from_block_at split: prod.splits)

lemma block_geometry:
  assumes "in_flight_ok m p" "k < if_total p"
  shows "k * BLOCK_SIZE < if_length p"
proof -
  have "Suc k \<le> (if_length p + BLOCK_SIZE - 1) div BLOCK_SIZE" using assms by (simp add: in_flight_ok_def)
  then have "Suc k * BLOCK_SIZE \<le> if_length p + BLOCK_SIZE - 1"
    by (metis div_times_less_eq_dividend mult_le_mono1 le_trans)
  then show ?thesis by (simp add: BLOCK_SIZE_def)
qed

lemma block_index:
  assumes "in_flight_ok m p" "x < if_length p"
  shows "x div BLOCK_SIZE < if_total p"
proof -
  have "x div BLOCK_SIZE \<le> (if_length p - 1) div BLOCK_SIZE" by (rule div_le_mono) (use assms(2) in simp)
  moreover have "if_length p + BLOCK_SIZE - 1 = (if_length p - 1) + BLOCK_SIZE" using assms(2) by simp
  then have "if_total p = Suc ((if_length p - 1) div BLOCK_SIZE)"
    using assms(1) unfolding in_flight_ok_def by (metis BLOCK_SIZE_pos div_add_self2 less_numeral_extra(3) Suc_eq_plus1)
  ultimately show ?thesis by simp
qed

lemma agrees_put:
  assumes "in_flight_ok m p" "agrees D p" "k < if_total p"
  shows "agrees D (put_block (k * BLOCK_SIZE) (take BLOCK_SIZE (drop (k * BLOCK_SIZE) D)) p)"
proof -
  let ?at = "k * BLOCK_SIZE"
  let ?b = "take BLOCK_SIZE (drop ?at D)"
  have len: "length (if_data p) = if_length p" "length D = if_length p" "length (if_received p) = if_total p"
    using assms(1,2) by (simp_all add: in_flight_ok_def agrees_def)
  have at: "?at < if_length p" by (rule block_geometry [OF assms(1,3)])
  have data: "(take ?at (if_data p) @ ?b @ drop (?at + length ?b) (if_data p)) ! x =
      (if x div BLOCK_SIZE = k then D ! x else if_data p ! x)" if "x < if_length p" for x
  proof -
    have k: "(x div BLOCK_SIZE = k) = (?at \<le> x \<and> x < ?at + BLOCK_SIZE)"
      by (metis BLOCK_SIZE_pos add.commute div_nat_eqI dividend_less_times_div mult.commute mult_Suc_right times_div_less_eq_dividend)
    show ?thesis unfolding k using len at that by (auto simp: nth_append min_def)
  qed
  then show ?thesis using assms(2) len block_index [OF assms(1)]
    by (auto simp: agrees_def put_block_def nth_list_update)
qed

lemma count_all: "length (filter id bs) = length bs \<Longrightarrow> k < length bs \<Longrightarrow> bs ! k"
  by (metis id_apply length_filter_less nth_mem less_irrefl)

lemma agrees_complete:
  assumes "in_flight_ok m p" "agrees D p" "\<not> if_done p < if_total p"
  shows "if_data p = D"
proof (rule nth_equalityI)
  have len: "length (if_received p) = if_total p" "if_done p = length (filter id (if_received p))"
    using assms(1) by (simp_all add: in_flight_ok_def)
  then have all: "if_received p ! k" if "k < if_total p" for k
    using count_all [of "if_received p" k] length_filter_le [of id "if_received p"] assms(3) that by simp
  show "length (if_data p) = length D" using assms(1,2) by (simp add: in_flight_ok_def agrees_def)
  show "if_data p ! x = D ! x" if "x < length (if_data p)" for x
    using that assms(1,2) all block_index [OF assms(1)] by (simp add: in_flight_ok_def agrees_def)
qed

text \<open>One block of \<open>D\<close>: a duplicate changes nothing but the request count, a new block is put
  in place, and the last one hands the piece over.\<close>

lemma handle_block:
  assumes "in_flight_ok m p" "agrees D p" "if_length p < 2 ^ 32" "if_index p = i" "i < 2 ^ 32"
    and "cn_current c = Some p" "k < if_total p"
  defines "p1 \<equiv> p\<lparr>if_requests := u32_sub (if_requests p) 1\<rparr>"
  defines "q \<equiv> put_block (k * BLOCK_SIZE) (take BLOCK_SIZE (drop (k * BLOCK_SIZE) D)) p1"
  defines "c1 \<equiv> c\<lparr>cn_downloaded := u64 (cn_downloaded c + length (take BLOCK_SIZE (drop (k * BLOCK_SIZE) D))), cn_current := Some q\<rparr>"
  shows "if_received p ! k \<Longrightarrow> handle_piece sha1 (block_at D i k) (c, m) = (None, (c\<lparr>cn_current := Some p1\<rparr>, m))"
    "\<not> if_received p ! k \<Longrightarrow> if_done q < if_total q \<Longrightarrow> handle_piece sha1 (block_at D i k) (c, m) = (None, (c1, m))"
    "\<not> if_received p ! k \<Longrightarrow> \<not> if_done q < if_total q \<Longrightarrow> complete_piece sha1 i (if_data q) m = (Inr ok, m') \<Longrightarrow>
       handle_piece sha1 (block_at D i k) (c, m) = (None, (c1\<lparr>cn_current := None, cn_exclusive := False\<rparr>,
         if \<not> ok \<and> cn_exclusive c then abort_piece i m' else m'))"
proof -
  have at: "k * BLOCK_SIZE < if_length p" by (rule block_geometry [OF assms(1,7)])
  have u: "unat (of_nat i :: 32 word) = i" "unat (of_nat (k * BLOCK_SIZE) :: 32 word) = k * BLOCK_SIZE"
    using assms(3,5) at by (simp_all add: unsigned_of_nat take_bit_nat_eq_self del: of_nat_mult)
  have len: "length (if_data p) = if_length p" "length D = if_length p" "length (if_received p) = if_total p"
    using assms(1,2) by (simp_all add: in_flight_ok_def agrees_def)
  note defs = handle_piece_def piece_from_block_at u len p1_def q_def c1_def Let_def
  have fits: "\<not> length (if_data p1) < k * BLOCK_SIZE + length (take BLOCK_SIZE (drop (k * BLOCK_SIZE) D))"
    using at len by (simp add: p1_def)
  have idx: "if_index q = i" "if_index p1 = i" using assms(4) by (simp_all add: q_def p1_def put_block_def)
  have rcv: "if_received p1 = if_received p" by (simp add: p1_def)
  show "if_received p ! k \<Longrightarrow> handle_piece sha1 (block_at D i k) (c, m) = (None, (c\<lparr>cn_current := Some p1\<rparr>, m))"
    using assms(4,6) fits by (simp add: defs del: of_nat_mult)
  show "handle_piece sha1 (block_at D i k) (c, m) = (None, (c1, m))" if "\<not> if_received p ! k" "if_done q < if_total q"
    using that assms(4,6,7) fits by (simp add: defs del: of_nat_mult)
  show "handle_piece sha1 (block_at D i k) (c, m) = (None, (c1\<lparr>cn_current := None, cn_exclusive := False\<rparr>,
         if \<not> ok \<and> cn_exclusive c then abort_piece i m' else m'))"
    if "\<not> if_received p ! k" "\<not> if_done q < if_total q" "complete_piece sha1 i (if_data q) m = (Inr ok, m')"
    using that assms(4,6,7) fits idx by (simp add: defs del: of_nat_mult)
qed

lemma deliver_blocks:
  assumes "in_flight_ok m p" "agrees D p" "if_length p < 2 ^ 32" "if_total p < 2 ^ 32" "if_index p = i" "i < 2 ^ 32"
    and "cn_current c = Some p" "complete_piece sha1 i D m = (Inr ok, m')"
    and "\<forall>k\<in>set ks. k < if_total p" "\<forall>k<if_total p. if_received p ! k \<or> k \<in> set ks" "if_done p < if_total p"
  shows "\<exists>c'. deliver sha1 (map (block_at D i) ks) (c, m) =
      (None, (c', if \<not> ok \<and> cn_exclusive c then abort_piece i m' else m')) \<and> cn_current c' = None \<and> \<not> cn_exclusive c'"
  using assms
proof (induction ks arbitrary: p c)
  case Nil
  then have len: "length (if_received p) = if_total p" "if_done p = length (filter id (if_received p))"
    by (simp_all add: in_flight_ok_def)
  then have "\<forall>b\<in>set (if_received p). id b" using Nil(10) by (auto simp: in_set_conv_nth)
  then have "filter id (if_received p) = if_received p" by (rule filter_True)
  then show ?case using Nil(11) len by simp
next
  case (Cons k ks)
  let ?p1 = "p\<lparr>if_requests := u32_sub (if_requests p) 1\<rparr>"
  let ?q = "put_block (k * BLOCK_SIZE) (take BLOCK_SIZE (drop (k * BLOCK_SIZE) D)) ?p1"
  let ?c = "c\<lparr>cn_downloaded := u64 (cn_downloaded c + length (take BLOCK_SIZE (drop (k * BLOCK_SIZE) D))), cn_current := Some ?q\<rparr>"
  have k: "k < if_total p" using Cons(10) by simp
  note step = handle_block [OF Cons(2-4) Cons(6-8) k]
  have p1: "in_flight_ok m ?p1" "agrees D ?p1" using Cons(2,3) by (simp_all add: in_flight_ok_def agrees_def)
  show ?case
  proof (cases "if_received p ! k")
    case True
    have "\<forall>j<if_total ?p1. if_received ?p1 ! j \<or> j \<in> set ks" using Cons(11) True by auto
    then show ?thesis using step(1) [OF True] Cons(1) [OF p1, of "c\<lparr>cn_current := Some ?p1\<rparr>"] Cons(4-10,12)
      by (simp add: and_then_def)
  next
    case False
    have len: "length (if_data p) = if_length p" "length D = if_length p" "length (if_received p) = if_total p"
      using Cons(2,3) by (simp_all add: in_flight_ok_def agrees_def)
    have q: "in_flight_ok m ?q"
      using put_block_ok(1) [OF p1(1), of "k * BLOCK_SIZE"] block_geometry [OF Cons(2) k] Cons(5) k False len by simp
    have qa: "agrees D ?q" using agrees_put [OF p1] k by simp
    have qs: "if_length ?q = if_length p" "if_total ?q = if_total p" "if_index ?q = if_index p"
      "if_received ?q = (if_received p)[k := True]" by (simp_all add: put_block_def)
    show ?thesis
    proof (cases "if_done ?q < if_total ?q")
      case True
      have "\<forall>j<if_total ?q. if_received ?q ! j \<or> j \<in> set ks"
        using Cons(11) len k unfolding qs by (auto simp: nth_list_update)
      then show ?thesis using step(2) [OF False True] Cons(1) [OF q qa, of ?c] Cons(4-10) True qs
        by (auto simp: and_then_def)
    next
      case full: False
      have "if_data ?q = D" by (rule agrees_complete [OF q qa full])
      then show ?thesis using step(3) [OF False full, of sha1 ok m'] Cons(9)
        by (auto simp: and_then_def deliver_idle)
    qed
  qed
qed

lemma complete_stores:
  assumes "geometry m" "disk_ok (mg_writer m) (mg_disk m)" "i < mg_num_pieces m" "\<not> mg_have m ! i"
    "length D = piece_length i m" "sha1 D = mg_hashes m ! i"
  shows "\<exists>m'. complete_piece sha1 i D m = (Inr True, m') \<and> have_piece i m' \<and>
    read_piece (mg_writer m') i (mg_disk m') = Inr D"
proof -
  note r = geometry_range [OF assms(1,3)]
  obtain d where w: "write_piece (mg_writer m) i D (mg_disk m) = (None, d)" "disk_ok (mg_writer m) d"
    using write_piece_image [OF assms(2) r, of D] assms(5) piece_length_eq [OF assms(1,3)] by auto
  have "slot (mg_writer m) d i = D" using slot_write(2) [OF disk_ok_files [OF assms(2)] r w(1)] by simp
  then have "read_piece (mg_writer m) i d = Inr D" using read_piece_image [OF w(2) r] by simp
  then show ?thesis using assms(1,3,4,6) w(1) by (auto simp: complete_piece_def have_piece_def geometry_def Let_def)
qed

subsection \<open>A sample connection\<close>

definition sample_conn :: peer_connection where
  "sample_conn = (cn_new (replicate 20 0) (replicate 20 1) 20 sample_manager)
     \<lparr>cn_am_choking := False, cn_am_interested := True, cn_peer_choking := False,
      cn_current := Some (new_in_flight 0 8), cn_exclusive := True\<rparr>"

lemma sample_lengths: "piece_length 0 sample_manager = 8" "mg_num_pieces sample_manager = 1"
  "mg_nominal sample_manager + BLOCK_SIZE \<le> 2 ^ 32" "length (cn_bitfield sample_conn) = 1"
proof -
  have "mg_writer sample_manager = sample_dw" by (simp add: sample_manager_def)
  then show "piece_length 0 sample_manager = 8"
    using piece_length_eq [OF sample_manager_ok(1), of 0] sample_dw_ok(3) by (simp add: sample_manager_def)
qed (simp_all add: sample_manager_def BLOCK_SIZE_def sample_conn_def cn_new_def)

lemma sample_session: "session_ok [False] (sample_conn, sample_manager)"
proof -
  have "in_flight_ok sample_manager (new_in_flight 0 8)"
    using new_in_flight_ok [OF sample_manager_ok(1) _ sample_lengths(3), of 0] sample_lengths by simp
  then show ?thesis using sample_manager_ok(1) sample_lengths in_flight_done
    by (simp add: session_ok_def) (simp add: sample_conn_def sample_manager_def new_in_flight_def Let_def)
qed

text \<open>
  \<^verbatim>\<open>handle_piece\<close> decrements the number of requests in flight before it checks
  the block. A block of the current piece that was not requested wraps the
  counter around, and the pipeline counts as full from then on: the session
  asks for nothing more, although nothing is outstanding.
\<close>

lemma unsolicited_block_stalls:
  "handle_piece sha1 (piece_to_message \<lparr>pc_index = 0, pc_begin = 9, pc_block = [1]\<rparr>) (sample_conn, sample_manager) =
     (None, (sample_conn\<lparr>cn_current := Some ((new_in_flight 0 8)\<lparr>if_requests := 2 ^ 32 - 1\<rparr>)\<rparr>, sample_manager))"
  "fill_requests (sample_conn\<lparr>cn_current := Some ((new_in_flight 0 8)\<lparr>if_requests := 2 ^ 32 - 1\<rparr>)\<rparr>, sample_manager) =
     (None, (sample_conn\<lparr>cn_current := Some ((new_in_flight 0 8)\<lparr>if_requests := 2 ^ 32 - 1\<rparr>)\<rparr>, sample_manager))"
proof -
  have "piece_from_message (piece_to_message x) = Inr x" for x
    using piece_payload [of x] by (simp add: piece_from_message_def piece_to_message_def Let_def)
  then show "handle_piece sha1 (piece_to_message \<lparr>pc_index = 0, pc_begin = 9, pc_block = [1]\<rparr>) (sample_conn, sample_manager) =
     (None, (sample_conn\<lparr>cn_current := Some ((new_in_flight 0 8)\<lparr>if_requests := 2 ^ 32 - 1\<rparr>)\<rparr>, sample_manager))"
    by (simp add: handle_piece_def sample_conn_def new_in_flight_def Let_def u32_sub_def u32_def)
  show "fill_requests (sample_conn\<lparr>cn_current := Some ((new_in_flight 0 8)\<lparr>if_requests := 2 ^ 32 - 1\<rparr>)\<rparr>, sample_manager) =
     (None, (sample_conn\<lparr>cn_current := Some ((new_in_flight 0 8)\<lparr>if_requests := 2 ^ 32 - 1\<rparr>)\<rparr>, sample_manager))"
    by (simp add: fill_requests_def sample_conn_def cn_new_def new_in_flight_def Let_def have_piece_def sample_manager_def
        request_loop.simps MAX_PIPELINE_def)
qed

subsection \<open>Properties\<close>

text \<open>C3: A session never damages the torrent, whatever bytes the peer sends: the pieces
  held before are still held, nothing is held that does not have the hash of
  the torrent, and only a hand-over that fails on the disk, which ends the
  session with that error, can add one piece to those lost.\<close>

theorem session_keeps_verified:
  assumes "mg_inv sha1 lost m" "run sha1 input (c, m) = (e, (c', m'))"
  shows "held m \<subseteq> held m' \<and> same_torrent m m' \<and>
    (mg_inv sha1 lost m' \<or> (\<exists>x i. e = ManagerError x \<and> mg_inv sha1 (insert i lost) m'))"
proof -
  have "extends m m'" using run_extends [OF _ assms(2)] assms(1) by (simp add: mg_inv_def geometry_def)
  moreover have "mg_inv sha1 lost (snd (c, m))" using assms(1) by simp
  note verifying.keepsD [OF verifying.keeps_run [OF this, of input, unfolded assms(2) map_prod_simp]]
  ultimately show ?thesis by (auto simp: extends_def)
qed

theorem session_keeps_verified_witness:
  "\<exists>e c' m'. run (\<lambda>b. b) [0, 0, 0, 1, 0] (sample_conn, sample_manager) = (e, (c', m')) \<and>
     same_torrent sample_manager m' \<and> (mg_inv (\<lambda>b. b) {} m' \<or> (\<exists>i. mg_inv (\<lambda>b. b) {i} m'))"
proof -
  obtain e c' m' where "run (\<lambda>b. b) [0, 0, 0, 1, 0] (sample_conn, sample_manager) = (e, (c', m'))"
    by (metis prod.exhaust)
  with session_keeps_verified [OF sample_manager_ok(3) this] show ?thesis by blast
qed

text \<open>C4: A session gives back what it claims: when a connection ends, by any error and
  after any input, and its destructor has run, every piece that others had
  claimed is still claimed and the only other claimed pieces are held ones.\<close>

theorem session_leaks_no_claim:
  assumes "geometry m" "mg_nominal m + BLOCK_SIZE \<le> 2 ^ 32"
    and "connect input (cn_new h my_id k m, m) = ((None, s), rest)" "run sha1 rest s = (e, s')"
    and "i < mg_num_pieces m"
  shows "(mg_claimed m ! i \<longrightarrow> mg_claimed (snd (cn_close s')) ! i) \<and>
    (mg_claimed (snd (cn_close s')) ! i \<longrightarrow> mg_claimed m ! i \<or> mg_have (snd (cn_close s')) ! i)"
proof -
  have ok: "session_ok (mg_claimed m) s" using session_ok_connect [OF session_ok_new [OF assms(1,2)] assms(3)] .
  then have ok': "session_ok (mg_claimed m) s'" using session_ok_run [of _ s sha1 rest] assms(4) by simp
  have "snd s = m" using connect_manager [OF assms(3)] by simp
  then have "mg_num_pieces (snd s') = mg_num_pieces m"
    using run_extends [OF _ assms(4)] assms(1) by (simp add: extends_def same_torrent_def geometry_def)
  then show ?thesis using session_ok_close [OF ok'] assms(5) by auto
qed

theorem session_leaks_no_claim_witness:
  "\<exists>s rest e s'. connect (serialize_handshake \<lparr>hs_reserved = replicate 8 0, hs_info_hash = replicate 20 0,
       hs_peer_id = replicate 20 2\<rparr> @ [0, 0, 0, 5, 4, 0, 0, 0, 0, 0, 0, 0, 1, 1])
       (cn_new (replicate 20 0) (replicate 20 1) 20 sample_manager, sample_manager) = ((None, s), rest) \<and>
     run (\<lambda>b. b) rest s = (e, s') \<and>
     (mg_claimed (snd (cn_close s')) ! 0 \<longrightarrow> mg_have (snd (cn_close s')) ! 0)"
proof -
  let ?in = "serialize_handshake \<lparr>hs_reserved = replicate 8 0, hs_info_hash = replicate 20 0,
       hs_peer_id = replicate 20 2\<rparr> @ [0, 0, 0, 5, 4, 0, 0, 0, 0, 0, 0, 0, 1, 1]"
  let ?s = "(cn_new (replicate 20 0) (replicate 20 1) 20 sample_manager, sample_manager)"
  have "fst (fst (connect ?in ?s)) = None" by code_simp
  then obtain s rest where c: "connect ?in ?s = ((None, s), rest)" by (metis prod.collapse)
  obtain e s' where r: "run (\<lambda>b. b) rest s = (e, s')" by (rule prod.exhaust)
  have "0 < mg_num_pieces sample_manager" "\<not> mg_claimed sample_manager ! 0" by (simp_all add: sample_manager_def)
  with session_leaks_no_claim [OF sample_manager_ok(1) sample_lengths(3) c r, of 0] c r show ?thesis by blast
qed

text \<open>C22: A request is served exactly when the peer is unchoked, the length is between
  one byte and one block and the range lies in a piece that is held; the reply
  carries that range of the verified piece and is counted, and every other
  request leaves the session untouched.\<close>

theorem handle_request_serves:
  assumes "mg_inv sha1 lost m" "unat (rm_index req) \<notin> lost" "0 < cn_send_ok c"
    and "\<forall>f\<in>set (dw_files (mg_writer m)). healthy (mg_writer m) (mg_disk m) f"
  shows "handle_request (request_to_message req) (c, m) =
    (let i = unat (rm_index req); b = unat (rm_begin req); n = unat (rm_length req);
         block = take n (drop b (slot (mg_writer m) (mg_disk m) i))
     in if \<not> cn_am_choking c \<and> 0 < n \<and> n \<le> BLOCK_SIZE \<and> have_piece i m \<and> b + n \<le> piece_length i m
        then (None, (c\<lparr>cn_sent := cn_sent c @ [be32 (of_nat (9 + n)) @ [7] @ be32 (rm_index req) @ be32 (rm_begin req) @ block],
                       cn_send_ok := cn_send_ok c - 1, cn_uploaded := u64 (cn_uploaded c + n),
                       cn_blocks_uploaded := u64 (cn_blocks_uploaded c + 1)\<rparr>, m))
        else (None, (c, m)))"
proof -
  let ?i = "unat (rm_index req)" and ?b = "unat (rm_begin req)" and ?n = "unat (rm_length req)"
  let ?block = "take ?n (drop ?b (slot (mg_writer m) (mg_disk m) ?i))"
  have req: "request_from_message (request_to_message req) = Inr req"
    by (simp add: request_from_message_def request_to_message_def request_payload)
  have len0: "(rm_length req = 0) = (?n = 0)" by (simp add: unat_eq_0)
  show ?thesis
  proof (cases "have_piece ?i m")
    case False
    then show ?thesis by (auto simp: handle_request_def req read_block_def Let_def)
  next
    case True
    then have held: "?i \<in> held m - lost" using assms(2) by (auto simp: have_piece_def held_def split: if_splits)
    then have i: "?i < mg_num_pieces m" by (simp add: held_def)
    have g: "geometry m" using assms(1) by (simp add: mg_inv_def)
    have rb: "read_block ?i ?b ?n m = (if ?b + ?n \<le> piece_length ?i m then Inr ?block else Inl BlockOutOfBounds)"
      using held_readable [OF assms(1) held assms(4)] True by (auto simp: read_block_def Let_def)
    have wire: "serialize (piece_to_message \<lparr>pc_index = rm_index req, pc_begin = rm_begin req, pc_block = ?block\<rparr>)
        = Inr (be32 (of_nat (9 + ?n)) @ [7] @ be32 (rm_index req) @ be32 (rm_begin req) @ ?block)"
      if "?n \<le> BLOCK_SIZE" "?b + ?n \<le> piece_length ?i m"
    proof -
      have "length ?block = ?n"
        using that(2) length_slot [of m ?i] g i piece_length_eq [OF g i] by simp
      then show ?thesis using that(1) by (subst serialize_piece) simp_all
    qed
    show ?thesis
      using rb wire assms(3) True len0
      by (auto simp: handle_request_def req Let_def send_message_def send_bytes_def and_then_def split: if_splits)
  qed
qed

theorem handle_request_serves_witness:
  "\<exists>m. complete_piece (\<lambda>b. b) 0 sample_data sample_manager = (Inr True, m) \<and>
     cn_sent (fst (snd (handle_request (request_to_message \<lparr>rm_index = 0, rm_begin = 2, rm_length = 4\<rparr>) (sample_conn, m)))) =
       [[0, 0, 0, 13, 7, 0, 0, 0, 0, 0, 0, 0, 2, 3, 4, 5, 6]]"
proof -
  obtain m where m: "complete_piece (\<lambda>b. b) 0 sample_data sample_manager = (Inr True, m)"
    "mg_inv (\<lambda>b. b) {} m" "have_piece 0 m" "piece_length 0 m = 8" "slot (mg_writer m) (mg_disk m) 0 = sample_data"
    "\<forall>f\<in>set (dw_files (mg_writer m)). healthy (mg_writer m) (mg_disk m) f"
    using sample_completed by blast
  have c: "0 < cn_send_ok sample_conn" "\<not> cn_am_choking sample_conn" "cn_sent sample_conn = []"
    by (simp_all add: sample_conn_def cn_new_def)
  show ?thesis
    using handle_request_serves [OF m(2) _ c(1) m(6), of "\<lparr>rm_index = 0, rm_begin = 2, rm_length = 4\<rparr>"] m c
    by (simp add: BLOCK_SIZE_def sample_data_def be32_def)
qed

text \<open>C6: The pipeline is filled exactly as the reference says: the missing requests up to
  fifteen in flight, for consecutive blocks of at most sixteen kibibytes from
  where the last call stopped, each inside the piece, and afterwards either the
  pipeline is full or the whole piece has been requested.\<close>

theorem fill_requests_pipelines:
  assumes "session_ok cl (c, m)" "\<not> cn_peer_choking c" "cn_am_interested c" "cn_current c = Some p"
    and "\<not> have_piece (if_index p) m" "if_requests p \<le> MAX_PIPELINE" "due p \<le> cn_send_ok c"
  shows "fill_requests (c, m) =
      (None, (c\<lparr>cn_current := Some (advance (due p) p), cn_sent := cn_sent c @ map (nth_request p) [0..<due p],
                cn_send_ok := cn_send_ok c - due p\<rparr>, m)) \<and>
    if_requests (advance (due p) p) \<le> MAX_PIPELINE \<and>
    (if_requests (advance (due p) p) = MAX_PIPELINE \<or> if_next (advance (due p) p) = if_length p) \<and>
    (\<forall>k<due p. if_next p + k * BLOCK_SIZE < if_length p)"
proof -
  note cur = session_ok_current [OF assms(1,4)]
  have len: "if_length p < 2 ^ 32" "if_next p \<le> if_length p"
    using piece_length_bound(2) [OF cur(1) _ cur(2), of "if_index p"] cur(3) by (simp_all add: in_flight_ok_def BLOCK_SIZE_def)
  have "fill_requests (c, m) = request_loop p (c, m)"
    using assms(2-5) by (simp add: fill_requests_def Let_def)
  moreover have "if_next p + k * BLOCK_SIZE < if_length p" if "k < due p" for k
  proof -
    have "Suc k \<le> (if_length p - if_next p + BLOCK_SIZE - 1) div BLOCK_SIZE" using that by (simp add: due_def)
    then have "Suc k * BLOCK_SIZE \<le> if_length p - if_next p + BLOCK_SIZE - 1"
      by (metis div_times_less_eq_dividend mult_le_mono1 le_trans)
    then show ?thesis by (simp add: BLOCK_SIZE_def)
  qed
  moreover have "min (if_length p) (if_next p + due p * BLOCK_SIZE) = if_length p" if "if_requests p + due p \<noteq> MAX_PIPELINE"
  proof -
    have "due p = (if_length p - if_next p + BLOCK_SIZE - 1) div BLOCK_SIZE" using that assms(6) by (simp add: due_def min_def split: if_splits)
    moreover have "if_length p - if_next p + BLOCK_SIZE - 1 < Suc ((if_length p - if_next p + BLOCK_SIZE - 1) div BLOCK_SIZE) * BLOCK_SIZE"
      using dividend_less_div_times [of BLOCK_SIZE] by simp
    ultimately show ?thesis by simp
  qed
  moreover have "due p \<le> MAX_PIPELINE - if_requests p" by (simp add: due_def)
  ultimately show ?thesis using request_loop_due [OF len assms(7)] assms(6)
    by (auto simp: advance_def)
qed

theorem fill_requests_pipelines_witness:
  "cn_sent (fst (snd (fill_requests (sample_conn, sample_manager)))) = [[0, 0, 0, 13, 6, 0, 0, 0, 0, 0, 0, 0, 0, 0, 0, 0, 8]]"
proof -
  let ?p = "new_in_flight 0 8"
  have p: "if_index ?p = 0" "if_requests ?p = 0" "if_next ?p = 0" "if_length ?p = 8" by (simp_all add: new_in_flight_def Let_def)
  have c: "\<not> cn_peer_choking sample_conn" "cn_am_interested sample_conn" "cn_current sample_conn = Some ?p"
    "cn_send_ok sample_conn = 20" "cn_sent sample_conn = []" by (simp_all add: sample_conn_def cn_new_def)
  have d: "due ?p = 1" by (simp add: due_def p MAX_PIPELINE_def BLOCK_SIZE_def)
  have "\<not> have_piece (if_index ?p) sample_manager" by (simp add: p have_piece_def sample_manager_def)
  from fill_requests_pipelines [OF sample_session c(1-3) this] d c(4,5) p show ?thesis
    by (simp add: nth_request_def be32_def BLOCK_SIZE_def)
qed

text \<open>A bitfield arrives as it was sent: the bytes packed from a list of flags are
  unpacked to the same flags by the receiver, which adds them to what it knows
  of the peer, with the spare bits of the last byte clear, and it declares
  interest exactly when the peer now offers a piece it does not have.\<close>

theorem bitfield_exchange:
  assumes "length bits = mg_num_pieces m" "length (cn_bitfield c) = mg_num_pieces m"
  defines "c' \<equiv> c\<lparr>cn_bitfield := map2 (\<or>) (cn_bitfield c) bits\<rparr>"
  shows "handle_bitfield (bitfield_to_message \<lparr>bm_bitfield = pack_bits bits\<rparr>) (c, m) =
      (if \<exists>i<mg_num_pieces m. (cn_bitfield c ! i \<or> bits ! i) \<and> \<not> have_piece i m
       then send_interested (c', m) else (None, (c', m))) \<and>
    length (pack_bits bits) = (length bits + 7) div 8 \<and>
    (\<forall>i<8 * length (pack_bits bits). has_piece \<lparr>bm_bitfield = pack_bits bits\<rparr> i = Inr (i < length bits \<and> bits ! i))"
proof -
  have loop: "bitfield_loop \<lparr>bm_bitfield = pack_bits bits\<rparr> [0..<mg_num_pieces m] (cn_bitfield c) =
      (None, map2 (\<or>) (cn_bitfield c) bits)"
    using bitfield_loop_pack [of 0 bits "cn_bitfield c"] assms by simp
  have ex: "list_ex (\<lambda>i. map2 (\<or>) (cn_bitfield c) bits ! i \<and> \<not> have_piece i m) [0..<mg_num_pieces m] =
      (\<exists>i<mg_num_pieces m. (cn_bitfield c ! i \<or> bits ! i) \<and> \<not> have_piece i m)"
    using assms(1,2) by (auto simp: list_ex_iff)
  have "i div 8 < length (pack_bits bits)" if "i < 8 * length (pack_bits bits)" for i
    using that by (simp add: less_mult_imp_div_less mult.commute)
  then show ?thesis
    using assms(2) loop ex has_piece_pack [of bits] length_pack_bits [of bits]
    by (auto simp add: handle_bitfield_def bitfield_from_message_def bitfield_to_message_def Let_def c'_def)
qed

theorem bitfield_exchange_witness:
  "cn_bitfield (fst (snd (handle_bitfield (bitfield_to_message \<lparr>bm_bitfield = pack_bits [True]\<rparr>) (sample_conn, sample_manager)))) = [True]"
  using bitfield_exchange [of "[True]" sample_manager sample_conn] sample_lengths(2,4)
  by (simp add: send_interested_def) (simp add: sample_conn_def cn_new_def sample_manager_def)

text \<open>C5: A piece is assembled from its blocks in any order and with any duplicates: once
  every missing block has arrived the buffer is handed over as the piece. With
  the hash of the torrent it is then held and reads back from the disk; with any
  other hash it is not held, the failure is counted and the claim is given back.\<close>

theorem blocks_assemble:
  assumes "session_ok cl (c, m)" "cn_current c = Some p" "if_index p = i"
    and "disk_ok (mg_writer m) (mg_disk m)" "\<not> have_piece i m" "agrees D p" "if_done p < if_total p"
    and "\<forall>k\<in>set ks. k < if_total p" "\<forall>k<if_total p. if_received p ! k \<or> k \<in> set ks"
  shows "\<exists>c' m'. deliver sha1 (map (block_at D i) ks) (c, m) = (None, (c', m')) \<and>
    cn_current c' = None \<and> \<not> cn_exclusive c' \<and>
    (if sha1 D = mg_hashes m ! i
     then have_piece i m' \<and> read_piece (mg_writer m') i (mg_disk m') = Inr D
     else m' = (if cn_exclusive c then abort_piece i else id) (m\<lparr>mg_hash_failures := u64 (mg_hash_failures m + 1)\<rparr>))"
proof -
  note cur = session_ok_current [OF assms(1,2)]
  have i: "i < mg_num_pieces m" "if_length p = piece_length i m" using cur(3) assms(3) by (auto simp: in_flight_ok_def)
  have i32: "i < 2 ^ 32" using i(1) cur(1) by (simp add: geometry_def)
  have len: "if_length p < 2 ^ 32" using piece_length_bound(2) [OF cur(1) i(1) cur(2)] i(2) by (simp add: BLOCK_SIZE_def)
  have nh: "\<not> mg_have m ! i" using assms(5) i(1) by (simp add: have_piece_def)
  have D: "length D = piece_length i m" using assms(6) i(2) by (simp add: agrees_def)
  note go = deliver_blocks [OF cur(3) assms(6) len in_flight_total(1) [OF cur(3,1,2)] assms(3) i32 assms(2) _ assms(8,9,7)]
  show ?thesis
  proof (cases "sha1 D = mg_hashes m ! i")
    case True
    obtain m' where "complete_piece sha1 i D m = (Inr True, m')" "have_piece i m'"
      "read_piece (mg_writer m') i (mg_disk m') = Inr D"
      using complete_stores [OF cur(1) assms(4) i(1) nh D, of sha1] True by auto
    then show ?thesis using go [of sha1 True m'] True by auto
  next
    case False
    then have "complete_piece sha1 i D m = (Inr False, m\<lparr>mg_hash_failures := u64 (mg_hash_failures m + 1)\<rparr>)"
      using i(1) nh by (simp add: complete_piece_def)
    from go [OF this] show ?thesis using False by auto
  qed
qed

theorem blocks_assemble_witness:
  "\<exists>c' m'. deliver (\<lambda>b. b) [block_at sample_data 0 0, block_at sample_data 0 0] (sample_conn, sample_manager) = (None, (c', m')) \<and>
    read_piece (mg_writer m') 0 (mg_disk m') = Inr sample_data"
proof -
  let ?p = "new_in_flight 0 8"
  have p: "if_index ?p = 0" "if_total ?p = 1" "if_done ?p = 0" "if_length ?p = 8" "if_received ?p = [False]"
    by (simp_all add: new_in_flight_def Let_def BLOCK_SIZE_def u32_def)
  have "agrees sample_data ?p" using p by (simp add: agrees_def sample_data_def BLOCK_SIZE_def)
  moreover have "cn_current sample_conn = Some ?p" by (simp add: sample_conn_def)
  moreover have "disk_ok (mg_writer sample_manager) (mg_disk sample_manager)" using sample_dw_ok(1) by (simp add: sample_manager_def)
  moreover have "\<not> have_piece 0 sample_manager" "mg_hashes sample_manager ! 0 = sample_data"
    by (simp_all add: have_piece_def sample_manager_def)
  ultimately show ?thesis
    using blocks_assemble [OF sample_session, of ?p 0 sample_data "[0, 0]" "\<lambda>b. b"] p by auto
qed

end
