(* ===== verification/Tracker.thy ===== *)
theory Tracker
  imports Addresses
begin

section \<open>Trackers: protocols, addresses and requests\<close>

text \<open>
  What both tracker clients share: \<^verbatim>\<open>TrackerProtocol\<close>
  (\<^verbatim>\<open>inc/trackers/tracker_protocol.h\<close>), \<^verbatim>\<open>TrackerDetails\<close>
  (\<^verbatim>\<open>inc/trackers/tracker_details.h\<close>), the announce URL that a torrent file
  names (\<^verbatim>\<open>TorrentFile::extract_tracker_information\<close>) and the values of an
  announce (\<^verbatim>\<open>inc/trackers/tracker_communicator.h\<close>).
\<close>

datatype tracker_protocol = HTTP | HTTPS | UDP

fun scheme :: "tracker_protocol \<Rightarrow> bytes" where
  "scheme HTTP = str ''http''" | "scheme HTTPS = str ''https''" | "scheme UDP = str ''udp''"

fun default_port :: "tracker_protocol \<Rightarrow> 16 word" where
  "default_port HTTP = 80" | "default_port HTTPS = 443" | "default_port UDP = 6969"

definition from_scheme :: "bytes \<Rightarrow> tracker_protocol option" where
  "from_scheme s = (if s = str ''http'' then Some HTTP else if s = str ''https'' then Some HTTPS
     else if s = str ''udp'' then Some UDP else None)"

record tracker_details =
  td_protocol :: tracker_protocol
  td_hostname :: bytes
  td_port :: "16 word"
  td_path :: bytes

definition td_to_string :: "tracker_details \<Rightarrow> bytes" where
  "td_to_string td = scheme (td_protocol td) @ str ''://'' @ td_hostname td @ str '':'' @ dec (unat (td_port td)) @ td_path td"

datatype tracker_event = EventNone | EventCompleted | EventStarted | EventStopped

fun event_code :: "tracker_event \<Rightarrow> 32 word" where
  "event_code EventNone = 0" | "event_code EventCompleted = 1" | "event_code EventStarted = 2" | "event_code EventStopped = 3"

record tracker_request =
  an_info_hash :: info_hash
  an_peer_id :: bytes
  an_downloaded :: nat
  an_left :: nat
  an_uploaded :: nat
  an_event :: tracker_event
  an_port :: "16 word"

subsection \<open>Searching in strings\<close>

text \<open>\<^verbatim>\<open>std::string::find\<close>: the first position at or after \<open>i\<close> where \<open>pat\<close> occurs.\<close>

function find_from :: "bytes \<Rightarrow> bytes \<Rightarrow> nat \<Rightarrow> nat option" where
  "find_from s pat i =
     (if length s < i + length pat then None
      else if take (length pat) (drop i s) = pat then Some i
      else find_from s pat (i + 1))"
  by pat_completeness auto
termination
  by (relation "measure (\<lambda>(s, pat, i). Suc (length s) - i)") auto

declare find_from.simps [simp del]

definition crlf :: bytes where "crlf = [13, 10]"

text \<open>
  \<^verbatim>\<open>std::stoi\<close>: leading white space and a sign, then as many digits as there
  are; no digit is an error, as is a value that does not fit an \<^verbatim>\<open>int\<close>.
\<close>

definition stoi :: "bytes \<Rightarrow> int option" where
  "stoi s =
     (let s = dropWhile is_space s;
          neg = (s \<noteq> [] \<and> hd s = 45);
          s = (if s \<noteq> [] \<and> (hd s = 45 \<or> hd s = 43) then tl s else s);
          ds = takeWhile is_digit s;
          v = (if neg then - int (digits_val ds) else int (digits_val ds))
      in if ds = [] \<or> v < - (2 ^ 31) \<or> 2 ^ 31 \<le> v then None else Some v)"

datatype url_error = InvalidAnnounceUrl | UnknownProtocol | BadPort

definition extract_tracker_information :: "bytes \<Rightarrow> url_error + tracker_details" where
  "extract_tracker_information announce =
     (case find_from announce (str ''://'') 0 of
        None \<Rightarrow> Inl InvalidAnnounceUrl
      | Some s0 \<Rightarrow>
          (case from_scheme (take s0 announce) of
             None \<Rightarrow> Inl UnknownProtocol
           | Some proto \<Rightarrow>
               let start = s0 + 3;
                   fin = (case find_from announce (str ''/'') start of None \<Rightarrow> length announce | Some e \<Rightarrow> e);
                   hostname = take (fin - start) (drop start announce);
                   path = (if drop fin announce = [] then str ''/'' else drop fin announce)
               in case find_from hostname (str '':'') 0 of
                    None \<Rightarrow> Inr \<lparr>td_protocol = proto, td_hostname = hostname, td_port = default_port proto, td_path = path\<rparr>
                  | Some colon \<Rightarrow>
                      (case stoi (drop (colon + 1) hostname) of
                         None \<Rightarrow> Inl BadPort
                       | Some p \<Rightarrow> Inr \<lparr>td_protocol = proto, td_hostname = take colon hostname,
                                        td_port = of_int p, td_path = path\<rparr>)))"

subsection \<open>Where a search stops\<close>

lemma find_from_Some:
  "find_from s pat i = Some j \<Longrightarrow> i \<le> j \<and> j + length pat \<le> length s \<and> take (length pat) (drop j s) = pat \<and>
     (\<forall>k. i \<le> k \<and> k < j \<longrightarrow> take (length pat) (drop k s) \<noteq> pat)"
proof (induction s pat i rule: find_from.induct)
  case (1 s pat i)
  have r: "find_from s pat i = (if length s < i + length pat then None
      else if take (length pat) (drop i s) = pat then Some i else find_from s pat (i + 1))"
    by (rule find_from.simps)
  show ?case
  proof (cases "take (length pat) (drop i s) = pat")
    case True
    then show ?thesis using 1(2) r by (auto split: if_splits)
  next
    case False
    then have n: "\<not> length s < i + length pat" "find_from s pat (i + 1) = Some j"
      using 1(2) r by (auto split: if_splits)
    have "k = i \<or> i + 1 \<le> k" if "i \<le> k" for k using that by linarith
    then show ?thesis using 1(1) [OF n(1) False n(2)] False by (metis add_leD1)
  qed
qed

lemma find_from_None:
  "find_from s pat i = None \<longleftrightarrow> (\<forall>k. i \<le> k \<and> k + length pat \<le> length s \<longrightarrow> take (length pat) (drop k s) \<noteq> pat)"
proof (induction s pat i rule: find_from.induct)
  case (1 s pat i)
  have r: "find_from s pat i = (if length s < i + length pat then None
      else if take (length pat) (drop i s) = pat then Some i else find_from s pat (i + 1))"
    by (rule find_from.simps)
  show ?case
  proof (cases "length s < i + length pat")
    case True
    then show ?thesis using r by auto
  next
    case len: False
    show ?thesis
    proof (cases "take (length pat) (drop i s) = pat")
      case True
      then show ?thesis using r len by (auto intro!: exI [of _ i])
    next
      case False
      then have "find_from s pat i = find_from s pat (i + 1)" using r len by simp
      moreover have "(i \<le> k) = (k = i \<or> i + 1 \<le> k)" for k by linarith
      ultimately show ?thesis using 1 [OF len False] False by metis
    qed
  qed
qed

text \<open>The first occurrence of a pattern after a prefix that cannot contain its first byte.\<close>

lemma find_from_at:
  assumes "pat \<noteq> []" "hd pat \<notin> set mid"
  shows "find_from (pre @ mid @ pat @ post) pat (length pre) = Some (length pre + length mid)"
proof -
  let ?s = "pre @ mid @ pat @ post"
  have no: "take (length pat) (drop k ?s) \<noteq> pat" if k: "length pre \<le> k" "k < length pre + length mid" for k
  proof
    assume eq: "take (length pat) (drop k ?s) = pat"
    have "drop k ?s = drop (k - length pre) mid @ pat @ post" using k by simp
    moreover have "drop (k - length pre) mid \<noteq> []" using k by simp
    ultimately have "hd (take (length pat) (drop k ?s)) = hd (drop (k - length pre) mid)"
      using assms(1) by (simp add: hd_append take_Cons' split: list.splits)
    then have "hd pat = hd (drop (k - length pre) mid)" using eq by simp
    moreover have "hd (drop (k - length pre) mid) \<in> set mid"
      using \<open>drop (k - length pre) mid \<noteq> []\<close> by (meson in_set_dropD list.set_sel(1))
    ultimately show False using assms(2) by simp
  qed
  have hit: "take (length pat) (drop (length pre + length mid) ?s) = pat" by simp
  have "find_from ?s pat (length pre) \<noteq> None"
  proof
    assume "find_from ?s pat (length pre) = None"
    then have "length pre + length mid + length pat \<le> length ?s \<longrightarrow> take (length pat) (drop (length pre + length mid) ?s) \<noteq> pat"
      unfolding find_from_None by (meson le_add1)
    then show False using hit by simp
  qed
  then obtain j where j: "find_from ?s pat (length pre) = Some j" by auto
  note f = find_from_Some [OF j]
  have "\<not> j < length pre + length mid" using no [of j] f by blast
  moreover have "\<not> length pre + length mid < j" using f hit by (meson le_add1)
  ultimately show ?thesis using j by simp
qed

lemma find_from_absent:
  assumes "hd pat \<notin> set s" "pat \<noteq> []"
  shows "find_from s pat i = None"
proof -
  have "take (length pat) (drop k s) \<noteq> pat" if "k + length pat \<le> length s" for k
  proof
    assume eq: "take (length pat) (drop k s) = pat"
    have "hd pat \<in> set pat" using assms(2) by simp
    then have "hd pat \<in> set s" using eq by (metis in_set_dropD in_set_takeD)
    then show False using assms(1) by simp
  qed
  then show ?thesis unfolding find_from_None by blast
qed

lemma stoi_dec: "n < 2 ^ 31 \<Longrightarrow> stoi (dec n) = Some (int n)"
proof -
  assume n: "n < 2 ^ 31"
  have ne: "dec n \<noteq> []" and hd: "is_digit (hd (dec n))" using hd_dec_digit [of n] by (auto simp: dec.simps [of n])
  then have "\<not> is_space (hd (dec n))" "hd (dec n) \<noteq> 45" "hd (dec n) \<noteq> 43" 
    by (auto simp: is_digit_def is_space_def word_le_nat_alt)
  moreover have "dropWhile is_space (dec n) = dec n" using ne calculation(1) by (cases "dec n") auto
  moreover have "takeWhile is_digit (dec n) = dec n" using takeWhile_dec_rest [of "[]" n] by simp
  ultimately show ?thesis using n ne by (simp add: stoi_def Let_def del: takeWhile_eq_all_conv)
qed

text \<open>
  The port is narrowed from \<^verbatim>\<open>int\<close> to 16 bits without a check, so a port out of
  range is silently replaced by another one.
\<close>

lemma port_wraps:
  "extract_tracker_information (str ''udp://t:65616/a'') =
     Inr \<lparr>td_protocol = UDP, td_hostname = str ''t'', td_port = 80, td_path = str ''/a''\<rparr>"
  by (simp add: extract_tracker_information_def find_from.simps from_scheme_def stoi_def is_space_def is_digit_def
      digits_val_def digit_val_def Let_def)

subsection \<open>Properties\<close>

text \<open>An announce URL that spells out a tracker is read back as that tracker: for a
  host name without colon and slash and a path that starts with a slash, the
  protocol, the host, the port and the path are recovered exactly.\<close>

theorem announce_url_round_trip:
  assumes "58 \<notin> set (td_hostname td)" "47 \<notin> set (td_hostname td)" "td_path td \<noteq> []" "hd (td_path td) = 47"
  shows "extract_tracker_information (td_to_string td) = Inr td"
proof -
  let ?s = "td_to_string td" and ?sch = "scheme (td_protocol td)" and ?d = "dec (unat (td_port td))"
  let ?host = "td_hostname td @ str '':'' @ ?d"
  have col: "(58 :: byte) \<notin> set ?d" "(47 :: byte) \<notin> set ?d" using dec_digits [of 58 "unat (td_port td)"] dec_digits [of 47 "unat (td_port td)"]
    by (auto simp: is_digit_def)
  obtain rest where path: "td_path td = 47 # rest" using assms(3,4) by (cases "td_path td") auto
  have s: "?s = ?sch @ str ''://'' @ ?host @ td_path td" by (simp add: td_to_string_def)
  have sch: "(58 :: byte) \<notin> set ?sch" by (cases "td_protocol td") auto
  have 1: "find_from ?s (str ''://'') 0 = Some (length ?sch)"
    using find_from_at [of "str ''://''" ?sch "[]" "?host @ td_path td"] sch s by simp
  have proto: "from_scheme (take (length ?sch) ?s) = Some (td_protocol td)"
    unfolding s by (cases "td_protocol td") (simp_all add: from_scheme_def)
  have 2: "find_from ?s (str ''/'') (length ?sch + 3) = Some (length ?sch + 3 + length ?host)"
  proof -
    have "find_from ((?sch @ str ''://'') @ ?host @ str ''/'' @ rest) (str ''/'') (length (?sch @ str ''://'')) =
        Some (length (?sch @ str ''://'') + length ?host)"
      by (rule find_from_at) (use assms(2) col(2) in simp_all)
    moreover have "(?sch @ str ''://'') @ ?host @ str ''/'' @ rest = ?s" by (simp add: s path)
    moreover have "length (?sch @ str ''://'') = length ?sch + 3" by simp
    ultimately show ?thesis by (simp only:)
  qed
  have host: "take (length ?sch + 3 + length ?host - (length ?sch + 3)) (drop (length ?sch + 3) ?s) = ?host"
    by (simp add: s)
  have rest: "drop (length ?sch + 3 + length ?host) ?s = td_path td"
  proof -
    define x where "x = ?sch @ str ''://'' @ ?host"
    have "drop (length x) (x @ td_path td) = td_path td" by simp
    moreover have "x @ td_path td = ?s" "length x = length ?sch + 3 + length ?host" by (simp_all add: x_def s)
    ultimately show ?thesis by (simp only:)
  qed
  have 3: "find_from ?host (str '':'') 0 = Some (length (td_hostname td))"
    using find_from_at [of "str '':''" "td_hostname td" "[]" ?d] assms(1) by simp
  have "unat (td_port td) < 2 ^ 31" using unsigned_less [where 'a = nat and w = "td_port td"] by simp
  then have 4: "stoi (drop (length (td_hostname td) + 1) ?host) = Some (int (unat (td_port td)))"
    using stoi_dec by simp
  show ?thesis
    unfolding extract_tracker_information_def 1 option.case proto Let_def 2 host rest 3 4 by (simp add: assms(3))
qed

theorem announce_url_round_trip_witness:
  "extract_tracker_information (str ''udp://tracker:1337/announce'') =
     Inr \<lparr>td_protocol = UDP, td_hostname = str ''tracker'', td_port = 1337, td_path = str ''/announce''\<rparr>"
proof -
  let ?td = "\<lparr>td_protocol = UDP, td_hostname = str ''tracker'', td_port = 1337, td_path = str ''/announce''\<rparr>"
  have "td_to_string ?td = str ''udp://tracker:1337/announce''" by code_simp
  moreover have "extract_tracker_information (td_to_string ?td) = Inr ?td"
    by (rule announce_url_round_trip) simp_all
  ultimately show ?thesis by simp
qed

end
