(* ===== verification/Torrent_Manager.thy ===== *)
theory Torrent_Manager
  imports Peer_Session Tracker
begin

section \<open>Torrent managers\<close>

text \<open>
  \<^verbatim>\<open>TorrentManager\<close> (\<^verbatim>\<open>inc/peer_wire/torrent_manager.h\<close>,
  \<^verbatim>\<open>src/peer_wire/torrent_manager.cpp\<close>): the pool of peer workers of one
  torrent. Each operation that takes \<^verbatim>\<open>m_spawn_mu\<close> is one definition on the
  manager's state. \<^verbatim>\<open>run_peer_worker\<close> is given as the composition of its
  sections with a session of the peer connection between them, and the
  interleaving of several workers, DHT callbacks, \<^verbatim>\<open>start\<close> and \<^verbatim>\<open>stop\<close> as a step
  relation over the same sections. The tracker is a function from the announced
  values to the peers it returns, \<^verbatim>\<open>None\<close> for an exception. The event counters,
  which never exceed the number of peers, are natural numbers; the byte
  counters wrap at 64 bits. Logging and the summary file are left out.
\<close>

type_synonym tracker = "tracker_request \<Rightarrow> peer_address list option"

text \<open>An entry of \<^verbatim>\<open>m_active_connections\<close>: the worker that owns the connection and its counters.\<close>

record active_conn =
  ac_worker :: nat
  ac_peer :: peer_address
  ac_downloaded :: nat
  ac_uploaded :: nat
  ac_blocks :: nat

record torrent_manager =
  tm_info_hash :: info_hash
  tm_peer_id :: bytes
  tm_port :: "16 word"
  tm_total_size :: nat
  tm_manager :: piece_manager
  tm_tracker :: bool
  tm_all_peers :: "peer_address list"
  tm_next_peer :: nat
  tm_running :: nat
  tm_threads :: "nat list"
  tm_active :: "active_conn list"
  tm_uploaded_retired :: nat
  tm_blocks_retired :: nat
  tm_dht_peers :: nat
  tm_workers_started :: nat
  tm_handshakes_ok :: nat
  tm_handshake_failed :: nat
  tm_run_failed :: nat
  tm_started :: bool
  tm_stopped :: bool
  tm_start_time :: nat
  tm_complete_time :: nat
  tm_summary_written :: bool

definition k_max_concurrent_peers :: nat where "k_max_concurrent_peers = 40"

definition tm_new :: "info_hash \<Rightarrow> 16 word \<Rightarrow> nat \<Rightarrow> piece_manager \<Rightarrow> torrent_manager" where
  "tm_new h listen_port nbytes m =
     \<lparr>tm_info_hash = h, tm_peer_id = replicate 20 0, tm_port = listen_port, tm_total_size = nbytes, tm_manager = m,
      tm_tracker = False, tm_all_peers = [], tm_next_peer = 0, tm_running = 0, tm_threads = [], tm_active = [],
      tm_uploaded_retired = 0, tm_blocks_retired = 0, tm_dht_peers = 0, tm_workers_started = 0,
      tm_handshakes_ok = 0, tm_handshake_failed = 0, tm_run_failed = 0, tm_started = False, tm_stopped = False,
      tm_start_time = 0, tm_complete_time = 0, tm_summary_written = False\<rparr>"

subsection \<open>The worker pool\<close>

function spawn_peers_locked :: "torrent_manager \<Rightarrow> torrent_manager" where
  "spawn_peers_locked t =
     (if \<not> tm_stopped t \<and> tm_running t < k_max_concurrent_peers \<and> tm_next_peer t < length (tm_all_peers t)
      then if is_complete (tm_manager t) then t
           else spawn_peers_locked (t\<lparr>tm_next_peer := tm_next_peer t + 1, tm_running := tm_running t + 1,
                                      tm_threads := tm_threads t @ [tm_next_peer t]\<rparr>)
      else t)"
  by pat_completeness auto
termination
  by (relation "measure (\<lambda>t. length (tm_all_peers t) - tm_next_peer t)") auto

declare spawn_peers_locked.simps [simp del]

definition append_unique_peers :: "peer_address list \<Rightarrow> torrent_manager \<Rightarrow> torrent_manager" where
  "append_unique_peers peers t =
     t\<lparr>tm_all_peers := fold (\<lambda>p ps. if p \<in> set ps then ps else ps @ [p]) peers (tm_all_peers t)\<rparr>"

definition add_dht_peer :: "peer_address \<Rightarrow> torrent_manager \<Rightarrow> bool \<times> torrent_manager" where
  "add_dht_peer peer t =
     (let before = length (tm_all_peers t);
          t = append_unique_peers [peer] t
      in if length (tm_all_peers t) = before then (False, t)
         else (True, spawn_peers_locked (t\<lparr>tm_dht_peers := tm_dht_peers t + 1\<rparr>)))"

definition on_peer_worker_finished :: "torrent_manager \<Rightarrow> torrent_manager" where
  "on_peer_worker_finished t =
     spawn_peers_locked (if 0 < tm_running t then t\<lparr>tm_running := tm_running t - 1\<rparr> else t)"

subsection \<open>Announces\<close>

definition announce :: "tracker \<Rightarrow> tracker_event \<Rightarrow> torrent_manager \<Rightarrow> peer_address list" where
  "announce tracker event t =
     (if \<not> tm_tracker t then []
      else let downloaded = mg_downloaded (tm_manager t);
               nbytes = tm_total_size t;
               left = (if downloaded \<le> nbytes then nbytes - downloaded else 0)
           in case tracker \<lparr>an_info_hash = tm_info_hash t, an_peer_id = tm_peer_id t, an_downloaded = downloaded,
                             an_left = left, an_uploaded = 0, an_event = event, an_port = tm_port t\<rparr> of
                Some peers \<Rightarrow> peers
              | None \<Rightarrow> [])"

definition start_pool :: "peer_address list \<Rightarrow> torrent_manager \<Rightarrow> torrent_manager" where
  "start_pool tracker_peers t =
     (let t = (if tracker_peers \<noteq> [] then append_unique_peers tracker_peers t else t)
      in if tm_all_peers t \<noteq> [] then spawn_peers_locked t else t)"

definition start :: "tracker \<Rightarrow> bytes \<Rightarrow> nat \<Rightarrow> torrent_manager \<Rightarrow> disk_error option \<times> torrent_manager" where
  "start tracker peer_id now t =
     (if tm_started t then (None, t)
      else let t = t\<lparr>tm_started := True, tm_start_time := now, tm_peer_id := peer_id, tm_tracker := True\<rparr>
           in case preallocate_files (mg_writer (tm_manager t)) (mg_disk (tm_manager t)) of
                (e, dw, d) \<Rightarrow>
                  let t = t\<lparr>tm_manager := (tm_manager t)\<lparr>mg_writer := dw, mg_disk := d\<rparr>\<rparr>
                  in if e \<noteq> None then (e, t)
                     else (None, start_pool (announce tracker EventStarted t) t))"

text \<open>
  \<^verbatim>\<open>stop\<close> sets its flag, shuts down the sockets of the active connections, here the
  workers that own them, and joins the threads; then it announces these events.
\<close>

definition stop :: "torrent_manager \<Rightarrow> torrent_manager \<times> nat list" where
  "stop t =
     (if tm_stopped t then (t, [])
      else let t = t\<lparr>tm_stopped := True\<rparr> in (t, map ac_worker (tm_active t)))"

lemma fst_stop [simp]: "fst (stop t) = t\<lparr>tm_stopped := True\<rparr>"
  by (cases t) (simp add: stop_def)

definition stop_events :: "torrent_manager \<Rightarrow> tracker_event list" where
  "stop_events t =
     (if tm_tracker t then (if is_complete (tm_manager t) then [EventCompleted] else []) @ [EventStopped] else [])"

subsection \<open>Workers\<close>

definition locate_peer :: "nat \<Rightarrow> torrent_manager \<Rightarrow> peer_address option \<times> torrent_manager" where
  "locate_peer idx t =
     (if length (tm_all_peers t) \<le> idx then None else Some (tm_all_peers t ! idx),
      t\<lparr>tm_workers_started := tm_workers_started t + 1\<rparr>)"

definition register_conn :: "nat \<Rightarrow> peer_address \<Rightarrow> torrent_manager \<Rightarrow> torrent_manager" where
  "register_conn idx peer t =
     t\<lparr>tm_active := tm_active t @ [\<lparr>ac_worker = idx, ac_peer = peer, ac_downloaded = 0, ac_uploaded = 0, ac_blocks = 0\<rparr>]\<rparr>"

definition conn_traffic :: "nat \<Rightarrow> nat \<Rightarrow> nat \<Rightarrow> nat \<Rightarrow> torrent_manager \<Rightarrow> torrent_manager" where
  "conn_traffic idx down up blocks t =
     t\<lparr>tm_active := map (\<lambda>a. if ac_worker a = idx
         then a\<lparr>ac_downloaded := u64 (ac_downloaded a + down), ac_uploaded := u64 (ac_uploaded a + up),
                ac_blocks := u64 (ac_blocks a + blocks)\<rparr> else a) (tm_active t)\<rparr>"

definition unregister :: "nat \<Rightarrow> torrent_manager \<Rightarrow> torrent_manager" where
  "unregister idx t =
     (let mine = filter (\<lambda>a. ac_worker a = idx) (tm_active t)
      in t\<lparr>tm_uploaded_retired := u64 (tm_uploaded_retired t + sum_list (map ac_uploaded mine)),
           tm_blocks_retired := u64 (tm_blocks_retired t + sum_list (map ac_blocks mine)),
           tm_active := filter (\<lambda>a. ac_worker a \<noteq> idx) (tm_active t)\<rparr>)"

text \<open>
  A worker on its own: \<open>input\<close> is what the peer sends and \<open>k\<close> the number of sends
  that succeed. On the failure of the handshake the connection is destroyed
  after \<^verbatim>\<open>on_peer_worker_finished\<close>, at the end of the session before it.
\<close>

definition destroy_conn :: "session \<Rightarrow> torrent_manager \<Rightarrow> torrent_manager" where
  "destroy_conn s t = t\<lparr>tm_manager := snd (cn_close (fst s, tm_manager t))\<rparr>"

definition session_done :: "nat \<Rightarrow> session \<Rightarrow> torrent_manager \<Rightarrow> torrent_manager" where
  "session_done idx s t =
     conn_traffic idx (cn_downloaded (fst s)) (cn_uploaded (fst s)) (cn_blocks_uploaded (fst s)) (t\<lparr>tm_manager := snd s\<rparr>)"

definition run_peer_worker :: "(bytes \<Rightarrow> bytes) \<Rightarrow> bytes \<Rightarrow> nat \<Rightarrow> nat \<Rightarrow> torrent_manager \<Rightarrow> torrent_manager" where
  "run_peer_worker sha1 input k idx t =
     (case locate_peer idx t of
        (None, t) \<Rightarrow> on_peer_worker_finished t
      | (Some peer, t) \<Rightarrow>
          let t = register_conn idx peer t;
              conn = cn_new (tm_info_hash t) (tm_peer_id t) k (tm_manager t)
          in case connect input (conn, tm_manager t) of
               ((Some e, s), rest) \<Rightarrow>
                 let t = unregister idx (session_done idx s t);
                     t = t\<lparr>tm_handshake_failed := tm_handshake_failed t + 1\<rparr>
                 in destroy_conn s (on_peer_worker_finished t)
             | ((None, s), rest) \<Rightarrow>
                 let t = t\<lparr>tm_handshakes_ok := tm_handshakes_ok t + 1\<rparr>
                 in if tm_stopped t
                    then destroy_conn s (on_peer_worker_finished (unregister idx (session_done idx s t)))
                    else case run sha1 rest s of
                           (e, s) \<Rightarrow>
                             let t = session_done idx s t;
                                 t = t\<lparr>tm_run_failed := tm_run_failed t + 1\<rparr>
                             in on_peer_worker_finished (destroy_conn s (unregister idx t)))"

subsection \<open>Statistics\<close>

definition is_seeding :: "torrent_manager \<Rightarrow> bool" where
  "is_seeding t = (is_complete (tm_manager t) \<and> \<not> tm_stopped t)"

definition uploaded_bytes :: "torrent_manager \<Rightarrow> nat" where
  "uploaded_bytes t = foldl (\<lambda>n a. u64 (n + ac_uploaded a)) (tm_uploaded_retired t) (tm_active t)"

definition blocks_uploaded :: "torrent_manager \<Rightarrow> nat" where
  "blocks_uploaded t = foldl (\<lambda>n a. u64 (n + ac_blocks a)) (tm_blocks_retired t) (tm_active t)"

record peer_stat =
  ps_address :: bytes
  ps_bytes :: nat

definition top_peers :: "nat \<Rightarrow> torrent_manager \<Rightarrow> peer_stat list" where
  "top_peers n t = take n (sort_key (\<lambda>s. - int (ps_bytes s))
     (map (\<lambda>a. \<lparr>ps_address = pa_to_string (ac_peer a), ps_bytes = ac_downloaded a\<rparr>) (tm_active t)))"

definition top_upload_peers :: "nat \<Rightarrow> torrent_manager \<Rightarrow> peer_stat list" where
  "top_upload_peers n t = take n (sort_key (\<lambda>s. - int (ps_bytes s))
     (map (\<lambda>a. \<lparr>ps_address = pa_to_string (ac_peer a), ps_bytes = ac_uploaded a\<rparr>)
       (filter (\<lambda>a. 0 < ac_uploaded a) (tm_active t))))"

definition mark_complete_at :: "nat \<Rightarrow> torrent_manager \<Rightarrow> torrent_manager" where
  "mark_complete_at now t = (if tm_complete_time t = 0 then t\<lparr>tm_complete_time := now\<rparr> else t)"

definition try_mark_summary_written :: "torrent_manager \<Rightarrow> bool \<times> torrent_manager" where
  "try_mark_summary_written t = (\<not> tm_summary_written t, t\<lparr>tm_summary_written := True\<rparr>)"

subsection \<open>Interleaved workers\<close>

text \<open>
  The phases of a worker thread between its critical sections. \<open>pl_served\<close> and
  \<open>pl_blocks\<close> record what all connections together have uploaded.
\<close>

datatype phase = Spawned | Located peer_address | Registered | Connected | Ended

record pool =
  pl_tm :: torrent_manager
  pl_phase :: "phase list"
  pl_served :: nat
  pl_blocks :: nat

text \<open>A section leaves a new manager; threads it has spawned are in their first phase.\<close>

definition after :: "torrent_manager \<Rightarrow> phase list \<Rightarrow> pool \<Rightarrow> pool" where
  "after t ph s = s\<lparr>pl_tm := t, pl_phase := ph @ replicate (length (tm_threads t) - length ph) Spawned\<rparr>"

definition move :: "nat \<Rightarrow> phase \<Rightarrow> torrent_manager \<Rightarrow> pool \<Rightarrow> pool" where
  "move k ph t s = after t ((pl_phase s)[k := ph]) s"

inductive worker_step :: "pool \<Rightarrow> pool \<Rightarrow> bool" where
  enter: "k < length (pl_phase s) \<Longrightarrow> pl_phase s ! k = Spawned \<Longrightarrow>
    locate_peer (tm_threads (pl_tm s) ! k) (pl_tm s) = (Some peer, t) \<Longrightarrow> worker_step s (move k (Located peer) t s)"
| missing: "k < length (pl_phase s) \<Longrightarrow> pl_phase s ! k = Spawned \<Longrightarrow>
    locate_peer (tm_threads (pl_tm s) ! k) (pl_tm s) = (None, t) \<Longrightarrow>
    worker_step s (move k Ended (on_peer_worker_finished t) s)"
| broken: "k < length (pl_phase s) \<Longrightarrow> pl_phase s ! k = Located peer \<Longrightarrow> t = pl_tm s \<Longrightarrow>
    worker_step s (move k Ended (on_peer_worker_finished (t\<lparr>tm_handshake_failed := tm_handshake_failed t + 1\<rparr>)) s)"
| enlist: "k < length (pl_phase s) \<Longrightarrow> pl_phase s ! k = Located peer \<Longrightarrow>
    worker_step s (move k Registered (register_conn k peer (pl_tm s)) s)"
| connect_fails: "k < length (pl_phase s) \<Longrightarrow> pl_phase s ! k = Registered \<Longrightarrow> t = unregister k (pl_tm s) \<Longrightarrow>
    worker_step s (move k Ended (on_peer_worker_finished (t\<lparr>tm_handshake_failed := tm_handshake_failed t + 1\<rparr>)) s)"
| connects: "k < length (pl_phase s) \<Longrightarrow> pl_phase s ! k = Registered \<Longrightarrow> t = pl_tm s \<Longrightarrow>
    worker_step s (move k Connected (t\<lparr>tm_handshakes_ok := tm_handshakes_ok t + 1\<rparr>) s)"
| leaves: "k < length (pl_phase s) \<Longrightarrow> pl_phase s ! k = Connected \<Longrightarrow> tm_stopped (pl_tm s) \<Longrightarrow>
    worker_step s (move k Ended (on_peer_worker_finished (unregister k (pl_tm s))) s)"
| run_ends: "k < length (pl_phase s) \<Longrightarrow> pl_phase s ! k = Connected \<Longrightarrow> t = pl_tm s \<Longrightarrow>
    worker_step s (move k Ended
      (on_peer_worker_finished (unregister k (t\<lparr>tm_run_failed := tm_run_failed t + 1\<rparr>))) s)"

text \<open>
  The other steps: a peer from the DHT, \<^verbatim>\<open>start\<close> up to the announce and its section
  after it, \<^verbatim>\<open>stop\<close>, pieces that complete, and blocks served on a connection.
\<close>

inductive tm_step :: "pool \<Rightarrow> pool \<Rightarrow> bool" where
  worker: "worker_step s s' \<Longrightarrow> tm_step s s'"
| dht_peer: "add_dht_peer peer (pl_tm s) = (b, t) \<Longrightarrow> tm_step s (after t (pl_phase s) s)"
| begin_start: "\<not> tm_started (pl_tm s) \<Longrightarrow>
    tm_step s (s\<lparr>pl_tm := (pl_tm s)\<lparr>tm_started := True, tm_start_time := now, tm_peer_id := i, tm_tracker := True\<rparr>\<rparr>)"
| end_start: "tm_started (pl_tm s) \<Longrightarrow> tm_step s (after (start_pool peers (pl_tm s)) (pl_phase s) s)"
| stops: "tm_step s (s\<lparr>pl_tm := fst (stop (pl_tm s))\<rparr>)"
| pieces: "(is_complete (tm_manager (pl_tm s)) \<longrightarrow> is_complete m) \<Longrightarrow>
    tm_step s (s\<lparr>pl_tm := (pl_tm s)\<lparr>tm_manager := m\<rparr>\<rparr>)"
| traffic: "k < length (pl_phase s) \<Longrightarrow> pl_phase s ! k = Connected \<Longrightarrow>
    tm_step s (s\<lparr>pl_tm := conn_traffic k down up blocks (pl_tm s),
                  pl_served := pl_served s + up, pl_blocks := pl_blocks s + blocks\<rparr>)"

inductive tm_reach :: "torrent_manager \<Rightarrow> pool \<Rightarrow> bool" for t0 where
  fresh: "tm_reach t0 \<lparr>pl_tm = t0, pl_phase = [], pl_served = 0, pl_blocks = 0\<rparr>"
| further: "tm_reach t0 s \<Longrightarrow> tm_step s s' \<Longrightarrow> tm_reach t0 s'"

subsection \<open>The pool invariant\<close>

definition enlisted :: "phase \<Rightarrow> bool" where
  "enlisted ph = (ph = Registered \<or> ph = Connected)"

definition alive :: "phase list \<Rightarrow> nat" where
  "alive ph = length (filter (\<lambda>x. x \<noteq> Ended) ph)"

text \<open>Enough workers: nothing is left to do, or all the slots are taken, or no peer is left.\<close>

definition busy :: "torrent_manager \<Rightarrow> bool" where
  "busy t = (tm_stopped t \<or> is_complete (tm_manager t) \<or> tm_running t = k_max_concurrent_peers \<or>
     tm_next_peer t = length (tm_all_peers t))"

definition slots_ok :: "torrent_manager \<Rightarrow> bool" where
  "slots_ok t = (tm_threads t = [0..<tm_next_peer t] \<and> tm_next_peer t \<le> length (tm_all_peers t) \<and>
     distinct (tm_all_peers t) \<and> tm_running t \<le> k_max_concurrent_peers)"

definition uploads_ok :: "nat \<Rightarrow> nat \<Rightarrow> phase list \<Rightarrow> torrent_manager \<Rightarrow> bool" where
  "uploads_ok up bl ph t = (uploaded_bytes t = u64 up \<and> blocks_uploaded t = u64 bl \<and>
     distinct (map ac_worker (tm_active t)) \<and>
     ac_worker ` set (tm_active t) = {k. k < length ph \<and> enlisted (ph ! k)})"

text \<open>
  The statistics add up: every worker that has started is waiting for its
  handshake or is counted as one that succeeded or one that failed.
\<close>

definition pending :: "phase \<Rightarrow> bool" where
  "pending ph = (ph = Registered \<or> (\<exists>p. ph = Located p))"

definition counts_ok :: "phase list \<Rightarrow> torrent_manager \<Rightarrow> bool" where
  "counts_ok ph t = (tm_workers_started t = length (filter (\<lambda>x. x \<noteq> Spawned) ph) \<and>
     tm_workers_started t = tm_handshakes_ok t + tm_handshake_failed t + length (filter pending ph) \<and>
     tm_run_failed t + length (filter (\<lambda>x. x = Connected) ph) \<le> tm_handshakes_ok t)"

definition pool_inv :: "pool \<Rightarrow> bool" where
  "pool_inv s = (slots_ok (pl_tm s) \<and> length (pl_phase s) = tm_next_peer (pl_tm s) \<and>
     tm_running (pl_tm s) = alive (pl_phase s) \<and> busy (pl_tm s) \<and> counts_ok (pl_phase s) (pl_tm s) \<and>
     uploads_ok (pl_served s) (pl_blocks s) (pl_phase s) (pl_tm s))"

lemma spawn_effect:
  "\<exists>n. spawn_peers_locked t = t\<lparr>tm_next_peer := tm_next_peer t + n, tm_running := tm_running t + n,
       tm_threads := tm_threads t @ [tm_next_peer t..<tm_next_peer t + n]\<rparr> \<and>
     (n = 0 \<or> \<not> tm_stopped t \<and> \<not> is_complete (tm_manager t) \<and> tm_running t + n \<le> k_max_concurrent_peers \<and>
        tm_next_peer t + n \<le> length (tm_all_peers t)) \<and>
     (tm_stopped t \<or> is_complete (tm_manager t) \<or> k_max_concurrent_peers \<le> tm_running t + n \<or>
        length (tm_all_peers t) \<le> tm_next_peer t + n)"
proof (induction t rule: spawn_peers_locked.induct)
  case (1 t)
  let ?go = "\<not> tm_stopped t \<and> tm_running t < k_max_concurrent_peers \<and> tm_next_peer t < length (tm_all_peers t)"
  show ?case
  proof (cases "?go \<and> \<not> is_complete (tm_manager t)")
    case False
    then have "spawn_peers_locked t = t" by (subst spawn_peers_locked.simps) auto
    then show ?thesis using False by (intro exI [of _ 0]) auto
  next
    case True
    let ?t = "t\<lparr>tm_next_peer := tm_next_peer t + 1, tm_running := tm_running t + 1, tm_threads := tm_threads t @ [tm_next_peer t]\<rparr>"
    have eq: "spawn_peers_locked t = spawn_peers_locked ?t" using True by (subst spawn_peers_locked.simps) simp
    obtain n where n: "spawn_peers_locked ?t = ?t\<lparr>tm_next_peer := tm_next_peer ?t + n, tm_running := tm_running ?t + n,
         tm_threads := tm_threads ?t @ [tm_next_peer ?t..<tm_next_peer ?t + n]\<rparr>"
       "n = 0 \<or> \<not> tm_stopped ?t \<and> \<not> is_complete (tm_manager ?t) \<and> tm_running ?t + n \<le> k_max_concurrent_peers \<and>
          tm_next_peer ?t + n \<le> length (tm_all_peers ?t)"
       "tm_stopped ?t \<or> is_complete (tm_manager ?t) \<or> k_max_concurrent_peers \<le> tm_running ?t + n \<or>
          length (tm_all_peers ?t) \<le> tm_next_peer ?t + n"
      using 1 True by blast
    have "[tm_next_peer t..<tm_next_peer t + Suc n] = tm_next_peer t # [Suc (tm_next_peer t)..<tm_next_peer t + Suc n]"
      by (rule upt_conv_Cons) simp
    then show ?thesis using n True eq by (intro exI [of _ "Suc n"]) auto
  qed
qed

lemma count_update:
  "k < length ph \<Longrightarrow> length (filter P (ph[k := x])) + of_bool (P (ph ! k)) = length (filter P ph) + of_bool (P x)"
proof (induction ph arbitrary: k)
  case (Cons a ph)
  then show ?case by (cases k) auto
qed simp

lemma append_peers:
  fixes all :: "peer_address list"
  defines "add \<equiv> fold (\<lambda>p ps. if p \<in> set ps then ps else ps @ [p])"
  assumes "distinct all"
  shows "distinct (add ps all)" "set (add ps all) = set all \<union> set ps" "\<exists>zs. add ps all = all @ zs"
proof -
  have "distinct (add ps all) \<and> set (add ps all) = set all \<union> set ps \<and> (\<exists>zs. add ps all = all @ zs)"
    using assms(2)
  proof (induction ps arbitrary: all)
    case (Cons p ps)
    let ?all = "if p \<in> set all then all else all @ [p]"
    have "distinct ?all" using Cons(2) by simp
    from Cons(1) [OF this] show ?case by (auto simp: add_def)
  qed (simp add: add_def)
  then show "distinct (add ps all)" "set (add ps all) = set all \<union> set ps" "\<exists>zs. add ps all = all @ zs" by auto
qed

subsection \<open>Upload totals\<close>

lemma u64_plus: "u64 (a + u64 b) = u64 (a + b)"
  by (simp add: u64_def mod_simps)

lemma foldl_u64: "foldl (\<lambda>n a. u64 (n + f a)) z xs = (if xs = [] then z else u64 (z + sum_list (map f xs)))"
  by (induction xs arbitrary: z) (auto simp: u64_def mod_simps add.assoc)

lemma sum_split: "sum_list (map f (filter P xs)) + sum_list (map f (filter (\<lambda>x. \<not> P x) xs)) = sum_list (map f xs)"
  for f :: "'a \<Rightarrow> nat"
  by (induction xs) auto

lemma sum_bump:
  assumes "distinct (map w xs)" "k \<in> w ` set xs"
  shows "u64 (z + sum_list (map (\<lambda>a. if w a = k then u64 (f a + c) else f a) xs)) = u64 (z + sum_list (map f xs) + c)"
  using assms
proof (induction xs arbitrary: z)
  case (Cons a xs)
  show ?case
  proof (cases "w a = k")
    case True
    then have "\<forall>x\<in>set xs. w x \<noteq> k" using Cons(2) by (metis distinct.simps(2) image_eqI list.simps(9) list.set_map)
    then have "sum_list (map (\<lambda>a. if w a = k then u64 (f a + c) else f a) xs) = sum_list (map f xs)"
      by (intro arg_cong [where f = sum_list]) simp
    moreover have "u64 (z + (u64 (f a + c) + r)) = u64 (z + (f a + r) + c)" for r
      using u64_plus [of "z + r" "f a + c"] by (simp add: ac_simps)
    ultimately show ?thesis using True by simp
  next
    case False
    then show ?thesis using Cons(1) [of "z + f a"] Cons(2,3) by (auto simp: add.assoc)
  qed
qed simp

lemma uploads_frame [simp]:
  "uploads_ok up bl ph (t\<lparr>tm_next_peer := a\<rparr>) = uploads_ok up bl ph t"
  "uploads_ok up bl ph (t\<lparr>tm_running := a\<rparr>) = uploads_ok up bl ph t"
  "uploads_ok up bl ph (t\<lparr>tm_threads := ks\<rparr>) = uploads_ok up bl ph t"
  "uploads_ok up bl ph (t\<lparr>tm_all_peers := ps\<rparr>) = uploads_ok up bl ph t"
  "uploads_ok up bl ph (t\<lparr>tm_dht_peers := a\<rparr>) = uploads_ok up bl ph t"
  "uploads_ok up bl ph (t\<lparr>tm_workers_started := a\<rparr>) = uploads_ok up bl ph t"
  "uploads_ok up bl ph (t\<lparr>tm_handshakes_ok := a\<rparr>) = uploads_ok up bl ph t"
  "uploads_ok up bl ph (t\<lparr>tm_handshake_failed := a\<rparr>) = uploads_ok up bl ph t"
  "uploads_ok up bl ph (t\<lparr>tm_run_failed := a\<rparr>) = uploads_ok up bl ph t"
  "uploads_ok up bl ph (t\<lparr>tm_stopped := b\<rparr>) = uploads_ok up bl ph t"
  "uploads_ok up bl ph (t\<lparr>tm_manager := m\<rparr>) = uploads_ok up bl ph t"
  by (simp_all add: uploads_ok_def uploaded_bytes_def blocks_uploaded_def)

lemma uploads_new [simp]: "uploads_ok up bl (ph @ replicate n Spawned) t = uploads_ok up bl ph t"
proof -
  have "{k. k < length (ph @ replicate n Spawned) \<and> enlisted ((ph @ replicate n Spawned) ! k)} =
      {k. k < length ph \<and> enlisted (ph ! k)}"
  proof (rule Collect_cong)
    show "k < length (ph @ replicate n Spawned) \<and> enlisted ((ph @ replicate n Spawned) ! k) \<longleftrightarrow>
        k < length ph \<and> enlisted (ph ! k)" for k
      by (cases "k < length ph") (auto simp: nth_append enlisted_def)
  qed
  then show ?thesis by (simp only: uploads_ok_def)
qed

lemma uploads_phase: "k < length ph \<Longrightarrow> enlisted (ph ! k) = enlisted x \<Longrightarrow> uploads_ok up bl (ph[k := x]) t = uploads_ok up bl ph t"
proof -
  assume a: "k < length ph" "enlisted (ph ! k) = enlisted x"
  have "{j. j < length (ph[k := x]) \<and> enlisted (ph[k := x] ! j)} = {j. j < length ph \<and> enlisted (ph ! j)}"
    using a by (auto simp: nth_list_update)
  then show ?thesis by (simp only: uploads_ok_def)
qed

lemma uploads_register:
  assumes "uploads_ok up bl ph t" "k < length ph" "\<not> enlisted (ph ! k)"
  shows "uploads_ok up bl (ph[k := Registered]) (register_conn k peer t)"
proof -
  have act: "ac_worker ` set (tm_active t) = {j. j < length ph \<and> enlisted (ph ! j)}" using assms(1) by (simp add: uploads_ok_def)
  then have "k \<notin> ac_worker ` set (tm_active t)" using assms(3) by simp
  moreover have "{j. j < length ph \<and> enlisted (ph[k := Registered] ! j)} = insert k {j. j < length ph \<and> enlisted (ph ! j)}"
    using assms(2) by (auto simp: nth_list_update enlisted_def)
  ultimately show ?thesis using assms(1) act
    by (simp add: uploads_ok_def register_conn_def uploaded_bytes_def blocks_uploaded_def u64_def)
qed

lemma uploads_unregister:
  assumes "uploads_ok up bl ph t" "k < length ph" "enlisted (ph ! k)"
  shows "uploads_ok up bl (ph[k := Ended]) (unregister k t)"
proof -
  have act: "ac_worker ` set (tm_active t) = {j. j < length ph \<and> enlisted (ph ! j)}" using assms(1) by (simp add: uploads_ok_def)
  then have ne: "tm_active t \<noteq> []" using assms(2,3) by auto
  have fold: "foldl (\<lambda>n a. u64 (n + f a)) (u64 (z + sum_list (map f (filter (\<lambda>a. ac_worker a = k) (tm_active t)))))
      (filter (\<lambda>a. ac_worker a \<noteq> k) (tm_active t)) = foldl (\<lambda>n a. u64 (n + f a)) z (tm_active t)" for f z
    unfolding foldl_u64 using ne sum_split [of f "\<lambda>a. ac_worker a = k" "tm_active t", symmetric]
    by (auto simp: u64_def mod_simps ac_simps)
  have "ac_worker ` set (filter (\<lambda>a. ac_worker a \<noteq> k) (tm_active t)) = ac_worker ` set (tm_active t) - {k}" by auto
  also have "\<dots> = {j. j < length ph \<and> enlisted (ph[k := Ended] ! j)}"
    unfolding act using assms(2) by (auto simp: nth_list_update enlisted_def)
  finally show ?thesis using assms(1) fold
    by (simp add: uploads_ok_def unregister_def uploaded_bytes_def blocks_uploaded_def Let_def distinct_map_filter)
qed

lemma uploads_traffic:
  assumes "uploads_ok up bl ph t" "k < length ph" "enlisted (ph ! k)"
  shows "uploads_ok (up + u) (bl + b) ph (conn_traffic k d u b t)"
proof -
  let ?g = "\<lambda>a. if ac_worker a = k then a\<lparr>ac_downloaded := u64 (ac_downloaded a + d), ac_uploaded := u64 (ac_uploaded a + u),
      ac_blocks := u64 (ac_blocks a + b)\<rparr> else a"
  have act: "distinct (map ac_worker (tm_active t))" "k \<in> ac_worker ` set (tm_active t)"
    using assms by (simp_all add: uploads_ok_def)
  then have ne: "tm_active t \<noteq> []" by auto
  have g: "ac_worker (?g a) = ac_worker a" "ac_uploaded (?g a) = (if ac_worker a = k then u64 (ac_uploaded a + u) else ac_uploaded a)"
    "ac_blocks (?g a) = (if ac_worker a = k then u64 (ac_blocks a + b) else ac_blocks a)" for a by simp_all
  have same: "map ac_worker (tm_active (conn_traffic k d u b t)) = map ac_worker (tm_active t)"
    unfolding conn_traffic_def by (simp add: comp_def g(1))
  then have "ac_worker ` set (tm_active (conn_traffic k d u b t)) = ac_worker ` set (tm_active t)"
    by (metis list.set_map)
  moreover have "uploaded_bytes (conn_traffic k d u b t) = u64 (uploaded_bytes t + u)"
    unfolding uploaded_bytes_def foldl_u64 conn_traffic_def
    using ne sum_bump [OF act, of _ ac_uploaded u] by (simp add: comp_def g(2)) (simp add: u64_def mod_simps ac_simps)
  moreover have "blocks_uploaded (conn_traffic k d u b t) = u64 (blocks_uploaded t + b)"
    unfolding blocks_uploaded_def foldl_u64 conn_traffic_def
    using ne sum_bump [OF act, of _ ac_blocks b] by (simp add: comp_def g(3)) (simp add: u64_def mod_simps ac_simps)
  ultimately show ?thesis using assms(1) same by (simp add: uploads_ok_def u64_def mod_simps)
qed

subsection \<open>Every step keeps the invariant\<close>

lemma pool_invI:
  assumes "slots_ok t" "length ph = tm_next_peer t" "tm_running t = alive ph" "counts_ok ph t" "uploads_ok up bl ph t" "busy t"
  shows "pool_inv (after t ph (s\<lparr>pl_served := up, pl_blocks := bl\<rparr>))"
  using assms by (simp add: pool_inv_def after_def slots_ok_def)

lemma after_spawn:
  assumes "slots_ok t" "length ph = tm_next_peer t" "tm_running t = alive ph" "counts_ok ph t"
    "uploads_ok (pl_served s) (pl_blocks s) ph t"
  shows "pool_inv (after (spawn_peers_locked t) ph s)"
proof -
  obtain n where n: "spawn_peers_locked t = t\<lparr>tm_next_peer := tm_next_peer t + n, tm_running := tm_running t + n,
       tm_threads := tm_threads t @ [tm_next_peer t..<tm_next_peer t + n]\<rparr>"
    "n = 0 \<or> \<not> tm_stopped t \<and> \<not> is_complete (tm_manager t) \<and> tm_running t + n \<le> k_max_concurrent_peers \<and>
        tm_next_peer t + n \<le> length (tm_all_peers t)"
    "tm_stopped t \<or> is_complete (tm_manager t) \<or> k_max_concurrent_peers \<le> tm_running t + n \<or>
        length (tm_all_peers t) \<le> tm_next_peer t + n"
    using spawn_effect [of t] by blast
  have "slots_ok (spawn_peers_locked t)"
    using assms(1) n(2) upt_add_eq_append [of 0 "tm_next_peer t" n] unfolding n(1) by (auto simp: slots_ok_def)
  moreover have "busy (spawn_peers_locked t)"
    using assms(1) n(2,3) unfolding n(1) by (auto simp: busy_def slots_ok_def)
  moreover have "length (tm_threads (spawn_peers_locked t)) - length ph = n"
    using assms(1,2) unfolding n(1) by (simp add: slots_ok_def)
  moreover have "counts_ok (ph @ replicate n Spawned) (spawn_peers_locked t)"
    using assms(4) unfolding n(1) by (simp add: counts_ok_def pending_def)
  moreover have "uploads_ok (pl_served s) (pl_blocks s) (ph @ replicate n Spawned) (spawn_peers_locked t)"
    using assms(5) unfolding n(1) by simp
  ultimately show ?thesis using assms(2,3) unfolding n(1) by (simp add: pool_inv_def after_def alive_def)
qed

lemma move_end:
  assumes "slots_ok t" "length (pl_phase s) = tm_next_peer t" "tm_running t = alive (pl_phase s)"
    and "k < length (pl_phase s)" "pl_phase s ! k \<noteq> Ended"
    and "counts_ok ((pl_phase s)[k := Ended]) t" "uploads_ok (pl_served s) (pl_blocks s) ((pl_phase s)[k := Ended]) t"
  shows "pool_inv (move k Ended (on_peer_worker_finished t) s)"
proof -
  have "alive ((pl_phase s)[k := Ended]) + 1 = alive (pl_phase s)"
    using count_update [OF assms(4), of "\<lambda>x. x \<noteq> Ended" Ended] assms(5) by (simp add: alive_def)
  then have run: "0 < tm_running t" "tm_running t - 1 = alive ((pl_phase s)[k := Ended])" using assms(3) by simp_all
  let ?t = "t\<lparr>tm_running := tm_running t - 1\<rparr>"
  have "on_peer_worker_finished t = spawn_peers_locked ?t" using run(1) by (simp add: on_peer_worker_finished_def)
  moreover have "slots_ok ?t" "counts_ok ((pl_phase s)[k := Ended]) ?t"
    using assms(1,6) by (auto simp: slots_ok_def counts_ok_def)
  ultimately show ?thesis
    using after_spawn [of ?t "(pl_phase s)[k := Ended]" s] assms(2,7) run(2) by (simp add: move_def)
qed

lemma move_on:
  assumes "slots_ok t" "length (pl_phase s) = tm_next_peer t" "tm_running t = alive (pl_phase s)" "busy t"
    and "k < length (pl_phase s)" "pl_phase s ! k \<noteq> Ended" "x \<noteq> Ended"
    and "counts_ok ((pl_phase s)[k := x]) t" "uploads_ok (pl_served s) (pl_blocks s) ((pl_phase s)[k := x]) t"
  shows "pool_inv (move k x t s)"
proof -
  have "alive ((pl_phase s)[k := x]) = alive (pl_phase s)"
    using count_update [OF assms(5), of "\<lambda>x. x \<noteq> Ended" x] assms(6,7) by (simp add: alive_def)
  then show ?thesis using pool_invI [of t "(pl_phase s)[k := x]" "pl_served s" "pl_blocks s" s] assms
    by (simp add: move_def)
qed

lemma pool_invD:
  assumes "pool_inv s"
  shows "slots_ok (pl_tm s)" "length (pl_phase s) = tm_next_peer (pl_tm s)" "tm_running (pl_tm s) = alive (pl_phase s)"
    "busy (pl_tm s)" "counts_ok (pl_phase s) (pl_tm s)" "uploads_ok (pl_served s) (pl_blocks s) (pl_phase s) (pl_tm s)"
  using assms by (simp_all add: pool_inv_def)

text \<open>The three counts of phases after one of them has changed.\<close>

lemma phase_counts:
  assumes "k < length ph"
  shows "length (filter (\<lambda>x. x \<noteq> Spawned) (ph[k := x])) + of_bool (ph ! k \<noteq> Spawned) = length (filter (\<lambda>x. x \<noteq> Spawned) ph) + of_bool (x \<noteq> Spawned)"
    "length (filter pending (ph[k := x])) + of_bool (pending (ph ! k)) = length (filter pending ph) + of_bool (pending x)"
    "length (filter (\<lambda>x. x = Connected) (ph[k := x])) + of_bool (ph ! k = Connected) = length (filter (\<lambda>x. x = Connected) ph) + of_bool (x = Connected)"
  using count_update [OF assms] by blast+

lemma worker_step_inv:
  assumes "worker_step s s'" "pool_inv s"
  shows "pool_inv s'"
  using assms
proof (induction rule: worker_step.induct)
  case (enter k s peer t)
  note inv = pool_invD [OF enter(4)] and cnt = phase_counts [OF enter(1), of "Located peer"]
  have t: "t = (pl_tm s)\<lparr>tm_workers_started := tm_workers_started (pl_tm s) + 1\<rparr>"
    using enter(3) by (simp add: locate_peer_def split: if_splits)
  show ?case
  proof (rule move_on)
    show "counts_ok ((pl_phase s)[k := Located peer]) t"
      using inv(5) cnt enter(2) by (simp add: t counts_ok_def pending_def)
    show "uploads_ok (pl_served s) (pl_blocks s) ((pl_phase s)[k := Located peer]) t"
      using inv(6) enter(1,2) uploads_phase [of k "pl_phase s" "Located peer"] by (simp add: t enlisted_def)
  qed (use inv enter in \<open>simp_all add: t slots_ok_def busy_def\<close>)
next
  case (missing k s t)
  have "tm_threads (pl_tm s) ! k = k" "k < length (tm_all_peers (pl_tm s))"
    using pool_invD(1,2) [OF missing(4)] missing(1) by (simp_all add: slots_ok_def)
  then show ?case using missing(3) by (simp add: locate_peer_def)
next
  case (broken k s peer t)
  note inv = pool_invD [OF broken(4)] and cnt = phase_counts [OF broken(1), of Ended]
  show ?case
  proof (rule move_end)
    show "counts_ok ((pl_phase s)[k := Ended]) (t\<lparr>tm_handshake_failed := tm_handshake_failed t + 1\<rparr>)"
      using inv(5) cnt broken(2,3) by (simp add: counts_ok_def pending_def)
    show "uploads_ok (pl_served s) (pl_blocks s) ((pl_phase s)[k := Ended]) (t\<lparr>tm_handshake_failed := tm_handshake_failed t + 1\<rparr>)"
      using inv(6) broken(1-3) uploads_phase [of k "pl_phase s" Ended] by (simp add: enlisted_def)
  qed (use inv broken in \<open>simp_all add: slots_ok_def\<close>)
next
  case (enlist k s peer)
  note inv = pool_invD [OF enlist(3)] and cnt = phase_counts [OF enlist(1), of Registered]
  show ?case
  proof (rule move_on)
    show "counts_ok ((pl_phase s)[k := Registered]) (register_conn k peer (pl_tm s))"
      using inv(5) cnt enlist(2) by (simp add: counts_ok_def pending_def register_conn_def)
    show "uploads_ok (pl_served s) (pl_blocks s) ((pl_phase s)[k := Registered]) (register_conn k peer (pl_tm s))"
      by (rule uploads_register [OF inv(6) enlist(1)]) (simp add: enlist(2) enlisted_def)
  qed (use inv enlist in \<open>simp_all add: register_conn_def slots_ok_def busy_def\<close>)
next
  case (connect_fails k s t)
  note inv = pool_invD [OF connect_fails(4)] and cnt = phase_counts [OF connect_fails(1), of Ended]
  have up: "uploads_ok (pl_served s) (pl_blocks s) ((pl_phase s)[k := Ended]) t"
    unfolding connect_fails(3) by (rule uploads_unregister [OF inv(6) connect_fails(1)]) (simp add: connect_fails(2) enlisted_def)
  show ?case
  proof (rule move_end)
    show "counts_ok ((pl_phase s)[k := Ended]) (t\<lparr>tm_handshake_failed := tm_handshake_failed t + 1\<rparr>)"
      using inv(5) cnt connect_fails(2,3) by (simp add: counts_ok_def pending_def unregister_def Let_def)
  qed (use inv up connect_fails in \<open>simp_all add: slots_ok_def unregister_def Let_def\<close>)
next
  case (connects k s t)
  note inv = pool_invD [OF connects(4)] and cnt = phase_counts [OF connects(1), of Connected]
  show ?case
  proof (rule move_on)
    show "counts_ok ((pl_phase s)[k := Connected]) (t\<lparr>tm_handshakes_ok := tm_handshakes_ok t + 1\<rparr>)"
      using inv(5) cnt connects(2,3) by (simp add: counts_ok_def pending_def)
    show "uploads_ok (pl_served s) (pl_blocks s) ((pl_phase s)[k := Connected]) (t\<lparr>tm_handshakes_ok := tm_handshakes_ok t + 1\<rparr>)"
      using inv(6) connects(1-3) uploads_phase [of k "pl_phase s" Connected] by (simp add: enlisted_def)
  qed (use inv connects in \<open>simp_all add: slots_ok_def busy_def\<close>)
next
  case (leaves k s)
  note inv = pool_invD [OF leaves(4)] and cnt = phase_counts [OF leaves(1), of Ended]
  have up: "uploads_ok (pl_served s) (pl_blocks s) ((pl_phase s)[k := Ended]) (unregister k (pl_tm s))"
    by (rule uploads_unregister [OF inv(6) leaves(1)]) (simp add: leaves(2) enlisted_def)
  show ?case
  proof (rule move_end)
    show "counts_ok ((pl_phase s)[k := Ended]) (unregister k (pl_tm s))"
      using inv(5) cnt leaves(2) by (simp add: counts_ok_def pending_def unregister_def Let_def)
  qed (use inv up leaves in \<open>simp_all add: slots_ok_def unregister_def Let_def\<close>)
next
  case (run_ends k s t)
  note inv = pool_invD [OF run_ends(4)] and cnt = phase_counts [OF run_ends(1), of Ended]
  let ?t = "t\<lparr>tm_run_failed := tm_run_failed t + 1\<rparr>"
  have up: "uploads_ok (pl_served s) (pl_blocks s) ((pl_phase s)[k := Ended]) (unregister k ?t)"
    by (rule uploads_unregister [OF _ run_ends(1)]) (use inv(6) run_ends(2,3) in \<open>simp_all add: enlisted_def\<close>)
  show ?case
  proof (rule move_end)
    show "counts_ok ((pl_phase s)[k := Ended]) (unregister k ?t)"
      using inv(5) cnt run_ends(2,3) by (simp add: counts_ok_def pending_def unregister_def Let_def)
  qed (use inv up run_ends in \<open>simp_all add: slots_ok_def unregister_def Let_def\<close>)
qed

text \<open>Peers are appended, then workers are spawned for them.\<close>

lemma append_spawn_inv:
  assumes "pool_inv s"
  shows "pool_inv (after (spawn_peers_locked (append_unique_peers ps ((pl_tm s)\<lparr>tm_dht_peers := d\<rparr>))) (pl_phase s) s)"
proof -
  note inv = pool_invD [OF assms]
  have dist: "distinct (tm_all_peers (pl_tm s))" using inv(1) by (simp add: slots_ok_def)
  note all = append_peers [OF dist, of ps]
  have "length (tm_all_peers (pl_tm s)) \<le> length (fold (\<lambda>p ps. if p \<in> set ps then ps else ps @ [p]) ps (tm_all_peers (pl_tm s)))"
    using all(3) by auto
  then show ?thesis using inv all(1)
    by (intro after_spawn) (auto simp: append_unique_peers_def slots_ok_def counts_ok_def)
qed

lemma start_pool_spawns: "start_pool peers t = spawn_peers_locked (append_unique_peers peers t)"
proof -
  have "spawn_peers_locked t = t" if "tm_all_peers t = []" for t using that by (simp add: spawn_peers_locked.simps)
  moreover have "append_unique_peers [] t = t" by (simp add: append_unique_peers_def)
  ultimately show ?thesis by (auto simp: start_pool_def Let_def)
qed

lemma after_refl: "pool_inv s \<Longrightarrow> after (pl_tm s) (pl_phase s) s = s"
  by (simp add: pool_inv_def after_def slots_ok_def)

lemma tm_step_inv:
  assumes "tm_step s s'" "pool_inv s"
  shows "pool_inv s'"
  using assms
proof (induction rule: tm_step.induct)
  case (worker s s')
  then show ?case by (rule worker_step_inv)
next
  case (dht_peer peer s b t)
  let ?d = "tm_dht_peers (pl_tm s) + 1"
  have eq: "(append_unique_peers [peer] (pl_tm s))\<lparr>tm_dht_peers := ?d\<rparr> = append_unique_peers [peer] ((pl_tm s)\<lparr>tm_dht_peers := ?d\<rparr>)"
    by (simp add: append_unique_peers_def)
  show ?case
  proof (cases "peer \<in> set (tm_all_peers (pl_tm s))")
    case True
    then have "t = pl_tm s" using dht_peer(1) by (simp add: add_dht_peer_def append_unique_peers_def Let_def)
    then show ?thesis using after_refl dht_peer(2) by simp
  next
    case False
    then have "length (tm_all_peers (append_unique_peers [peer] (pl_tm s))) \<noteq> length (tm_all_peers (pl_tm s))"
      "tm_dht_peers (append_unique_peers [peer] (pl_tm s)) = tm_dht_peers (pl_tm s)"
      by (simp_all add: append_unique_peers_def)
    then have "t = spawn_peers_locked (append_unique_peers [peer] ((pl_tm s)\<lparr>tm_dht_peers := ?d\<rparr>))"
      using dht_peer(1) eq unfolding add_dht_peer_def Let_def by simp
    then show ?thesis using append_spawn_inv [OF dht_peer(2)] by simp
  qed
next
  case (end_start s peers)
  show ?case using append_spawn_inv [OF end_start(2), of peers "tm_dht_peers (pl_tm s)"] by (simp add: start_pool_spawns)
next
  case (begin_start s now i)
  then show ?case
    by (auto simp: pool_inv_def slots_ok_def busy_def counts_ok_def uploads_ok_def uploaded_bytes_def blocks_uploaded_def)
next
  case (stops s)
  then show ?case by (simp add: pool_inv_def slots_ok_def busy_def counts_ok_def)
next
  case (pieces s m)
  then show ?case by (auto simp: pool_inv_def slots_ok_def busy_def counts_ok_def)
next
  case (traffic k s blocks up down)
  note inv = pool_invD [OF traffic(3)]
  have "uploads_ok (pl_served s + up) (pl_blocks s + blocks) (pl_phase s) (conn_traffic k down up blocks (pl_tm s))"
    by (rule uploads_traffic [OF inv(6) traffic(1)]) (simp add: traffic(2) enlisted_def)
  then show ?case using inv(1-5) by (simp add: pool_inv_def slots_ok_def busy_def counts_ok_def conn_traffic_def)
qed

lemma tm_reach_inv: "tm_reach (tm_new h listen_port nbytes m) s \<Longrightarrow> pool_inv s"
proof (induction rule: tm_reach.induct)
  case fresh
  show ?case by (simp add: pool_inv_def tm_new_def slots_ok_def alive_def busy_def counts_ok_def uploads_ok_def
        uploaded_bytes_def blocks_uploaded_def u64_def)
next
  case (further s s')
  then show ?case by (blast intro: tm_step_inv)
qed

subsection \<open>Stopping\<close>

text \<open>How many of its own steps a worker has still to take.\<close>

fun rank :: "phase \<Rightarrow> nat" where
  "rank Spawned = 4" | "rank (Located p) = 3" | "rank Registered = 2" | "rank Connected = 1" | "rank Ended = 0"

definition work_left :: "pool \<Rightarrow> nat" where
  "work_left s = sum_list (map rank (pl_phase s))"

lemma sum_update: "k < length ph \<Longrightarrow> sum_list (map f (ph[k := x])) + f (ph ! k) = sum_list (map f ph) + f x"
  for f :: "'a \<Rightarrow> nat"
proof (induction ph arbitrary: k)
  case (Cons a ph)
  then show ?case by (cases k) auto
qed simp

lemma finished_stopped: "tm_stopped t \<Longrightarrow> on_peer_worker_finished t = (if 0 < tm_running t then t\<lparr>tm_running := tm_running t - 1\<rparr> else t)"
  by (simp add: on_peer_worker_finished_def spawn_peers_locked.simps)

lemma finished_stopped_frame:
  "tm_stopped t \<Longrightarrow> tm_threads (on_peer_worker_finished t) = tm_threads t \<and> tm_stopped (on_peer_worker_finished t)"
  by (simp add: finished_stopped)

lemma move_decreases:
  "k < length (pl_phase s) \<Longrightarrow> rank x < rank (pl_phase s ! k) \<Longrightarrow> tm_threads t = tm_threads (pl_tm s) \<Longrightarrow> tm_stopped t \<Longrightarrow>
   \<exists>k' x' t'. move k x t s = move k' x' t' s \<and> k' < length (pl_phase s) \<and> rank x' < rank (pl_phase s ! k') \<and>
      tm_threads t' = tm_threads (pl_tm s) \<and> tm_stopped t'"
  by blast

lemma worker_step_stopped:
  assumes "worker_step s s'" "tm_stopped (pl_tm s)" "length (tm_threads (pl_tm s)) \<le> length (pl_phase s)"
  shows "work_left s' < work_left s" "tm_threads (pl_tm s') = tm_threads (pl_tm s)" "tm_stopped (pl_tm s')"
    "length (pl_phase s') = length (pl_phase s)"
proof -
  have "\<exists>k x t. s' = move k x t s \<and> k < length (pl_phase s) \<and> rank x < rank (pl_phase s ! k) \<and>
      tm_threads t = tm_threads (pl_tm s) \<and> tm_stopped t"
    using assms(1,2)
  proof (induction rule: worker_step.induct)
    case (enter k s peer t)
    then show ?case by (intro move_decreases) (auto simp: locate_peer_def split: if_splits)
  next
    case (missing k s t)
    then show ?case using finished_stopped_frame [of t]
      by (intro move_decreases) (auto simp: locate_peer_def split: if_splits)
  next
    case (broken k s peer t)
    then show ?case using finished_stopped_frame [of "t\<lparr>tm_handshake_failed := tm_handshake_failed t + 1\<rparr>"]
      by (intro move_decreases) auto
  next
    case (enlist k s peer)
    then show ?case by (intro move_decreases) (auto simp: register_conn_def)
  next
    case (connect_fails k s t)
    then show ?case using finished_stopped_frame [of "t\<lparr>tm_handshake_failed := tm_handshake_failed t + 1\<rparr>"]
      by (intro move_decreases) (auto simp: unregister_def Let_def)
  next
    case (connects k s t)
    then show ?case by (intro move_decreases) auto
  next
    case (leaves k s)
    then show ?case using finished_stopped_frame [of "unregister k (pl_tm s)"]
      by (intro move_decreases) (auto simp: unregister_def Let_def)
  next
    case (run_ends k s t)
    then show ?case using finished_stopped_frame [of "unregister k (t\<lparr>tm_run_failed := tm_run_failed t + 1\<rparr>)"]
      by (intro move_decreases) (auto simp: unregister_def Let_def)
  qed
  then obtain k x t where m: "s' = move k x t s" "k < length (pl_phase s)" "rank x < rank (pl_phase s ! k)"
    "tm_threads t = tm_threads (pl_tm s)" "tm_stopped t" by blast
  have ph: "pl_phase s' = (pl_phase s)[k := x]" using m assms(3) by (simp add: move_def after_def)
  then show "work_left s' < work_left s" using sum_update [OF m(2), of rank x] m(3) by (simp add: work_left_def)
  show "tm_threads (pl_tm s') = tm_threads (pl_tm s)" "tm_stopped (pl_tm s')" "length (pl_phase s') = length (pl_phase s)"
    using m ph by (simp_all add: move_def after_def)
qed

lemma worker_can_move:
  assumes "pool_inv s" "k < length (pl_phase s)" "pl_phase s ! k \<noteq> Ended"
  shows "\<exists>s'. worker_step s s'"
proof (cases "pl_phase s ! k")
  case Spawned
  obtain r t where "locate_peer (tm_threads (pl_tm s) ! k) (pl_tm s) = (r, t)" by (rule prod.exhaust)
  then show ?thesis using worker_step.enter [OF assms(2) Spawned] worker_step.missing [OF assms(2) Spawned] by (cases r) blast+
next
  case (Located p)
  then show ?thesis using worker_step.enlist [OF assms(2)] by blast
next
  case Registered
  then show ?thesis using worker_step.connects [OF assms(2)] by blast
next
  case Connected
  then show ?thesis using worker_step.run_ends [OF assms(2)] by blast
qed (use assms in simp)

lemma spawn_stopped: "tm_stopped t \<Longrightarrow> spawn_peers_locked t = t"
  by (simp add: spawn_peers_locked.simps)

lemma tm_step_stopped:
  assumes "tm_step s s'" "tm_stopped (pl_tm s)" "length (tm_threads (pl_tm s)) \<le> length (pl_phase s)"
  shows "tm_threads (pl_tm s') = tm_threads (pl_tm s) \<and> tm_stopped (pl_tm s')"
  using assms
proof (induction rule: tm_step.induct)
  case (worker s s')
  then show ?case using worker_step_stopped by blast
next
  case (dht_peer peer s b t)
  then show ?case by (auto simp: add_dht_peer_def append_unique_peers_def spawn_stopped after_def Let_def split: if_splits)
qed (auto simp: start_pool_def append_unique_peers_def spawn_stopped after_def conn_traffic_def Let_def)

subsection \<open>A worker and its session\<close>

lemma spawn_manager [simp]: "tm_manager (spawn_peers_locked t) = tm_manager t"
proof -
  obtain n where "spawn_peers_locked t = t\<lparr>tm_next_peer := tm_next_peer t + n, tm_running := tm_running t + n,
       tm_threads := tm_threads t @ [tm_next_peer t..<tm_next_peer t + n]\<rparr>" using spawn_effect [of t] by blast
  then show ?thesis by simp
qed

lemma manager_frames [simp]:
  "tm_manager (on_peer_worker_finished t) = tm_manager t" "tm_manager (unregister k t) = tm_manager t"
  "tm_manager (session_done k s t) = snd s" "tm_manager (register_conn k p t) = tm_manager t"
  "tm_manager (destroy_conn s t) = snd (cn_close (fst s, tm_manager t))"
  by (simp_all add: on_peer_worker_finished_def unregister_def session_done_def conn_traffic_def register_conn_def
      destroy_conn_def Let_def)

text \<open>What a worker leaves of the piece manager: nothing, or a session that was closed.\<close>

lemma run_peer_worker_manager:
  assumes "tm_manager t = m"
  shows "tm_manager (run_peer_worker sha1 input k idx t) = m \<or>
    (\<exists>h my_id r s rest s'. connect input (cn_new h my_id k m, m) = ((r, s), rest) \<and>
       (s' = s \<or> s' = snd (run sha1 rest s)) \<and> tm_manager (run_peer_worker sha1 input k idx t) = snd (cn_close s'))"
proof (cases "length (tm_all_peers t) \<le> idx")
  case True
  then show ?thesis using assms by (simp add: run_peer_worker_def locate_peer_def)
next
  case False
  let ?c = "cn_new (tm_info_hash t) (tm_peer_id t) k m"
  obtain r s rest where c: "connect input (?c, m) = ((r, s), rest)" by (metis prod.exhaust)
  have s: "(fst s, snd s) = s" by simp
  have "tm_manager (run_peer_worker sha1 input k idx t) = snd (cn_close s) \<or>
      tm_manager (run_peer_worker sha1 input k idx t) = snd (cn_close (snd (run sha1 rest s)))"
    using False c assms
    by (cases r) (auto simp: run_peer_worker_def locate_peer_def register_conn_def Let_def split: prod.splits)
  then show ?thesis using c by blast
qed

lemma cn_close_inv: "mg_inv sha1 lost (snd s) \<Longrightarrow> mg_inv sha1 lost (snd (cn_close s))"
  by (auto simp: cn_close_def abort_piece_inv split: prod.splits option.splits)

lemma cn_close_extends: "extends m0 (snd s) \<Longrightarrow> extends m0 (snd (cn_close s))"
  by (auto simp: cn_close_def extending.aborts split: prod.splits option.splits)

lemma session_ends:
  assumes "mg_inv sha1 lost m" "mg_nominal m + BLOCK_SIZE \<le> 2 ^ 32"
    and "connect input (cn_new h my_id k m, m) = ((r, s), rest)" "s' = s \<or> s' = snd (run sha1 rest s)"
  shows "session_ok (mg_claimed m) s'" "extends m (snd s')" "\<exists>lost'. mg_inv sha1 lost' (snd s')"
proof -
  have g: "geometry m" "length (mg_have m) = mg_num_pieces m" using assms(1) by (simp_all add: mg_inv_def geometry_def)
  have sm: "snd s = m" using connect_manager [OF assms(3)] by simp
  have ok: "session_ok (mg_claimed m) s" using session_ok_connect [OF session_ok_new [OF g(1) assms(2)] assms(3)] .
  then show "session_ok (mg_claimed m) s'" using assms(4) session_ok_run by blast
  obtain e s1 where r: "run sha1 rest s = (e, s1)" by (rule prod.exhaust)
  have e0: "extends m m" using g(2) by (simp add: extends_def)
  have "extends m (snd s1)" using run_extends [OF _ r] g(2) sm by simp
  then show "extends m (snd s')" using assms(4) sm r e0 by auto
  have inv: "mg_inv sha1 lost (snd s)" using sm assms(1) by simp
  have "\<exists>lost'. mg_inv sha1 lost' (snd s1)"
    using verifying.keepsD [OF verifying.keeps_run [OF inv, of rest, unfolded r map_prod_simp]] by auto
  then show "\<exists>lost'. mg_inv sha1 lost' (snd s')" using assms(4) inv r by auto
qed

text \<open>
  Every announce reports zero uploaded bytes, also when \<^verbatim>\<open>uploaded_bytes\<close> is not
  zero: a tracker that would answer differently is never given the chance.
\<close>

lemma announce_hides_uploads:
  "announce (\<lambda>r. if an_uploaded r = 0 then Some [] else Some [p]) ev t = []"
  by (simp add: announce_def Let_def)

subsection \<open>A sample pool\<close>

definition sample_tm :: torrent_manager where
  "sample_tm = tm_new (replicate 20 0) 6881 8 sample_manager"

abbreviation sample_peer :: peer_address where
  "sample_peer \<equiv> PeerAddress [1, 2, 3] 6881"

lemma sample_pool:
  "tm_reach sample_tm \<lparr>pl_tm = sample_tm\<lparr>tm_all_peers := [sample_peer], tm_next_peer := 1, tm_running := 1, tm_threads := [0],
     tm_dht_peers := 1, tm_stopped := b\<rparr>, pl_phase = [Spawned], pl_served = 0, pl_blocks = 0\<rparr>"
proof -
  let ?t = "sample_tm\<lparr>tm_all_peers := [sample_peer], tm_next_peer := 1, tm_running := 1, tm_threads := [0], tm_dht_peers := 1\<rparr>"
  let ?s0 = "\<lparr>pl_tm = sample_tm, pl_phase = [], pl_served = 0, pl_blocks = 0\<rparr>"
  have "add_dht_peer sample_peer sample_tm = (True, ?t)"
    by (simp add: add_dht_peer_def append_unique_peers_def sample_tm_def tm_new_def spawn_peers_locked.simps
        k_max_concurrent_peers_def is_complete_def sample_manager_def)
  then have "tm_step ?s0 (after ?t [] ?s0)" using tm_step.dht_peer [of sample_peer ?s0 True ?t] by simp
  then have 1: "tm_reach sample_tm \<lparr>pl_tm = ?t, pl_phase = [Spawned], pl_served = 0, pl_blocks = 0\<rparr>"
    using tm_reach.further [OF tm_reach.fresh] by (simp add: after_def)
  then show ?thesis using tm_reach.further [OF 1 tm_step.stops] by (cases b) (simp_all add: sample_tm_def tm_new_def)
qed

lemmas sample_reached = sample_pool [of False, unfolded sample_tm_def] sample_pool [of True, unfolded sample_tm_def]

subsection \<open>Properties\<close>

text \<open>C7: In every interleaving of workers, DHT callbacks, start and stop, the running
  counter is the number of live workers and never exceeds forty, every known
  peer is tried at most once and in order, no slot stays free while a peer is
  left and the download goes on, and the handshake statistics add up.\<close>

theorem worker_pool:
  assumes "tm_reach (tm_new h listen_port nbytes m) s"
  shows "tm_running (pl_tm s) = alive (pl_phase s) \<and> tm_running (pl_tm s) \<le> k_max_concurrent_peers \<and>
    distinct (tm_all_peers (pl_tm s)) \<and> tm_threads (pl_tm s) = [0..<tm_next_peer (pl_tm s)] \<and>
    (\<not> tm_stopped (pl_tm s) \<and> \<not> is_complete (tm_manager (pl_tm s)) \<and> tm_next_peer (pl_tm s) \<noteq> length (tm_all_peers (pl_tm s))
      \<longrightarrow> tm_running (pl_tm s) = k_max_concurrent_peers) \<and>
    tm_workers_started (pl_tm s) = tm_handshakes_ok (pl_tm s) + tm_handshake_failed (pl_tm s) + length (filter pending (pl_phase s)) \<and>
    tm_run_failed (pl_tm s) \<le> tm_handshakes_ok (pl_tm s)"
  using pool_invD [OF tm_reach_inv [OF assms]] by (auto simp: slots_ok_def busy_def counts_ok_def)

theorem worker_pool_witness:
  "\<exists>s. tm_reach (tm_new (replicate 20 0) 6881 8 sample_manager) s \<and> tm_running (pl_tm s) = 1 \<and> alive (pl_phase s) = 1"
proof -
  obtain s where s: "tm_reach (tm_new (replicate 20 0) 6881 8 sample_manager) s" "tm_running (pl_tm s) = 1"
    using sample_reached(1) by fastforce
  then show ?thesis using worker_pool [OF s(1)] by auto
qed

text \<open>The upload totals survive the churn of peers: whatever connections come and go,
  the reported bytes and blocks are exactly what all connections together have
  served, in 64-bit arithmetic.\<close>

theorem upload_totals:
  assumes "tm_reach (tm_new h listen_port nbytes m) s"
  shows "uploaded_bytes (pl_tm s) = u64 (pl_served s) \<and> blocks_uploaded (pl_tm s) = u64 (pl_blocks s)"
  using pool_invD(6) [OF tm_reach_inv [OF assms]] by (simp add: uploads_ok_def)

theorem upload_totals_witness:
  "\<exists>s. tm_reach (tm_new (replicate 20 0) 6881 8 sample_manager) s \<and> uploaded_bytes (pl_tm s) = 0"
proof -
  obtain s where s: "tm_reach (tm_new (replicate 20 0) 6881 8 sample_manager) s" "pl_served s = 0"
    using sample_reached(1) by fastforce
  then show ?thesis using upload_totals [OF s(1)] by (auto simp: u64_def)
qed





end
