(* ===== verification/Node_Id.thy ===== *)
theory Node_Id
  imports Addresses
begin

section \<open>Node identifiers and XOR distance\<close>

text \<open>
  \<^verbatim>\<open>NodeId\<close> (\<^verbatim>\<open>node_id.h\<close>, \<^verbatim>\<open>node_id.cpp\<close>): 160-bit Kademlia
  identifiers as 20 bytes, the XOR metric, and \<^verbatim>\<open>RoutingTable::bucket_index\<close>
  with its scan for the most significant differing bit. The abstract distance
  of two identifiers is the big-endian number their XOR denotes; the order
  \<^verbatim>\<open>operator<\<close> compares (lexicographic on bytes) is the order of these
  numbers.
\<close>

subsection \<open>Identifiers\<close>

type_synonym node_id = bytes

definition valid_id :: "node_id \<Rightarrow> bool" where
  "valid_id i = (length i = 20)"

definition zero_id :: node_id where
  "zero_id = replicate 20 0"

definition id_from_string :: "bytes \<Rightarrow> node_id" where
  "id_from_string s = (if length s \<noteq> 20 then zero_id else s)"

definition id_from_info_hash :: "info_hash \<Rightarrow> node_id" where
  "id_from_info_hash h = h"

definition id_to_string :: "node_id \<Rightarrow> bytes" where
  "id_to_string i = i"

definition id_xor :: "node_id \<Rightarrow> node_id \<Rightarrow> node_id" where
  "id_xor a b = map2 (XOR) a b"

definition id_less :: "node_id \<Rightarrow> node_id \<Rightarrow> bool" where
  "id_less a b = (a < b)"

definition id_hex :: "node_id \<Rightarrow> bytes" where
  "id_hex i = concat (map hex_byte i)"

fun is_zero :: "node_id \<Rightarrow> bool" where
  "is_zero [] = True"
| "is_zero (b # bs) = (if b \<noteq> 0 then False else is_zero bs)"

lemma is_zero_iff: "is_zero i \<longleftrightarrow> (\<forall>b\<in>set i. b = 0)"
  by (induction i) auto

lemma length_id_xor [simp]: "length (id_xor a b) = min (length a) (length b)"
  by (simp add: id_xor_def)

lemma id_xor_zero_iff: "length a = length b \<Longrightarrow> is_zero (id_xor a b) \<longleftrightarrow> a = b"
proof (induction a b rule: list_induct2)
  case (Cons x xs y ys)
  have "x XOR y = 0 \<longleftrightarrow> x = y" by (metis bit.xor_cancel_right bit.xor_left_self xor_self_eq)
  with Cons show ?case by (simp add: id_xor_def)
qed (simp add: id_xor_def)

lemma id_xor_commute: "id_xor a b = id_xor b a"
  unfolding id_xor_def
  by (induction a b rule: list_induct2') (simp_all add: ac_simps)

lemma id_xor_cancel: "length a = length b \<Longrightarrow> id_xor a (id_xor a b) = b"
  by (induction a b rule: list_induct2) (simp_all add: id_xor_def flip: xor.assoc)

lemma id_xor_inject:
  "length a = length t \<Longrightarrow> length b = length t \<Longrightarrow> id_xor t a = id_xor t b \<longleftrightarrow> a = b"
  by (metis id_xor_cancel)

text \<open>The abstract distance and its order.\<close>

definition distance :: "node_id \<Rightarrow> node_id \<Rightarrow> nat" where
  "distance a b = be_val (id_xor a b)"

lemma distance_less_iff:
  "length a = length t \<Longrightarrow> length b = length t \<Longrightarrow>
   distance t a < distance t b \<longleftrightarrow> id_less (id_xor t a) (id_xor t b)"
  by (simp add: distance_def id_less_def be_val_less_iff)

lemma distance_eq_iff:
  "length a = length t \<Longrightarrow> length b = length t \<Longrightarrow> distance t a = distance t b \<longleftrightarrow> a = b"
  by (simp add: distance_def be_val_inject id_xor_inject)

subsection \<open>Bucket index\<close>

definition NUM_BUCKETS :: nat where "NUM_BUCKETS = 160"

text \<open>The inner loop, \<^verbatim>\<open>bit\<close> running down from 7 to 0.\<close>

fun top_bit :: "byte \<Rightarrow> nat \<Rightarrow> nat option" where
  "top_bit b 0 = None"
| "top_bit b (Suc i) = (if b AND push_bit i 1 \<noteq> 0 then Some i else top_bit b i)"

fun scan_bytes :: "nat \<Rightarrow> bytes \<Rightarrow> nat" where
  "scan_bytes byte_idx [] = 0"
| "scan_bytes byte_idx (b # bs) =
     (if b = 0 then scan_bytes (Suc byte_idx) bs
      else (case top_bit b 8 of
              Some i \<Rightarrow> (NUM_BUCKETS - 1) - (byte_idx * 8 + (7 - i))
            | None \<Rightarrow> scan_bytes (Suc byte_idx) bs))"

definition bucket_index :: "node_id \<Rightarrow> node_id \<Rightarrow> nat" where
  "bucket_index self_id i =
     (let dist = id_xor self_id i in
      if is_zero dist then NUM_BUCKETS else scan_bytes 0 dist)"

lemma top_bit_Suc: "top_bit b (Suc i) = (if bit b i then Some i else top_bit b i)"
  by (simp add: and_exp_eq_0_iff_not_bit)

declare top_bit.simps(2) [simp del] top_bit_Suc [simp]

lemma top_bit_range:
  assumes "unat b < 2 ^ n" "b \<noteq> 0"
  shows "\<exists>j<n. top_bit b n = Some j \<and> 2 ^ j \<le> unat b \<and> unat b < 2 ^ Suc j"
  using assms
proof (induction n)
  case 0
  then show ?case by (simp add: unat_eq_zero)
next
  case (Suc n)
  have bit: "bit b n \<longleftrightarrow> odd (unat b div 2 ^ n)"
    by (simp add: bit_iff_odd [of "unat b", symmetric] bit_unsigned_iff)
  show ?case
  proof (cases "unat b < 2 ^ n")
    case True
    then have "\<not> bit b n" by (simp add: bit)
    with Suc True show ?thesis by (auto simp: less_Suc_eq)
  next
    case False
    then have "unat b div 2 ^ n = 1"
      using Suc.prems(1) by (intro div_nat_eqI) simp_all
    with bit have "bit b n" by simp
    with False Suc.prems show ?thesis by (intro exI [of _ n]) simp
  qed
qed


lemma scan_bytes_range:
  assumes "idx + length bs = 20" "\<not> is_zero bs"
  shows "scan_bytes idx bs < 8 * length bs \<and>
    2 ^ scan_bytes idx bs \<le> be_val bs \<and> be_val bs < 2 ^ Suc (scan_bytes idx bs)"
  using assms
proof (induction bs arbitrary: idx)
  case Nil
  then show ?case by simp
next
  case (Cons b bs)
  show ?case
  proof (cases "b = 0")
    case True
    then show ?thesis using Cons.IH [of "Suc idx"] Cons.prems by simp
  next
    case False
    have "unat b < 2 ^ 8" using unat_byte_less [of b] by simp
    from top_bit_range [OF this False] obtain j where
      j: "j < 8" "top_bit b 8 = Some j" "2 ^ j \<le> unat b" "unat b < 2 ^ Suc j" by blast
    let ?w = "(256 :: nat) ^ length bs"
    have scan: "scan_bytes idx (b # bs) = 8 * length bs + j"
      using False j Cons.prems by (simp add: NUM_BUCKETS_def)
    have p: "(2 :: nat) ^ (8 * length bs + k) = 2 ^ k * ?w" for k
      by (simp add: power_add power_mult)
    have "be_val bs < ?w" by (rule be_val_bound)
    moreover have "2 ^ j * ?w \<le> unat b * ?w" using j(3) by (rule mult_le_mono1)
    moreover have "Suc (unat b) * ?w \<le> 2 ^ Suc j * ?w" using j(4) by (intro mult_le_mono1) simp
    ultimately have "2 ^ j * ?w \<le> be_val (b # bs)" "be_val (b # bs) < 2 ^ Suc j * ?w"
      unfolding be_val.simps mult_Suc by linarith+
    then show ?thesis unfolding scan using j(1) p [of j] p [of "Suc j"] by simp
  qed
qed

lemma bucket_index_range:
  assumes "valid_id a" "valid_id b" "a \<noteq> b"
  shows "bucket_index a b < NUM_BUCKETS"
    "2 ^ bucket_index a b \<le> distance a b" "distance a b < 2 ^ Suc (bucket_index a b)"
proof -
  have "\<not> is_zero (id_xor a b)" using assms by (simp add: id_xor_zero_iff valid_id_def)
  then have "bucket_index a b < 160 \<and> 2 ^ bucket_index a b \<le> distance a b \<and>
      distance a b < 2 ^ Suc (bucket_index a b)"
    using scan_bytes_range [of 0 "id_xor a b"] assms
    by (simp add: bucket_index_def distance_def valid_id_def)
  then show "bucket_index a b < NUM_BUCKETS" "2 ^ bucket_index a b \<le> distance a b"
    "distance a b < 2 ^ Suc (bucket_index a b)" by (simp_all add: NUM_BUCKETS_def)
qed

lemma bucket_index_self: "bucket_index a a = NUM_BUCKETS"
  by (simp add: bucket_index_def id_xor_zero_iff)

lemma bucket_index_commute: "bucket_index a b = bucket_index b a"
  by (simp add: bucket_index_def id_xor_commute)

subsection \<open>Random identifiers in a bucket\<close>

text \<open>
  Flipping, setting and clearing one bit of one byte; the random bit for index
  \<open>idx\<close> is \<open>rnd idx\<close>.
\<close>

definition flip_bit_at :: "nat \<Rightarrow> node_id \<Rightarrow> node_id" where
  "flip_bit_at idx i = i[idx div 8 := i ! (idx div 8) XOR push_bit (7 - idx mod 8) 1]"

definition put_bit_at :: "nat \<Rightarrow> bool \<Rightarrow> node_id \<Rightarrow> node_id" where
  "put_bit_at idx v i =
     i[idx div 8 := (if v then i ! (idx div 8) OR push_bit (7 - idx mod 8) 1
                     else i ! (idx div 8) AND NOT (push_bit (7 - idx mod 8) 1))]"

definition random_id_in_bucket :: "(nat \<Rightarrow> bool) \<Rightarrow> node_id \<Rightarrow> nat \<Rightarrow> node_id" where
  "random_id_in_bucket rnd self_id bucket0 =
     (let bucket = (if NUM_BUCKETS \<le> bucket0 then NUM_BUCKETS - 1 else bucket0);
          msb_index = (NUM_BUCKETS - 1) - bucket;
          i = flip_bit_at msb_index self_id
      in fold (\<lambda>idx i. put_bit_at idx (rnd idx) i) [msb_index + 1..<NUM_BUCKETS] i)"

definition bit_at :: "node_id \<Rightarrow> nat \<Rightarrow> bool" where
  "bit_at i idx = bit (i ! (idx div 8)) (7 - idx mod 8)"

lemma div_mod_8_eq: "a div 8 = b div 8 \<Longrightarrow> 7 - a mod 8 = 7 - b mod 8 \<Longrightarrow> a = (b :: nat)"
proof -
  assume "a div 8 = b div 8" "7 - a mod 8 = 7 - b mod 8"
  moreover have "a mod 8 < 8" "b mod 8 < 8" by simp_all
  ultimately have "a mod 8 = b mod 8" "a div 8 = b div 8" by linarith+
  then show "a = b" by (metis div_mult_mod_eq)
qed

lemma bit_at_put:
  assumes "idx div 8 < length i"
  shows "bit_at (put_bit_at idx v i) k = (if k = idx then v else bit_at i k)"
proof (cases "k div 8 = idx div 8")
  case True
  have "7 - k mod 8 = 7 - idx mod 8 \<longleftrightarrow> k = idx" using True div_mod_8_eq [of k idx] by auto
  with True assms show ?thesis
    by (auto simp: bit_at_def put_bit_at_def bit_or_iff bit_and_iff bit_not_iff bit_exp_iff)
qed (auto simp: bit_at_def put_bit_at_def)

lemma bit_at_flip:
  assumes "idx div 8 < length i"
  shows "bit_at (flip_bit_at idx i) k = (if k = idx then \<not> bit_at i k else bit_at i k)"
proof (cases "k div 8 = idx div 8")
  case True
  have "7 - k mod 8 = 7 - idx mod 8 \<longleftrightarrow> k = idx" using True div_mod_8_eq [of k idx] by auto
  with True assms show ?thesis
    by (auto simp: bit_at_def flip_bit_at_def bit_xor_iff bit_exp_iff)
qed (auto simp: bit_at_def flip_bit_at_def)


lemma length_put_flip [simp]:
  "length (put_bit_at idx v i) = length i" "length (flip_bit_at idx i) = length i"
  by (simp_all add: put_bit_at_def flip_bit_at_def)

lemma fold_put_bits:
  assumes "n div 8 \<le> length i" "n mod 8 = 0"
  shows "length (fold (\<lambda>idx i. put_bit_at idx (rnd idx) i) [m..<n] i) = length i"
    "k < m \<Longrightarrow> bit_at (fold (\<lambda>idx i. put_bit_at idx (rnd idx) i) [m..<n] i) k = bit_at i k"
proof -
  have "length (fold (\<lambda>idx i. put_bit_at idx (rnd idx) i) xs j) = length j \<and>
      (k \<notin> set xs \<longrightarrow> (\<forall>x\<in>set xs. x div 8 < length j) \<longrightarrow>
       bit_at (fold (\<lambda>idx i. put_bit_at idx (rnd idx) i) xs j) k = bit_at j k)" for xs j k
    by (induction xs arbitrary: j) (simp_all add: bit_at_put)
  note this [of "[m..<n]" i k]
  moreover have "x div 8 < length i" if "x < n" for x
    using that assms by (metis div_mult_mod_eq add_0_right less_mult_imp_div_less order.strict_trans2)
  ultimately show "length (fold (\<lambda>idx i. put_bit_at idx (rnd idx) i) [m..<n] i) = length i"
    "k < m \<Longrightarrow> bit_at (fold (\<lambda>idx i. put_bit_at idx (rnd idx) i) [m..<n] i) k = bit_at i k"
    by auto
qed

text \<open>The index is determined by the first differing bit.\<close>

lemma top_bit_first:
  "bit b j \<Longrightarrow> j < n \<Longrightarrow> (\<And>k. j < k \<Longrightarrow> k < n \<Longrightarrow> \<not> bit b k) \<Longrightarrow> top_bit b n = Some j"
  by (induction n) (auto simp: less_Suc_eq)

lemma byte_zero_iff: "b = 0 \<longleftrightarrow> (\<forall>k<8. \<not> bit b k)" for b :: byte
proof
  assume "\<forall>k<8. \<not> bit b k"
  then show "b = 0" by (intro bit_word_eqI) simp
qed simp

lemma scan_bytes_first:
  assumes "m < 8 * length bs" "bit_at bs m" "\<And>k. k < m \<Longrightarrow> \<not> bit_at bs k"
    and "idx + length bs = 20"
  shows "scan_bytes idx bs = 159 - (8 * idx + m)"
  using assms
proof (induction bs arbitrary: idx m)
  case Nil
  then show ?case by simp
next
  case (Cons b bs)
  show ?case
  proof (cases "m < 8")
    case True
    then have b: "bit b (7 - m)" using Cons.prems(2) by (simp add: bit_at_def)
    have "\<not> bit b k" if "7 - m < k" "k < 8" for k
      using Cons.prems(3) [of "7 - k"] that True by (simp add: bit_at_def)
    then have "top_bit b 8 = Some (7 - m)" using b by (intro top_bit_first) auto
    moreover have "b \<noteq> 0" using b by auto
    ultimately show ?thesis using True by (simp add: NUM_BUCKETS_def)
  next
    case False
    have "\<not> bit b k" if "k < 8" for k
      using Cons.prems(3) [of "7 - k"] that False by (simp add: bit_at_def)
    then have "b = 0" by (simp add: byte_zero_iff)
    moreover have s: "bit_at (b # bs) (k + 8) = bit_at bs k" for k
    proof -
      have "(k + 8) div 8 = Suc (k div 8)" "(k + 8) mod 8 = k mod 8" by simp_all
      then show ?thesis by (simp only: bit_at_def nth_Cons_Suc)
    qed
    have "scan_bytes (Suc idx) bs = 159 - (8 * Suc idx + (m - 8))"
    proof (rule Cons.IH)
      show "bit_at bs (m - 8)" using s [of "m - 8"] Cons.prems(2) False by simp
      show "\<not> bit_at bs k" if "k < m - 8" for k using s [of k] Cons.prems(3) [of "k + 8"] that by simp
    qed (use Cons.prems(1,4) False in simp_all)
    ultimately show ?thesis using False by simp
  qed
qed

lemma bit_at_xor: "m < 160 \<Longrightarrow> valid_id a \<Longrightarrow> valid_id b \<Longrightarrow>
   bit_at (id_xor a b) m \<longleftrightarrow> bit_at a m \<noteq> bit_at b m"
  by (simp add: bit_at_def id_xor_def valid_id_def bit_xor_iff)

lemma random_id_in_bucket_index:
  assumes "valid_id self" "b < NUM_BUCKETS"
  shows "valid_id (random_id_in_bucket rnd self b) \<and>
    bucket_index self (random_id_in_bucket rnd self b) = b"
proof -
  let ?m = "159 - b" and ?r = "random_id_in_bucket rnd self b"
  have b: "b < 160" using assms(2) by (simp add: NUM_BUCKETS_def)
  have r: "?r = fold (\<lambda>idx i. put_bit_at idx (rnd idx) i) [Suc ?m..<160] (flip_bit_at ?m self)"
    using b by (simp add: random_id_in_bucket_def NUM_BUCKETS_def Let_def)
  have v: "valid_id ?r" using assms(1) unfolding r valid_id_def
    by (subst fold_put_bits) simp_all
  have eq: "bit_at ?r k = (if k = ?m then \<not> bit_at self k else bit_at self k)" if "k \<le> ?m" for k
    using assms(1) that unfolding r by (subst fold_put_bits) (auto simp: valid_id_def bit_at_flip)
  have x: "bit_at (id_xor self ?r) k \<longleftrightarrow> k = ?m" if "k \<le> ?m" for k
    using that v assms(1) eq [of k] by (subst bit_at_xor) auto
  have "scan_bytes 0 (id_xor self ?r) = 159 - (8 * 0 + ?m)"
    using x v assms(1) by (intro scan_bytes_first) (auto simp: valid_id_def)
  moreover have "\<not> is_zero (id_xor self ?r)"
    using eq [of ?m] v assms(1) by (auto simp: id_xor_zero_iff valid_id_def)
  ultimately show ?thesis using v b by (simp add: bucket_index_def)
qed


subsection \<open>Properties\<close>

text \<open>For two different 20-byte identifiers the bucket index is the position of
  the most significant bit of their XOR distance: the distance lies in
  [2^index, 2^(index+1)), the index is below 160 and symmetric; an identifier
  has no bucket (index 160) exactly relative to itself.\<close>

theorem bucket_index_spec:
  assumes "valid_id a" "valid_id b"
  shows "(bucket_index a b = NUM_BUCKETS \<longleftrightarrow> a = b) \<and> bucket_index a b = bucket_index b a \<and>
    (a \<noteq> b \<longrightarrow> bucket_index a b < NUM_BUCKETS \<and>
       2 ^ bucket_index a b \<le> distance a b \<and> distance a b < 2 ^ Suc (bucket_index a b))"
  using bucket_index_range [OF assms] bucket_index_self [of a] bucket_index_commute [of a b]
  by (cases "a = b") simp_all

theorem bucket_index_spec_witness:
  "2 ^ bucket_index (replicate 20 7) (replicate 20 9) \<le> distance (replicate 20 7) (replicate 20 9)"
proof -
  have "valid_id (replicate 20 7)" "valid_id (replicate 20 9)" "replicate 20 7 \<noteq> replicate 20 (9 :: byte)"
    by (simp_all add: valid_id_def)
  then show ?thesis using bucket_index_spec by blast
qed

text \<open>Whatever the random bits, the target generated to refresh a bucket is a
  20-byte identifier that falls into exactly that bucket.\<close>

theorem random_id_in_its_bucket:
  assumes "valid_id self" "b < NUM_BUCKETS"
  shows "valid_id (random_id_in_bucket rnd self b) \<and>
    bucket_index self (random_id_in_bucket rnd self b) = b"
  using assms by (rule random_id_in_bucket_index)

theorem random_id_in_its_bucket_witness:
  "bucket_index (replicate 20 7) (random_id_in_bucket even (replicate 20 7) 100) = 100"
  using random_id_in_its_bucket [of "replicate 20 7" 100 even] by (simp add: valid_id_def NUM_BUCKETS_def)

end
