(* ===== verification/Routing_Table.thy ===== *)
theory Routing_Table
  imports Node_Id Byte_Order
begin

section \<open>Kademlia routing table\<close>

text \<open>
  \<^verbatim>\<open>RoutingTable\<close> and \<^verbatim>\<open>RoutingEntry\<close> (\<^verbatim>\<open>routing_table.h\<close>,
  \<^verbatim>\<open>routing_table.cpp\<close>). The state keeps the fixed arrays of the class: 160
  buckets of 8 entries, the fill count of each bucket and the counters of
  received peers; updates are array writes at an index. The abstract view of a
  bucket is the list of its occupied prefix, \<open>bucket_list\<close>. The mutex makes
  each public method atomic; logging is left out.
\<close>

subsection \<open>Entries\<close>

record routing_entry =
  re_id :: node_id
  re_pa :: peer_address
  re_last_seen :: time

definition empty_entry :: routing_entry where
  "empty_entry = \<lparr>re_id = zero_id, re_pa = PeerAddress [] 0, re_last_seen = 0\<rparr>"

definition NODE_GOOD_TIMEOUT :: time where "NODE_GOOD_TIMEOUT = minutes 15"

definition is_good :: "time \<Rightarrow> routing_entry \<Rightarrow> bool" where
  "is_good now e = (now - re_last_seen e < NODE_GOOD_TIMEOUT)"

definition compact :: "routing_entry \<Rightarrow> bytes" where
  "compact e = re_id e @ aton_bytes (ip (re_pa e)) @ be16 (port (re_pa e))"

definition from_compact :: "time \<Rightarrow> bytes \<Rightarrow> nat \<Rightarrow> routing_entry" where
  "from_compact now d offset =
     (if length d < offset + 26 then empty_entry
      else \<lparr>re_id = id_from_string (take 20 (drop offset d)),
            re_pa = PeerAddress (inet_ntoa (take 4 (drop (offset + 20) d))) (read_be16 d (offset + 24)),
            re_last_seen = now\<rparr>)"

subsection \<open>State\<close>

definition K :: nat where "K = 8"

record routing_table =
  rt_self :: node_id
  rt_buckets :: "routing_entry list list"
  rt_sizes :: "nat list"
  rt_received :: "nat list"

definition rt_new :: "node_id \<Rightarrow> routing_table" where
  "rt_new self_id =
     \<lparr>rt_self = self_id, rt_buckets = replicate NUM_BUCKETS (replicate K empty_entry),
      rt_sizes = replicate NUM_BUCKETS 0, rt_received = replicate NUM_BUCKETS 0\<rparr>"

subsection \<open>Operations\<close>

text \<open>The pointer \<^verbatim>\<open>find_in_bucket\<close> returns is the index in the bucket's array.\<close>

definition find_in_bucket :: "routing_table \<Rightarrow> nat \<Rightarrow> node_id \<Rightarrow> nat option" where
  "find_in_bucket t bucket i =
     (if NUM_BUCKETS \<le> bucket then None
      else List.find (\<lambda>j. re_id (rt_buckets t ! bucket ! j) = i) [0..<rt_sizes t ! bucket])"

definition set_slot :: "nat \<Rightarrow> nat \<Rightarrow> routing_entry \<Rightarrow> routing_table \<Rightarrow> routing_table" where
  "set_slot bucket idx e t =
     t\<lparr>rt_buckets := (rt_buckets t)[bucket := (rt_buckets t ! bucket)[idx := e]]\<rparr>"

text \<open>The shifting loop \<^verbatim>\<open>a[i] = a[i + 1]\<close> for \<open>i\<close> from \<open>lo\<close> below \<open>hi\<close>.\<close>

definition shift_down :: "nat \<Rightarrow> nat \<Rightarrow> 'a list \<Rightarrow> 'a list" where
  "shift_down lo hi a = fold (\<lambda>i a. a[i := a ! Suc i]) [lo..<hi] a"

definition touch_bucket_entry :: "nat \<Rightarrow> nat \<Rightarrow> routing_entry \<Rightarrow> routing_table \<Rightarrow> routing_table" where
  "touch_bucket_entry bucket idx e t =
     (let n = rt_sizes t ! bucket in
      if n \<le> idx then t
      else
        let t1 = set_slot bucket idx e t in
        if idx + 1 < n then
          let updated = rt_buckets t1 ! bucket ! idx;
              shifted = shift_down idx (n - 1) (rt_buckets t1 ! bucket)
          in t1\<lparr>rt_buckets := (rt_buckets t1)[bucket := shifted[n - 1 := updated]]\<rparr>
        else t1)"

text \<open>The loop that looks for the least recently seen entry of a full bucket.\<close>

definition oldest_index :: "routing_entry list \<Rightarrow> nat \<Rightarrow> nat" where
  "oldest_index a n =
     fst (fold (\<lambda>i (replace_idx, oldest).
            if re_last_seen (a ! i) < oldest then (i, re_last_seen (a ! i)) else (replace_idx, oldest))
          [1..<n] (0, re_last_seen (a ! 0)))"

definition rt_add :: "time \<Rightarrow> routing_entry \<Rightarrow> bool \<Rightarrow> routing_table \<Rightarrow> routing_table" where
  "rt_add now e count_as_received t =
     (if re_id e = rt_self t \<or> is_zero (re_id e) then t
      else
        let bucket = bucket_index (rt_self t) (re_id e) in
        if NUM_BUCKETS \<le> bucket then t
        else
          let t1 = (if count_as_received
                    then t\<lparr>rt_received := (rt_received t)[bucket := u64 (rt_received t ! bucket + 1)]\<rparr>
                    else t);
              n = rt_sizes t1 ! bucket
          in case find_in_bucket t1 bucket (re_id e) of
               Some idx \<Rightarrow> touch_bucket_entry bucket idx e (set_slot bucket idx e t1)
             | None \<Rightarrow>
                 if n < K then
                   (set_slot bucket n e t1)\<lparr>rt_sizes := (rt_sizes t1)[bucket := n + 1]\<rparr>
                 else
                   let replace_idx = oldest_index (rt_buckets t1 ! bucket) n in
                   if \<not> is_good now (rt_buckets t1 ! bucket ! replace_idx)
                   then set_slot bucket replace_idx e t1
                   else t1)"

definition rt_remove :: "node_id \<Rightarrow> routing_table \<Rightarrow> routing_table" where
  "rt_remove i t =
     (let bucket = bucket_index (rt_self t) i in
      if NUM_BUCKETS \<le> bucket then t
      else case find_in_bucket t bucket i of
             None \<Rightarrow> t
           | Some j \<Rightarrow>
               let n = rt_sizes t ! bucket in
               t\<lparr>rt_buckets := (rt_buckets t)[bucket := shift_down j (n - 1) (rt_buckets t ! bucket)],
                 rt_sizes := (rt_sizes t)[bucket := n - 1]\<rparr>)"

definition rt_size :: "routing_table \<Rightarrow> nat" where
  "rt_size t = fold (\<lambda>n total. total + n) (rt_sizes t) 0"

definition rt_all :: "routing_table \<Rightarrow> routing_entry list" where
  "rt_all t = concat (map (\<lambda>b. map (\<lambda>i. rt_buckets t ! b ! i) [0..<rt_sizes t ! b]) [0..<NUM_BUCKETS])"

definition rt_closest :: "node_id \<Rightarrow> nat \<Rightarrow> routing_table \<Rightarrow> routing_entry list" where
  "rt_closest target k t = take k (sort_key (\<lambda>e. id_xor target (re_id e)) (rt_all t))"

definition buckets_needing_refresh :: "time \<Rightarrow> time \<Rightarrow> routing_table \<Rightarrow> nat list" where
  "buckets_needing_refresh now max_age t =
     filter (\<lambda>b. rt_sizes t ! b = 0 \<or>
         \<not> list_ex (\<lambda>i. now - re_last_seen (rt_buckets t ! b ! i) < max_age) [0..<rt_sizes t ! b])
       [0..<NUM_BUCKETS]"

subsection \<open>Abstract view and invariant\<close>

definition bucket_list :: "routing_table \<Rightarrow> nat \<Rightarrow> routing_entry list" where
  "bucket_list t b = take (rt_sizes t ! b) (rt_buckets t ! b)"

definition bucket_ok :: "node_id \<Rightarrow> nat \<Rightarrow> routing_entry list \<Rightarrow> bool" where
  "bucket_ok self b es \<longleftrightarrow>
     length es \<le> K \<and> distinct (map re_id es) \<and>
     (\<forall>e\<in>set es. valid_id (re_id e) \<and> \<not> is_zero (re_id e) \<and> bucket_index self (re_id e) = b)"

definition rt_inv :: "routing_table \<Rightarrow> bool" where
  "rt_inv t \<longleftrightarrow>
     valid_id (rt_self t) \<and> length (rt_buckets t) = NUM_BUCKETS \<and> length (rt_sizes t) = NUM_BUCKETS \<and>
     length (rt_received t) = NUM_BUCKETS \<and>
     (\<forall>b<NUM_BUCKETS. length (rt_buckets t ! b) = K \<and> rt_sizes t ! b \<le> K \<and>
        bucket_ok (rt_self t) b (bucket_list t b))"

subsection \<open>Array loops as list operations\<close>

lemma length_shift_down [simp]: "length (shift_down lo hi a) = length a"
proof -
  have "length (fold (\<lambda>i a. a[i := a ! Suc i]) is a) = length a" for "is"
    by (induction "is" arbitrary: a) auto
  then show ?thesis by (simp add: shift_down_def)
qed

lemma nth_shift_down:
  "hi < length a \<Longrightarrow> i < length a \<Longrightarrow>
   shift_down lo hi a ! i = (if lo \<le> i \<and> i < hi then a ! Suc i else a ! i)"
proof (induction hi arbitrary: i)
  case 0
  then show ?case by (simp add: shift_down_def)
next
  case (Suc hi)
  show ?case
  proof (cases "lo \<le> hi")
    case True
    then have "shift_down lo (Suc hi) a = (shift_down lo hi a)[hi := shift_down lo hi a ! Suc hi]"
      by (simp add: shift_down_def)
    then show ?thesis using Suc True by (auto simp: nth_list_update)
  next
    case False
    then show ?thesis by (auto simp: shift_down_def)
  qed
qed

lemma take_shift_down:
  assumes "j < n" "n \<le> length a"
  shows "take (n - 1) (shift_down j (n - 1) a) = take j (take n a) @ drop (Suc j) (take n a)"
  using assms by (intro nth_equalityI) (auto simp: nth_shift_down nth_append)

lemma take_shift_down_put:
  assumes "j < n" "n \<le> length a"
  shows "take n ((shift_down j (n - 1) a)[n - 1 := e]) = take j (take n a) @ drop (Suc j) (take n a) @ [e]"
proof -
  have "take n ((shift_down j (n - 1) a)[n - 1 := e]) = take (n - 1) (shift_down j (n - 1) a) @ [e]"
    using assms by (intro nth_equalityI) (auto simp: nth_append nth_list_update)
  then show ?thesis using take_shift_down [OF assms] by simp
qed

lemma remove_nth_filter:
  assumes "distinct (map f xs)" "j < length xs"
  shows "take j xs @ drop (Suc j) xs = filter (\<lambda>x. f x \<noteq> f (xs ! j)) xs"
proof -
  have xs: "xs = take j xs @ xs ! j # drop (Suc j) xs" using assms(2) by (rule id_take_nth_drop)
  have "distinct (map f (take j xs @ xs ! j # drop (Suc j) xs))" using assms(1) xs by simp
  then have "f x \<noteq> f (xs ! j)" if "x \<in> set (take j xs) \<union> set (drop (Suc j) xs)" for x
    using that by (auto simp: image_iff)
  then have "filter (\<lambda>x. f x \<noteq> f (xs ! j)) (take j xs) = take j xs"
    "filter (\<lambda>x. f x \<noteq> f (xs ! j)) (drop (Suc j) xs) = drop (Suc j) xs"
    by (auto simp: filter_id_conv)
  then show ?thesis using arg_cong [OF xs, of "filter (\<lambda>x. f x \<noteq> f (xs ! j))"] by simp
qed

lemma oldest_index_spec:
  assumes "0 < n"
  shows "oldest_index a n < n \<and> (\<forall>i<n. re_last_seen (a ! oldest_index a n) \<le> re_last_seen (a ! i))"
proof -
  let ?step = "\<lambda>i (r, m). if re_last_seen (a ! i) < m then (i, re_last_seen (a ! i)) else (r, m)"
  have "\<exists>r. fold ?step [1..<Suc m] (0, re_last_seen (a ! 0)) = (r, re_last_seen (a ! r)) \<and>
      r < Suc m \<and> (\<forall>i<Suc m. re_last_seen (a ! r) \<le> re_last_seen (a ! i))" for m
  proof (induction m)
    case 0
    then show ?case by simp
  next
    case (Suc m)
    then obtain r where "fold ?step [1..<Suc m] (0, re_last_seen (a ! 0)) = (r, re_last_seen (a ! r))"
      "r < Suc m" "\<forall>i<Suc m. re_last_seen (a ! r) \<le> re_last_seen (a ! i)" by blast
    then show ?case by (force simp: less_Suc_eq)
  qed
  from this [of "n - 1"] assms show ?thesis by (auto simp: oldest_index_def)
qed

lemma oldest_index_take: "n \<le> length a \<Longrightarrow> oldest_index (take n a) n = oldest_index a n"
proof (cases "n = 0")
  case True
  then show ?thesis by (simp add: oldest_index_def)
next
  case False
  assume "n \<le> length a"
  with False show ?thesis unfolding oldest_index_def
    by (intro arg_cong [where f = fst] fold_cong) auto
qed

subsection \<open>Refinement: array operations against bucket lists\<close>

text \<open>What adding an entry means for the list of its bucket.\<close>

definition bucket_put :: "time \<Rightarrow> routing_entry \<Rightarrow> routing_entry list \<Rightarrow> routing_entry list" where
  "bucket_put now e es =
     (if re_id e \<in> re_id ` set es then filter (\<lambda>x. re_id x \<noteq> re_id e) es @ [e]
      else if length es < K then es @ [e]
      else let j = oldest_index es (length es) in
           if is_good now (es ! j) then es else es[j := e])"

lemma rt_invD:
  assumes "rt_inv t" "b < NUM_BUCKETS"
  shows "b < length (rt_buckets t)" "b < length (rt_sizes t)" "length (rt_buckets t ! b) = K"
    "rt_sizes t ! b \<le> K" "length (bucket_list t b) = rt_sizes t ! b"
    "distinct (map re_id (bucket_list t b))"
  using assms by (auto simp: rt_inv_def bucket_ok_def bucket_list_def)

lemma nth_bucket_list: "i < rt_sizes t ! b \<Longrightarrow> bucket_list t b ! i = rt_buckets t ! b ! i"
  by (simp add: bucket_list_def)

lemma find_upt_Some: "List.find P [0..<n] = Some j \<Longrightarrow> j < n \<and> P j"
  by (auto simp: find_Some_iff)

lemma find_in_bucket_Some:
  assumes "rt_inv t" "b < NUM_BUCKETS" "find_in_bucket t b i = Some j"
  shows "j < rt_sizes t ! b" "re_id (bucket_list t b ! j) = i" "i \<in> re_id ` set (bucket_list t b)"
proof -
  show j: "j < rt_sizes t ! b" "re_id (bucket_list t b ! j) = i"
    using assms(2,3) find_upt_Some [of _ "rt_sizes t ! b" j]
    by (auto simp: find_in_bucket_def nth_bucket_list)
  then show "i \<in> re_id ` set (bucket_list t b)"
    using rt_invD [OF assms(1,2)] by (metis image_eqI nth_mem)
qed

lemma find_in_bucket_None:
  assumes "rt_inv t" "b < NUM_BUCKETS" "find_in_bucket t b i = None"
  shows "i \<notin> re_id ` set (bucket_list t b)"
  using assms rt_invD(5) [OF assms(1,2)]
  by (fastforce simp: find_in_bucket_def find_None_iff in_set_conv_nth nth_bucket_list)

lemma touch_bucket_list:
  assumes "rt_inv t" "b < NUM_BUCKETS" "find_in_bucket t b (re_id e) = Some j"
  shows "bucket_list (touch_bucket_entry b j e (set_slot b j e t)) b =
      filter (\<lambda>x. re_id x \<noteq> re_id e) (bucket_list t b) @ [e]"
proof -
  let ?a = "rt_buckets t ! b" and ?n = "rt_sizes t ! b"
  note d = rt_invD [OF assms(1,2)] and f = find_in_bucket_Some [OF assms]
  have j: "j < ?n" "?n \<le> length (?a[j := e])" using f d by auto
  have "filter (\<lambda>x. re_id x \<noteq> re_id e) (bucket_list t b) =
      take j (bucket_list t b) @ drop (Suc j) (bucket_list t b)"
    using remove_nth_filter [OF d(6), of j] f d(5) by simp
  then have flt: "filter (\<lambda>x. re_id x \<noteq> re_id e) (bucket_list t b) =
      take j (take ?n (?a[j := e])) @ drop (Suc j) (take ?n (?a[j := e]))"
    by (simp add: bucket_list_def take_update_swap [of ?n] del: take_take)
  show ?thesis
  proof (cases "j + 1 < ?n")
    case True
    then show ?thesis using take_shift_down_put [OF j, of e] d j flt
      by (simp add: touch_bucket_entry_def set_slot_def bucket_list_def Let_def)
  next
    case False
    then have "?n = Suc j" using j(1) by simp
    then show ?thesis using d j flt
      by (simp add: touch_bucket_entry_def set_slot_def bucket_list_def Let_def take_Suc_conv_app_nth)
  qed
qed

lemma touch_bucket_other:
  "b' \<noteq> b \<Longrightarrow> bucket_list (touch_bucket_entry b j e t) b' = bucket_list t b'"
  by (simp add: touch_bucket_entry_def set_slot_def bucket_list_def Let_def)

lemma set_slot_other: "b' \<noteq> b \<Longrightarrow> bucket_list (set_slot b j e t) b' = bucket_list t b'"
  by (simp add: set_slot_def bucket_list_def)

lemma rt_inv_received:
  "length r = NUM_BUCKETS \<Longrightarrow> rt_inv t \<Longrightarrow> rt_inv (t\<lparr>rt_received := r\<rparr>)"
  by (simp add: rt_inv_def bucket_list_def)

lemma bucket_list_received [simp]: "bucket_list (t\<lparr>rt_received := r\<rparr>) b = bucket_list t b"
  by (simp add: bucket_list_def)

lemma rt_add_bucket_list:
  assumes inv: "rt_inv t" and e: "valid_id (re_id e)" "re_id e \<noteq> rt_self t" "\<not> is_zero (re_id e)"
  defines "b \<equiv> bucket_index (rt_self t) (re_id e)"
  shows "bucket_list (rt_add now e c t) b = bucket_put now e (bucket_list t b)"
    "b' \<noteq> b \<Longrightarrow> bucket_list (rt_add now e c t) b' = bucket_list t b'"
proof -
  define t1 where "t1 = (if c then t\<lparr>rt_received := (rt_received t)[b := u64 (rt_received t ! b + 1)]\<rparr> else t)"
  have b: "b < NUM_BUCKETS"
    using bucket_index_range(1) [of "rt_self t" "re_id e"] e inv by (simp add: b_def rt_inv_def)
  have inv1: "rt_inv t1" using inv by (simp add: t1_def rt_inv_received rt_inv_def)
  have bl: "bucket_list t1 = bucket_list t" by (auto simp: t1_def fun_eq_iff)
  let ?n = "rt_sizes t1 ! b" and ?a = "rt_buckets t1 ! b"
  note d = rt_invD [OF inv1 b]
  have add: "rt_add now e c t =
      (case find_in_bucket t1 b (re_id e) of
         Some idx \<Rightarrow> touch_bucket_entry b idx e (set_slot b idx e t1)
       | None \<Rightarrow>
           if ?n < K then (set_slot b ?n e t1)\<lparr>rt_sizes := (rt_sizes t1)[b := ?n + 1]\<rparr>
           else if \<not> is_good now (?a ! oldest_index ?a ?n) then set_slot b (oldest_index ?a ?n) e t1 else t1)"
    unfolding rt_add_def b_def [symmetric] Let_def t1_def [symmetric] using e(2,3) b by simp
  show "bucket_list (rt_add now e c t) b = bucket_put now e (bucket_list t b)"
  proof (cases "find_in_bucket t1 b (re_id e)")
    case (Some j)
    then show ?thesis using touch_bucket_list [OF inv1 b Some] find_in_bucket_Some(3) [OF inv1 b Some]
      by (simp add: add bl bucket_put_def)
  next
    case None
    note nin = find_in_bucket_None [OF inv1 b None]
    show ?thesis
    proof (cases "?n < K")
      case True
      have "take (Suc ?n) (?a[?n := e]) = take ?n ?a @ [e]"
        using True d by (simp add: take_Suc_conv_app_nth)
      then show ?thesis using True d nin None
        by (simp add: add bucket_put_def flip: bl) (simp add: bucket_list_def set_slot_def)
    next
      case False
      then have n: "?n = K" "?n = length ?a" "0 < ?n" using d by (simp_all add: K_def)
      have "bucket_list t1 b = ?a" using n by (simp add: bucket_list_def)
      moreover have "oldest_index ?a ?n < ?n" using oldest_index_spec [OF n(3)] by blast
      ultimately show ?thesis using False d nin None n
        by (simp add: add bucket_put_def Let_def flip: bl)
          (simp add: bucket_list_def set_slot_def)
    qed
  qed
  show "b' \<noteq> b \<Longrightarrow> bucket_list (rt_add now e c t) b' = bucket_list t b'"
    unfolding add
    by (auto simp: touch_bucket_other set_slot_other bl split: option.split)
      (simp_all add: set_slot_def bucket_list_def flip: bl)
qed

lemma length_update_nth:
  "length ys = length (xs ! b) \<Longrightarrow> length (xs[b := ys] ! b') = length (xs ! b')"
  by (cases "b < length xs"; cases "b = b'") (simp_all add: list_update_beyond)

lemma length_set_slot [simp]:
  "rt_self (set_slot b j e t) = rt_self t" "rt_sizes (set_slot b j e t) = rt_sizes t"
  "rt_received (set_slot b j e t) = rt_received t"
  "length (rt_buckets (set_slot b j e t)) = length (rt_buckets t)"
  "length (rt_buckets (set_slot b j e t) ! b') = length (rt_buckets t ! b')"
  by (auto simp: set_slot_def length_update_nth)

lemma length_touch [simp]:
  "rt_self (touch_bucket_entry b j e t) = rt_self t"
  "rt_sizes (touch_bucket_entry b j e t) = rt_sizes t"
  "rt_received (touch_bucket_entry b j e t) = rt_received t"
  "length (rt_buckets (touch_bucket_entry b j e t)) = length (rt_buckets t)"
  "length (rt_buckets (touch_bucket_entry b j e t) ! b') = length (rt_buckets t ! b')"
  by (auto simp: touch_bucket_entry_def Let_def length_update_nth)

lemma rt_add_shape:
  assumes inv: "rt_inv t"
  shows "rt_self (rt_add now e c t) = rt_self t"
    "length (rt_buckets (rt_add now e c t)) = NUM_BUCKETS"
    "length (rt_sizes (rt_add now e c t)) = NUM_BUCKETS"
    "length (rt_received (rt_add now e c t)) = NUM_BUCKETS"
    "b < NUM_BUCKETS \<Longrightarrow> length (rt_buckets (rt_add now e c t) ! b) = K"
    "b < NUM_BUCKETS \<Longrightarrow> rt_sizes (rt_add now e c t) ! b \<le> K"
proof -
  have l: "length (rt_buckets t) = NUM_BUCKETS" "length (rt_sizes t) = NUM_BUCKETS"
    "length (rt_received t) = NUM_BUCKETS" using inv by (auto simp: rt_inv_def)
  have k: "length (rt_buckets t ! b) = K" "rt_sizes t ! b \<le> K" if "b < NUM_BUCKETS" for b
    using inv that by (auto simp: rt_inv_def)
  show "rt_self (rt_add now e c t) = rt_self t"
    "length (rt_buckets (rt_add now e c t)) = NUM_BUCKETS"
    "length (rt_sizes (rt_add now e c t)) = NUM_BUCKETS"
    "length (rt_received (rt_add now e c t)) = NUM_BUCKETS"
    using l by (simp_all add: rt_add_def Let_def split: option.split)
  show "length (rt_buckets (rt_add now e c t) ! b) = K" if "b < NUM_BUCKETS"
    using k [OF that] by (simp add: rt_add_def Let_def split: option.split)
  show "rt_sizes (rt_add now e c t) ! b \<le> K" if "b < NUM_BUCKETS"
    using k [OF that] l by (auto simp: rt_add_def Let_def nth_list_update split: option.split)
qed

lemma bucket_put_ok:
  assumes ok: "bucket_ok self b es" and e: "valid_id (re_id e)" "\<not> is_zero (re_id e)" "bucket_index self (re_id e) = b"
  shows "bucket_ok self b (bucket_put now e es)"
proof -
  consider (mem) "re_id e \<in> re_id ` set es" | (room) "re_id e \<notin> re_id ` set es" "length es < K"
    | (full) "re_id e \<notin> re_id ` set es" "length es = K"
    using ok by (fastforce simp: bucket_ok_def)
  then show ?thesis
  proof cases
    case mem
    then obtain x where x: "x \<in> set es" "re_id e = re_id x" by auto
    have "length (filter (\<lambda>y. re_id y \<noteq> re_id e) es) = length es - 1"
      using filter_neq_distinct [of re_id es x] ok x by (simp add: bucket_ok_def)
    moreover have "0 < length es" using x by (cases es) auto
    moreover have "distinct (map re_id (filter (\<lambda>y. re_id y \<noteq> re_id e) es @ [e]))"
      using ok by (auto simp: bucket_ok_def distinct_map_filter)
    ultimately show ?thesis using mem ok e by (simp add: bucket_put_def bucket_ok_def)
  next
    case room
    then show ?thesis using ok e by (auto simp: bucket_put_def bucket_ok_def)
  next
    case full
    let ?j = "oldest_index es (length es)"
    have j: "?j < length es" using oldest_index_spec [of "length es" es] full by (simp add: K_def)
    have "distinct (map re_id (es[?j := e]))"
      using ok full j by (simp add: map_update bucket_ok_def distinct_list_update)
    then show ?thesis using full ok e set_update_subset_insert [of es ?j e]
      by (auto simp: bucket_put_def bucket_ok_def Let_def)
  qed
qed

lemma rt_add_inv [wf_intros]:
  assumes inv: "rt_inv t" and e: "valid_id (re_id e)"
  shows "rt_inv (rt_add now e c t)"
proof (cases "re_id e = rt_self t \<or> is_zero (re_id e)")
  case True
  then show ?thesis using inv by (auto simp: rt_add_def)
next
  case False
  let ?b = "bucket_index (rt_self t) (re_id e)"
  have "bucket_ok (rt_self t) b (bucket_list (rt_add now e c t) b)" if "b < NUM_BUCKETS" for b
    using that inv False e rt_add_bucket_list [OF inv e, where now = now and c = c]
    by (cases "b = ?b") (auto simp: rt_inv_def intro!: bucket_put_ok)
  then show ?thesis
    using inv unfolding rt_inv_def rt_add_shape [OF inv] by (simp add: rt_add_shape(5,6) [OF inv])
qed

lemma rt_new_inv [wf_intros]: "valid_id self \<Longrightarrow> rt_inv (rt_new self)"
  by (simp add: rt_inv_def rt_new_def bucket_list_def bucket_ok_def)

lemma rt_remove_bucket_list:
  assumes inv: "rt_inv t" and i: "valid_id i" and b: "b < NUM_BUCKETS"
  shows "bucket_list (rt_remove i t) b = filter (\<lambda>x. re_id x \<noteq> i) (bucket_list t b)"
proof -
  let ?c = "bucket_index (rt_self t) i"
  have other: "filter (\<lambda>x. re_id x \<noteq> i) (bucket_list t b) = bucket_list t b" if "i \<notin> re_id ` set (bucket_list t b)"
    using that by (auto simp: filter_id_conv)
  show ?thesis
  proof (cases "b = ?c")
    case False
    then have "i \<notin> re_id ` set (bucket_list t b)" using inv b by (auto simp: rt_inv_def bucket_ok_def)
    with False other show ?thesis
      by (auto simp: rt_remove_def Let_def bucket_list_def split: option.split)
  next
    case True
    note d = rt_invD [OF inv b]
    show ?thesis
    proof (cases "find_in_bucket t b i")
      case None
      then show ?thesis using other find_in_bucket_None [OF inv b None] True b
        by (simp add: rt_remove_def Let_def)
    next
      case (Some j)
      note f = find_in_bucket_Some [OF inv b Some]
      have "bucket_list (rt_remove i t) b = take j (bucket_list t b) @ drop (Suc j) (bucket_list t b)"
        using take_shift_down [OF f(1), of "rt_buckets t ! b"] d Some True b
        by (simp add: rt_remove_def Let_def bucket_list_def)
      then show ?thesis using remove_nth_filter [OF d(6), of j] f d(5) by simp
    qed
  qed
qed

lemma rt_remove_shape:
  assumes inv: "rt_inv t"
  shows "rt_self (rt_remove i t) = rt_self t"
    "length (rt_buckets (rt_remove i t)) = NUM_BUCKETS"
    "length (rt_sizes (rt_remove i t)) = NUM_BUCKETS"
    "rt_received (rt_remove i t) = rt_received t"
    "b < NUM_BUCKETS \<Longrightarrow> length (rt_buckets (rt_remove i t) ! b) = K"
    "b < NUM_BUCKETS \<Longrightarrow> rt_sizes (rt_remove i t) ! b \<le> K"
proof -
  have l: "length (rt_buckets t) = NUM_BUCKETS" "length (rt_sizes t) = NUM_BUCKETS"
    using inv by (auto simp: rt_inv_def)
  have k: "length (rt_buckets t ! b) = K" "rt_sizes t ! b \<le> K" if "b < NUM_BUCKETS" for b
    using inv that by (auto simp: rt_inv_def)
  show "rt_self (rt_remove i t) = rt_self t"
    "length (rt_buckets (rt_remove i t)) = NUM_BUCKETS"
    "length (rt_sizes (rt_remove i t)) = NUM_BUCKETS"
    "rt_received (rt_remove i t) = rt_received t"
    using l by (simp_all add: rt_remove_def Let_def split: option.split)
  show "length (rt_buckets (rt_remove i t) ! b) = K" if "b < NUM_BUCKETS"
    using k [OF that] by (auto simp: rt_remove_def Let_def length_update_nth split: option.split)
  show "rt_sizes (rt_remove i t) ! b \<le> K" if "b < NUM_BUCKETS"
    using k [OF that] l that by (auto simp: rt_remove_def Let_def nth_list_update split: option.split)
qed

lemma rt_remove_inv [wf_intros]:
  assumes inv: "rt_inv t" and i: "valid_id i"
  shows "rt_inv (rt_remove i t)"
proof -
  have "bucket_ok (rt_self t) b (bucket_list (rt_remove i t) b)" if b: "b < NUM_BUCKETS" for b
    using inv b length_filter_le [THEN order_trans, of "bucket_list t b" K]
    by (simp add: rt_remove_bucket_list [OF inv i b] rt_inv_def bucket_ok_def distinct_map_filter)
  then show ?thesis
    using inv unfolding rt_inv_def rt_remove_shape [OF inv] by (simp add: rt_remove_shape(5,6) [OF inv])
qed

subsection \<open>The table as a whole\<close>

lemma rt_all_bucket_lists:
  assumes "rt_inv t"
  shows "rt_all t = concat (map (bucket_list t) [0..<NUM_BUCKETS])"
proof -
  have "map (\<lambda>i. rt_buckets t ! b ! i) [0..<rt_sizes t ! b] = bucket_list t b" if "b < NUM_BUCKETS" for b
    using rt_invD [OF assms that] by (intro nth_equalityI) (simp_all add: nth_bucket_list)
  then show ?thesis unfolding rt_all_def by (intro arg_cong [where f = concat] map_cong) auto
qed

lemma in_rt_all:
  "rt_inv t \<Longrightarrow> e \<in> set (rt_all t) \<longleftrightarrow> (\<exists>b<NUM_BUCKETS. e \<in> set (bucket_list t b))"
  by (auto simp: rt_all_bucket_lists)

lemma rt_all_entry:
  assumes "rt_inv t" "e \<in> set (rt_all t)"
  shows "valid_id (re_id e)" "\<not> is_zero (re_id e)" "re_id e \<noteq> rt_self t"
    "e \<in> set (bucket_list t (bucket_index (rt_self t) (re_id e)))"
proof -
  obtain b where b: "b < NUM_BUCKETS" "e \<in> set (bucket_list t b)" using assms by (auto simp: in_rt_all)
  then have i: "valid_id (re_id e)" "\<not> is_zero (re_id e)" "bucket_index (rt_self t) (re_id e) = b"
    using assms(1) by (auto simp: rt_inv_def bucket_ok_def)
  then show "valid_id (re_id e)" "\<not> is_zero (re_id e)"
    "e \<in> set (bucket_list t (bucket_index (rt_self t) (re_id e)))" using b by auto
  show "re_id e \<noteq> rt_self t" using i(3) b(1) bucket_index_self by force
qed

lemma rt_all_distinct:
  assumes "rt_inv t"
  shows "distinct (map re_id (rt_all t))"
proof -
  have "distinct (concat (map (\<lambda>b. map re_id (bucket_list t b)) [0..<n]))" if "n \<le> NUM_BUCKETS" for n
    using that
  proof (induction n)
    case (Suc n)
    have "re_id x \<noteq> re_id y" if "x \<in> set (bucket_list t n)" "y \<in> set (bucket_list t b)" "b < n" for x y b
    proof -
      have "bucket_index (rt_self t) (re_id x) = n" "bucket_index (rt_self t) (re_id y) = b"
        using that Suc.prems assms by (simp_all add: rt_inv_def bucket_ok_def)
      then show ?thesis using that(3) by auto
    qed
    then have "set (map re_id (bucket_list t n)) \<inter> (\<Union>b<n. set (map re_id (bucket_list t b))) = {}"
      by fastforce
    moreover have "distinct (map re_id (bucket_list t n))" using rt_invD(6) [OF assms] Suc.prems by simp
    ultimately show ?case using Suc by (auto simp: atLeast0LessThan)
  qed simp
  then show ?thesis by (simp add: rt_all_bucket_lists [OF assms] map_concat comp_def)
qed

lemma rt_size_length: "rt_inv t \<Longrightarrow> rt_size t = length (rt_all t)"
proof -
  assume inv: "rt_inv t"
  have "rt_size t = sum_list (rt_sizes t)"
    unfolding rt_size_def by (simp add: fold_plus_sum_list_rev add.commute)
  also have "rt_sizes t = map (\<lambda>b. rt_sizes t ! b) [0..<NUM_BUCKETS]"
    using inv by (intro nth_equalityI) (simp_all add: rt_inv_def)
  finally show "rt_size t = length (rt_all t)" by (simp add: rt_all_def length_concat comp_def)
qed

lemma rt_closest_mem: "e \<in> set (rt_closest target k t) \<Longrightarrow> e \<in> set (rt_all t)"
  by (auto simp: rt_closest_def dest: in_set_takeD)

lemma bucket_put_keeps_good:
  assumes "x \<in> set es" "is_good now x" "re_id x \<noteq> re_id e"
  shows "x \<in> set (bucket_put now e es)"
proof (cases "re_id e \<in> re_id ` set es \<or> length es < K")
  case True
  then show ?thesis using assms by (auto simp: bucket_put_def)
next
  case False
  let ?j = "oldest_index es (length es)"
  obtain i where i: "i < length es" "x = es ! i" using assms(1) by (auto simp: in_set_conv_nth)
  show ?thesis
  proof (cases "i = ?j")
    case True
    then show ?thesis using assms i False by (simp add: bucket_put_def Let_def)
  next
    case False
    then have "es[?j := e] ! i = x" using i by simp
    then have "x \<in> set (es[?j := e])" using i by (metis length_list_update nth_mem)
    then show ?thesis using assms \<open>\<not> (_ \<or> _)\<close> by (simp add: bucket_put_def Let_def)
  qed
qed

lemma bucket_put_result:
  assumes "length es \<le> K"
  shows "e \<in> set (bucket_put now e es) \<or>
    (bucket_put now e es = es \<and> length es = K \<and> (\<forall>x\<in>set es. is_good now x))"
proof (cases "re_id e \<in> re_id ` set es \<or> length es < K")
  case True
  then show ?thesis by (auto simp: bucket_put_def)
next
  case False
  let ?j = "oldest_index es (length es)"
  have len: "length es = K" "0 < length es" using False assms by (simp_all add: K_def)
  note o = oldest_index_spec [OF len(2), of es]
  show ?thesis
  proof (cases "is_good now (es ! ?j)")
    case True
    then have "is_good now (es ! i)" if "i < length es" for i
      using o that by (fastforce simp: is_good_def)
    then have "\<forall>x\<in>set es. is_good now x" by (auto simp: in_set_conv_nth)
    then show ?thesis using True False len by (simp add: bucket_put_def Let_def)
  next
    case bad: False
    have "e \<in> set (es[?j := e])" using o by (intro set_update_memI) simp
    then show ?thesis using bad False by (simp add: bucket_put_def Let_def)
  qed
qed

lemma compact_round_trip:
  assumes "valid_id (re_id e)" "canonical_ip (ip (re_pa e))"
  shows "from_compact now (pre @ compact e @ post) (length pre) = e\<lparr>re_last_seen := now\<rparr>"
proof -
  let ?d = "pre @ compact e @ post"
  have "read_be16 ?d (length pre + 24) = port (re_pa e)"
    using read_be16_append [of "pre @ re_id e @ aton_bytes (ip (re_pa e))" "length pre + 24" "port (re_pa e)" post]
      assms(1) by (simp add: compact_def valid_id_def)
  then show ?thesis
    using assms by (cases "re_pa e")
      (simp add: from_compact_def compact_def valid_id_def id_from_string_def canonical_ip_def)
qed

lemma length_compact: "valid_id (re_id e) \<Longrightarrow> length (compact e) = 26"
  by (simp add: compact_def valid_id_def)

subsection \<open>The interface lookups rely on\<close>

text \<open>
  What the DHT client and the lookup managers assume of a table of nodes: the
  entries it holds have distinct valid identifiers and never the node's own,
  additions and removals keep this, and \<open>closest\<close> returns the nodes nearest to
  a target.
\<close>

locale node_table =
  fixes inv :: "'s \<Rightarrow> bool"
    and self :: "'s \<Rightarrow> node_id"
    and nodes :: "'s \<Rightarrow> routing_entry list"
    and add :: "time \<Rightarrow> routing_entry \<Rightarrow> bool \<Rightarrow> 's \<Rightarrow> 's"
    and remove :: "node_id \<Rightarrow> 's \<Rightarrow> 's"
    and closest :: "node_id \<Rightarrow> nat \<Rightarrow> 's \<Rightarrow> routing_entry list"
  assumes nodes_distinct: "inv s \<Longrightarrow> distinct (map re_id (nodes s))"
    and nodes_valid: "inv s \<Longrightarrow> e \<in> set (nodes s) \<Longrightarrow> valid_id (re_id e) \<and> re_id e \<noteq> self s"
    and inv_add: "inv s \<Longrightarrow> valid_id (re_id e) \<Longrightarrow> inv (add now e c s)"
    and inv_remove: "inv s \<Longrightarrow> valid_id i \<Longrightarrow> inv (remove i s)"
    and self_add: "inv s \<Longrightarrow> self (add now e c s) = self s"
    and self_remove: "inv s \<Longrightarrow> self (remove i s) = self s"
    and nodes_add: "inv s \<Longrightarrow> valid_id (re_id e) \<Longrightarrow>
      set (nodes (add now e c s)) \<subseteq> insert e (set (nodes s))"
    and nodes_remove: "inv s \<Longrightarrow> valid_id i \<Longrightarrow>
      set (nodes (remove i s)) = {e \<in> set (nodes s). re_id e \<noteq> i}"
    and closest_def: "closest target k s = take k (sort_key (\<lambda>e. id_xor target (re_id e)) (nodes s))"
begin

lemma closest_length: "length (closest target k s) = min k (length (nodes s))"
  by (simp add: closest_def)

lemma closest_subset: "set (closest target k s) \<subseteq> set (nodes s)"
  by (auto simp: closest_def dest: in_set_takeD)

lemma closest_distinct: "inv s \<Longrightarrow> distinct (map re_id (closest target k s))"
proof -
  assume "inv s"
  then have "distinct (map re_id (sort_key (\<lambda>e. id_xor target (re_id e)) (nodes s)))"
    using nodes_distinct by (simp add: distinct_map)
  then show ?thesis by (simp add: closest_def flip: take_map)
qed

lemma closest_sorted:
  assumes "inv s" "valid_id target"
  shows "sorted (map (\<lambda>e. distance target (re_id e)) (closest target k s))"
proof -
  have "sorted (map (\<lambda>e. id_xor target (re_id e)) (closest target k s))"
    unfolding closest_def by (simp add: sorted_wrt_take flip: take_map)
  moreover have "distance target (re_id x) \<le> distance target (re_id y)"
    if "x \<in> set (closest target k s)" "y \<in> set (closest target k s)"
      "id_xor target (re_id x) \<le> id_xor target (re_id y)" for x y
    using that closest_subset [of target k s] nodes_valid [OF assms(1)] assms(2)
      distance_less_iff [of "re_id y" target "re_id x"]
    by (auto simp: valid_id_def id_less_def not_less [symmetric] subset_iff)
  ultimately show ?thesis
    unfolding sorted_map by (rule sorted_wrt_mono_rel [rotated]) auto
qed

lemma closest_nearest:
  assumes "inv s" "valid_id target" "x \<in> set (closest target k s)" "y \<in> set (nodes s)"
    "y \<notin> set (closest target k s)"
  shows "distance target (re_id x) < distance target (re_id y)"
proof -
  have le: "id_xor target (re_id x) \<le> id_xor target (re_id y)"
    using assms(3-5) unfolding closest_def by (rule take_sort_key)
  have x: "x \<in> set (nodes s)" using assms(3) closest_subset by blast
  have "re_id x \<noteq> re_id y"
    using nodes_distinct [OF assms(1)] x assms(3-5) by (metis distinct_map inj_onD)
  moreover have "length (re_id x) = length target" "length (re_id y) = length target"
    using nodes_valid [OF assms(1)] x assms(2,4) by (auto simp: valid_id_def)
  ultimately show ?thesis
    using le distance_less_iff [of "re_id x" target "re_id y"] id_xor_inject [of "re_id x" target "re_id y"]
    by (simp add: id_less_def)
qed

end

interpretation rt: node_table rt_inv rt_self rt_all rt_add rt_remove rt_closest
proof
  fix s :: routing_table and e :: routing_entry and now :: time and c :: bool and i target :: node_id and k :: nat
  show "rt_closest target k s = take k (sort_key (\<lambda>e. id_xor target (re_id e)) (rt_all s))"
    by (simp add: rt_closest_def)
  assume inv: "rt_inv s"
  show "distinct (map re_id (rt_all s))" using inv by (rule rt_all_distinct)
  show "e \<in> set (rt_all s) \<Longrightarrow> valid_id (re_id e) \<and> re_id e \<noteq> rt_self s"
    using rt_all_entry [OF inv] by blast
  show "rt_self (rt_add now e c s) = rt_self s" using inv by (rule rt_add_shape)
  show "rt_self (rt_remove i s) = rt_self s" using inv by (rule rt_remove_shape)
  show "rt_inv (rt_add now e c s)" if "valid_id (re_id e)" using inv that by (rule rt_add_inv)
  show "rt_inv (rt_remove i s)" if "valid_id i" using inv that by (rule rt_remove_inv)
  show "set (rt_all (rt_remove i s)) = {e \<in> set (rt_all s). re_id e \<noteq> i}" if "valid_id i"
    using rt_remove_bucket_list [OF inv that] rt_remove_inv [OF inv that] inv
    by (simp add: set_eq_iff in_rt_all cong: conj_cong) blast
  show "set (rt_all (rt_add now e c s)) \<subseteq> insert e (set (rt_all s))" if e: "valid_id (re_id e)"
  proof (cases "re_id e = rt_self s \<or> is_zero (re_id e)")
    case True
    then show ?thesis by (auto simp: rt_add_def)
  next
    case False
    then have ok: "re_id e \<noteq> rt_self s" "\<not> is_zero (re_id e)" by auto
    show ?thesis
    proof
      fix x
      assume "x \<in> set (rt_all (rt_add now e c s))"
      then obtain b where b: "b < NUM_BUCKETS" "x \<in> set (bucket_list (rt_add now e c s) b)"
        using rt_add_inv [OF inv e] by (auto simp: in_rt_all)
      have "x \<in> insert e (set (bucket_list s b))"
        using b rt_add_bucket_list [OF inv e ok, where now = now and c = c]
        by (cases "b = bucket_index (rt_self s) (re_id e)")
          (auto simp: bucket_put_def Let_def split: if_splits dest: set_update_subset_insert [THEN subsetD])
      then show "x \<in> insert e (set (rt_all s))" using b inv by (auto simp: in_rt_all)
    qed
  qed
qed

subsection \<open>Runs of the table\<close>

inductive rt_run :: "node_id \<Rightarrow> routing_table \<Rightarrow> bool" for self where
  rt_start: "valid_id self \<Longrightarrow> rt_run self (rt_new self)"
| rt_add_step: "rt_run self t \<Longrightarrow> valid_id (re_id e) \<Longrightarrow> rt_run self (rt_add now e c t)"
| rt_remove_step: "rt_run self t \<Longrightarrow> valid_id i \<Longrightarrow> rt_run self (rt_remove i t)"

lemma rt_run_inv: "rt_run self t \<Longrightarrow> rt_inv t \<and> rt_self t = self"
proof (induction rule: rt_run.induct)
  case rt_start
  then show ?case by (simp add: rt_new_inv) (simp add: rt_new_def)
qed (auto simp: rt.inv_add rt.inv_remove rt.self_add rt.self_remove)

text \<open>Concrete identifiers and entries for the witnesses.\<close>

definition sample_entry :: routing_entry where
  "sample_entry = \<lparr>re_id = replicate 20 9, re_pa = PeerAddress (inet_ntoa [10, 0, 0, 1]) 6881, re_last_seen = 0\<rparr>"

lemma sample_entry_ok:
  "valid_id (re_id sample_entry)" "re_id sample_entry \<noteq> replicate 20 7" "\<not> is_zero (re_id sample_entry)"
  "canonical_ip (ip (re_pa sample_entry))"
  by (simp_all add: sample_entry_def valid_id_def is_zero_iff)

definition sample_table :: routing_table where
  "sample_table = rt_add 0 sample_entry True (rt_new (replicate 20 7))"

lemma sample_run: "rt_run (replicate 20 7) sample_table"
  unfolding sample_table_def
  by (intro rt_add_step rt_start) (use sample_entry_ok in \<open>simp_all add: valid_id_def\<close>)

lemma sample_table_member: "sample_entry \<in> set (rt_all sample_table)"
proof -
  let ?self = "replicate 20 (7 :: byte)" and ?i = "re_id sample_entry"
  have v: "valid_id ?self" by (simp add: valid_id_def)
  have b: "bucket_index ?self ?i < NUM_BUCKETS"
    using v sample_entry_ok by (intro bucket_index_range) auto
  have "bucket_list sample_table (bucket_index ?self ?i) =
      bucket_put 0 sample_entry (bucket_list (rt_new ?self) (bucket_index ?self ?i))"
    using rt_add_bucket_list(1) [OF rt_new_inv [OF v] sample_entry_ok(1), of 0 True] sample_entry_ok
    by (simp add: sample_table_def rt_new_def)
  then show ?thesis using b rt_run_inv [OF sample_run]
    by (auto simp: in_rt_all bucket_put_def bucket_list_def rt_new_def K_def)
qed

lemma sample_table_closest: "0 < k \<Longrightarrow> rt_closest target k sample_table \<noteq> []"
  using sample_table_member rt.closest_length [of target k sample_table]
  by (cases "rt_all sample_table") auto

subsection \<open>Properties\<close>

text \<open>C27: In every table reachable from construction by adds and removes, every
  bucket holds at most 8 entries, every entry sits in the bucket of its XOR
  distance, no identifier occurs twice in the whole table, and neither the
  node's own identifier nor the zero identifier is ever stored.\<close>

theorem rt_run_well_formed:
  assumes "rt_run self t"
  shows "(\<forall>b. b < NUM_BUCKETS \<longrightarrow> rt_sizes t ! b \<le> K) \<and> distinct (map re_id (rt_all t)) \<and>
    (\<forall>e\<in>set (rt_all t). re_id e \<noteq> self \<and> \<not> is_zero (re_id e) \<and>
       e \<in> set (bucket_list t (bucket_index self (re_id e)))) \<and>
    rt_size t = length (rt_all t)"
proof -
  have inv: "rt_inv t" "rt_self t = self" using rt_run_inv [OF assms] by auto
  show ?thesis
    using rt_invD(4) [OF inv(1)] rt_all_distinct [OF inv(1)] rt_all_entry [OF inv(1)]
      rt_size_length [OF inv(1)] inv(2) by auto
qed

theorem rt_run_well_formed_witness:
  "distinct (map re_id (rt_all sample_table))"
  using rt_run_well_formed [OF sample_run] by blast



text \<open>Adding an entry never evicts a good node: every other node heard from
  within 15 minutes is still in the table afterwards; and the added entry is in
  the table unless its bucket is full of good nodes.\<close>

theorem rt_add_keeps_good:
  assumes "rt_run self t" "valid_id (re_id e)" "re_id e \<noteq> self" "\<not> is_zero (re_id e)"
  shows "(\<forall>x\<in>set (rt_all t). is_good now x \<longrightarrow> re_id x \<noteq> re_id e \<longrightarrow> x \<in> set (rt_all (rt_add now e c t))) \<and>
    (e \<in> set (rt_all (rt_add now e c t)) \<or>
     (length (bucket_list t (bucket_index self (re_id e))) = K \<and>
      (\<forall>x\<in>set (bucket_list t (bucket_index self (re_id e))). is_good now x)))"
proof -
  let ?b = "bucket_index self (re_id e)" and ?t = "rt_add now e c t"
  have inv: "rt_inv t" "rt_self t = self" using rt_run_inv [OF assms(1)] by auto
  have inv': "rt_inv ?t" using inv(1) assms(2) by (rule rt_add_inv)
  have b: "?b < NUM_BUCKETS" using bucket_index_range(1) assms inv by (auto simp: rt_inv_def)
  have bl: "bucket_list ?t ?b = bucket_put now e (bucket_list t ?b)"
    "\<And>b'. b' \<noteq> ?b \<Longrightarrow> bucket_list ?t b' = bucket_list t b'"
    using rt_add_bucket_list [OF inv(1) assms(2), where now = now and c = c] assms(3,4) inv(2) by auto
  have "x \<in> set (rt_all ?t)" if x: "x \<in> set (rt_all t)" "is_good now x" "re_id x \<noteq> re_id e" for x
  proof -
    obtain b' where "b' < NUM_BUCKETS" "x \<in> set (bucket_list t b')" using x(1) inv by (auto simp: in_rt_all)
    then have "x \<in> set (bucket_list ?t b')"
      using bl x(2,3) bucket_put_keeps_good [of x "bucket_list t ?b" now e] by (cases "b' = ?b") auto
    then show ?thesis using \<open>b' < NUM_BUCKETS\<close> inv' by (auto simp: in_rt_all)
  qed
  moreover have "length (bucket_list t ?b) \<le> K" using rt_invD [OF inv(1) b] by simp
  from bucket_put_result [OF this, of e now] have "e \<in> set (rt_all ?t) \<or>
      (length (bucket_list t ?b) = K \<and> (\<forall>x\<in>set (bucket_list t ?b). is_good now x))"
    using b inv' bl(1) by (auto simp: in_rt_all)
  ultimately show ?thesis by blast
qed

theorem rt_add_keeps_good_witness:
  "sample_entry \<in> set (rt_all (rt_add 0 sample_entry True (rt_new (replicate 20 7))))"
proof -
  let ?self = "replicate 20 (7 :: byte)"
  have "bucket_index ?self (re_id sample_entry) < NUM_BUCKETS"
    by (rule bucket_index_range) (use sample_entry_ok in \<open>auto simp: valid_id_def\<close>)
  then have "bucket_list (rt_new ?self) (bucket_index ?self (re_id sample_entry)) = []"
    by (simp add: bucket_list_def rt_new_def)
  moreover have "rt_run ?self (rt_new ?self)" by (rule rt_start) (simp add: valid_id_def)
  ultimately show ?thesis
    using rt_add_keeps_good [of ?self "rt_new ?self" sample_entry 0 True] sample_entry_ok
    by (simp add: K_def)
qed

text \<open>C29: closest returns the k nearest nodes of the table: min(k, size) distinct
  entries in increasing XOR distance to the target, and every entry left out is
  strictly farther than every entry returned.\<close>

theorem rt_closest_spec:
  assumes "rt_run self t" "valid_id target"
  shows "length (rt_closest target k t) = min k (rt_size t) \<and>
    set (rt_closest target k t) \<subseteq> set (rt_all t) \<and>
    distinct (map re_id (rt_closest target k t)) \<and>
    sorted (map (\<lambda>e. distance target (re_id e)) (rt_closest target k t)) \<and>
    (\<forall>x\<in>set (rt_closest target k t). \<forall>y\<in>set (rt_all t) - set (rt_closest target k t).
       distance target (re_id x) < distance target (re_id y))"
proof -
  have inv: "rt_inv t" using rt_run_inv [OF assms(1)] by auto
  show ?thesis
    using rt.closest_length [of target k t] rt.closest_subset [of target k t] rt_size_length [OF inv]
      rt.closest_distinct [OF inv, of target k] rt.closest_sorted [OF inv assms(2), of k]
      rt.closest_nearest [OF inv assms(2)] by auto
qed

theorem rt_closest_spec_witness:
  "sorted (map (\<lambda>e. distance (replicate 20 3) (re_id e))
     (rt_closest (replicate 20 3) 4 sample_table))"
  using rt_closest_spec [OF sample_run, of "replicate 20 3" 4] by (simp add: valid_id_def)

end
