(* ===== verification/Kademlia_Lookup.thy ===== *)
theory Kademlia_Lookup
  imports Routing_Table
begin

section \<open>One iterative Kademlia lookup\<close>

text \<open>
  \<^verbatim>\<open>KademliaLookup\<close> (\<^verbatim>\<open>kademlia_lookup.h/.cpp\<close>): the candidates of one
  get_peers lookup, the addresses already queried and the transactions still
  unanswered. \<^verbatim>\<open>std::sort\<close> is the stable sort by XOR distance; the two
  agree up to the order of candidates with the same identifier.
\<close>

record kademlia_lookup =
  kl_info_hash :: info_hash
  kl_target :: node_id
  kl_candidates :: "routing_entry list"
  kl_queried :: "peer_address set"
  kl_pending :: "bytes set"
  kl_started :: time

definition kl_new :: "time \<Rightarrow> info_hash \<Rightarrow> routing_entry list \<Rightarrow> kademlia_lookup" where
  "kl_new now h seed_candidates =
     \<lparr>kl_info_hash = h, kl_target = id_from_info_hash h, kl_candidates = seed_candidates,
      kl_queried = {}, kl_pending = {}, kl_started = now\<rparr>"

definition has_pending :: "kademlia_lookup \<Rightarrow> bool" where
  "has_pending l = (kl_pending l \<noteq> {})"

definition pending_count :: "kademlia_lookup \<Rightarrow> nat" where
  "pending_count l = card (kl_pending l)"

definition add_pending_txn :: "bytes \<Rightarrow> kademlia_lookup \<Rightarrow> kademlia_lookup" where
  "add_pending_txn txn l = l\<lparr>kl_pending := insert txn (kl_pending l)\<rparr>"

definition remove_pending_txn :: "bytes \<Rightarrow> kademlia_lookup \<Rightarrow> kademlia_lookup" where
  "remove_pending_txn txn l = l\<lparr>kl_pending := kl_pending l - {txn}\<rparr>"

definition all_candidates_queried :: "kademlia_lookup \<Rightarrow> bool" where
  "all_candidates_queried l = list_all (\<lambda>node. re_pa node \<in> kl_queried l) (kl_candidates l)"

definition merge_nodes :: "routing_entry list \<Rightarrow> node_id \<Rightarrow> kademlia_lookup \<Rightarrow> kademlia_lookup" where
  "merge_nodes nodes self_id l =
     l\<lparr>kl_candidates := take K (sort_key (\<lambda>e. id_xor (kl_target l) (re_id e))
         (kl_candidates l @ filter (\<lambda>n. re_id n \<noteq> self_id) nodes))\<rparr>"

fun select_loop ::
    "nat \<Rightarrow> routing_entry list \<Rightarrow> peer_address set \<Rightarrow> routing_entry list
     \<Rightarrow> peer_address set \<times> routing_entry list" where
  "select_loop cnt [] queried selected = (queried, selected)"
| "select_loop cnt (node # nodes) queried selected =
     (if cnt \<le> length selected then (queried, selected)
      else if re_pa node \<in> queried then select_loop cnt nodes queried selected
      else select_loop cnt nodes (insert (re_pa node) queried) (selected @ [node]))"

definition select_next_candidates :: "nat \<Rightarrow> kademlia_lookup \<Rightarrow> routing_entry list \<times> kademlia_lookup" where
  "select_next_candidates cnt l =
     (let (queried, selected) = select_loop cnt (kl_candidates l) (kl_queried l) []
      in (selected, l\<lparr>kl_queried := queried\<rparr>))"

subsection \<open>Selection\<close>

lemma select_loop_spec:
  assumes "select_loop cnt nodes q sel = (q', sel')"
  shows "\<exists>new. sel' = sel @ new \<and> q' = q \<union> re_pa ` set new \<and> distinct (map re_pa new) \<and>
    re_pa ` set new \<inter> q = {} \<and> set new \<subseteq> set nodes \<and>
    (length sel \<le> cnt \<longrightarrow> length sel' \<le> cnt) \<and>
    (length sel' < cnt \<longrightarrow> re_pa ` set nodes \<subseteq> q')"
  using assms
proof (induction cnt nodes q sel rule: select_loop.induct)
  case (1 cnt q sel)
  then show ?case by simp
next
  case (2 cnt node nodes q sel)
  consider (stop) "cnt \<le> length sel" | (skip) "\<not> cnt \<le> length sel" "re_pa node \<in> q"
    | (take) "\<not> cnt \<le> length sel" "re_pa node \<notin> q" by blast
  then show ?case
  proof cases
    case stop
    then show ?thesis using "2.prems" by simp
  next
    case skip
    with "2.IH"(1) "2.prems" show ?thesis by force
  next
    case take
    then obtain new where "sel' = (sel @ [node]) @ new" "q' = insert (re_pa node) q \<union> re_pa ` set new"
      "distinct (map re_pa new)" "re_pa ` set new \<inter> insert (re_pa node) q = {}" "set new \<subseteq> set nodes"
      "length sel' \<le> cnt" "length sel' < cnt \<longrightarrow> re_pa ` set nodes \<subseteq> q'"
      using "2.IH"(2) "2.prems" by auto
    then show ?thesis using take by (intro exI [of _ "node # new"]) auto
  qed
qed

lemma select_next_candidates_spec:
  assumes "select_next_candidates cnt l = (sel, l')"
  shows "length sel \<le> cnt" "distinct (map re_pa sel)" "re_pa ` set sel \<inter> kl_queried l = {}"
    "set sel \<subseteq> set (kl_candidates l)" "l' = l\<lparr>kl_queried := kl_queried l \<union> re_pa ` set sel\<rparr>"
    "length sel < cnt \<Longrightarrow> all_candidates_queried l'"
proof -
  obtain q where q: "select_loop cnt (kl_candidates l) (kl_queried l) [] = (q, sel)" "l' = l\<lparr>kl_queried := q\<rparr>"
    using assms by (auto simp: select_next_candidates_def split: prod.splits)
  note spec = select_loop_spec [OF q(1)]
  show "length sel \<le> cnt" "distinct (map re_pa sel)" "re_pa ` set sel \<inter> kl_queried l = {}"
    "set sel \<subseteq> set (kl_candidates l)" "l' = l\<lparr>kl_queried := kl_queried l \<union> re_pa ` set sel\<rparr>"
    using spec q(2) by auto
  show "length sel < cnt \<Longrightarrow> all_candidates_queried l'"
    using spec q(2) by (auto simp: all_candidates_queried_def list_all_iff image_subset_iff)
qed

subsection \<open>Merging\<close>

lemma merge_nodes_candidates:
  "length (kl_candidates (merge_nodes nodes self l)) \<le> K"
  "set (kl_candidates (merge_nodes nodes self l)) \<subseteq>
     set (kl_candidates l) \<union> {n \<in> set nodes. re_id n \<noteq> self}"
  by (auto simp: merge_nodes_def dest!: in_set_takeD)

lemma merge_nodes_simps [simp]:
  "kl_pending (merge_nodes nodes self l) = kl_pending l" "kl_queried (merge_nodes nodes self l) = kl_queried l"
  "kl_target (merge_nodes nodes self l) = kl_target l" "kl_started (merge_nodes nodes self l) = kl_started l"
  "kl_info_hash (merge_nodes nodes self l) = kl_info_hash l"
  by (simp_all add: merge_nodes_def)

subsection \<open>Properties\<close>

text \<open>Merging discovered nodes keeps the at most 8 candidates nearest to the
  target: everything kept comes from the old candidates or the new nodes (never
  this node itself), the list is ordered by XOR distance, and nothing left out
  is nearer than anything kept.\<close>

theorem merge_keeps_nearest:
  fixes nodes :: "routing_entry list" and self_id :: node_id
  defines "pool l \<equiv> kl_candidates l @ filter (\<lambda>n. re_id n \<noteq> self_id) nodes"
  assumes "valid_id (kl_target l)" "\<forall>n\<in>set (pool l). valid_id (re_id n)"
  shows "length (kl_candidates (merge_nodes nodes self_id l)) = min K (length (pool l)) \<and>
    set (kl_candidates (merge_nodes nodes self_id l)) \<subseteq> set (pool l) \<and>
    sorted (map (\<lambda>e. distance (kl_target l) (re_id e)) (kl_candidates (merge_nodes nodes self_id l))) \<and>
    (\<forall>x\<in>set (kl_candidates (merge_nodes nodes self_id l)).
       \<forall>y\<in>set (pool l) - set (kl_candidates (merge_nodes nodes self_id l)).
         distance (kl_target l) (re_id x) \<le> distance (kl_target l) (re_id y))"
proof -
  let ?f = "\<lambda>e. id_xor (kl_target l) (re_id e)"
  have c: "kl_candidates (merge_nodes nodes self_id l) = take K (sort_key ?f (pool l))"
    by (simp add: merge_nodes_def pool_def)
  have sub: "set (take K (sort_key ?f (pool l))) \<subseteq> set (pool l)" by (metis set_sort set_take_subset)
  have mono: "distance (kl_target l) (re_id x) \<le> distance (kl_target l) (re_id y)"
    if "x \<in> set (pool l)" "y \<in> set (pool l)" "?f x \<le> ?f y" for x y
    using that assms distance_less_iff [of "re_id y" "kl_target l" "re_id x"]
    by (auto simp: valid_id_def id_less_def not_less [symmetric])
  have "sorted_wrt (\<lambda>x y. ?f x \<le> ?f y) (take K (sort_key ?f (pool l)))"
    using sorted_sort_key [of ?f "pool l"] by (simp add: sorted_wrt_take sorted_wrt_map)
  then have "sorted_wrt (\<lambda>x y. distance (kl_target l) (re_id x) \<le> distance (kl_target l) (re_id y))
      (take K (sort_key ?f (pool l)))"
    by (rule sorted_wrt_mono_rel [rotated]) (use mono sub in blast)
  then have ord: "sorted (map (\<lambda>e. distance (kl_target l) (re_id e)) (take K (sort_key ?f (pool l))))"
    by (simp add: sorted_wrt_map)
  have "distance (kl_target l) (re_id x) \<le> distance (kl_target l) (re_id y)"
    if "x \<in> set (take K (sort_key ?f (pool l)))" "y \<in> set (pool l)" "y \<notin> set (take K (sort_key ?f (pool l)))" for x y
  proof -
    have "valid_id (re_id x)" "valid_id (re_id y)" using that sub assms(3) by auto
    then show ?thesis
      using take_sort_key [OF that] distance_less_iff [of "re_id y" "kl_target l" "re_id x"] assms(2)
      by (auto simp: valid_id_def id_less_def not_less [symmetric])
  qed
  then show ?thesis using sub ord unfolding c by auto
qed

theorem merge_keeps_nearest_witness:
  "length (kl_candidates (merge_nodes [sample_entry] (replicate 20 7) (kl_new 0 (replicate 20 3) []))) = 1"
proof -
  let ?l = "kl_new 0 (replicate 20 (3 :: byte)) []"
  have "valid_id (kl_target ?l)"
    "\<forall>n\<in>set (kl_candidates ?l @ filter (\<lambda>n. re_id n \<noteq> replicate 20 7) [sample_entry]). valid_id (re_id n)"
    by (simp_all add: kl_new_def id_from_info_hash_def valid_id_def sample_entry_def)
  from merge_keeps_nearest [OF this] show ?thesis
    by (simp add: kl_new_def K_def sample_entry_ok)
qed

end
