(* ===== verification/Bencode.thy ===== *)
theory Bencode
  imports Addresses
begin

section \<open>Bencode: types, encoder, parser\<close>

text \<open>
  The bencode value type (\<^verbatim>\<open>inc/bencode/bencode_types.h\<close>), the encoder
  combinators (\<^verbatim>\<open>src/bencode/bencode_encoder.cpp\<close>) and the
  recursive-descent parser (\<^verbatim>\<open>src/bencode/bencode_parser.cpp\<close>) with its
  position in the input and one error value per throw site. The parser's
  recursion carries fuel; \<open>parse_value\<close> supplies one unit more than there
  are input bytes and \<open>parse_value_returns\<close> shows that this is always
  enough, so the out-of-fuel value is never a result.
\<close>

subsection \<open>Values\<close>

datatype btype =
    BInteger int
  | BString bytes
  | BList "btype list"
  | BDict "(bytes \<times> btype) list"

text \<open>Accessors of \<^verbatim>\<open>BDict\<close> and the checked cast \<^verbatim>\<open>as<T>\<close>.\<close>

datatype btype_error = Missing_key bytes | Wrong_type bytes | Key_not_found bytes | Unexpected_btype

datatype btype_tag = TInteger | TString | TList | TDictionary

fun type_of :: "btype \<Rightarrow> btype_tag" where
  "type_of (BInteger _) = TInteger"
| "type_of (BString _) = TString"
| "type_of (BList _) = TList"
| "type_of (BDict _) = TDictionary"

definition get_val :: "btype_tag \<Rightarrow> (bytes \<times> btype) list \<Rightarrow> bytes \<Rightarrow> btype_error + btype" where
  "get_val t content key =
     (case map_of content key of
        None \<Rightarrow> Inl (Missing_key key)
      | Some v \<Rightarrow> if type_of v \<noteq> t then Inl (Wrong_type key) else Inr v)"

definition subscript :: "(bytes \<times> btype) list \<Rightarrow> bytes \<Rightarrow> btype_error + btype" where
  "subscript content key =
     (case map_of content key of None \<Rightarrow> Inl (Key_not_found key) | Some v \<Rightarrow> Inr v)"

definition has_key :: "(bytes \<times> btype) list \<Rightarrow> bytes \<Rightarrow> bool" where
  "has_key content field = (map_of content field \<noteq> None)"

definition as_type :: "btype_tag \<Rightarrow> btype \<Rightarrow> btype_error + btype" where
  "as_type t v = (if type_of v \<noteq> t then Inl Unexpected_btype else Inr v)"

subsection \<open>Encoder\<close>

definition bencode_integer :: "int \<Rightarrow> bytes" where
  "bencode_integer v = str ''i'' @ dec_int v @ str ''e''"

definition bencode_string :: "bytes \<Rightarrow> bytes" where
  "bencode_string s = dec (length s) @ str '':'' @ s"

definition bencode_list :: "bytes list \<Rightarrow> bytes" where
  "bencode_list items = str ''l'' @ concat items @ str ''e''"

definition bencode_dict :: "(bytes \<times> bytes) list \<Rightarrow> bytes" where
  "bencode_dict entries =
     str ''d'' @ concat (map (\<lambda>(k, v). bencode_string k @ v) entries) @ str ''e''"

subsection \<open>Parser\<close>

datatype parse_error =
    No_more_metadata
  | Bad_length nat
  | Invalid_argument
  | Out_of_range
  | Missing_colon nat
  | String_unfinished nat
  | Length_error
  | Unknown_type nat
  | Bad_integer_char nat
  | Bad_start
  | Not_terminated
  | Out_of_fuel

type_synonym 'a parsed = "parse_error + ('a \<times> nat)"

definition get :: "bytes \<Rightarrow> nat \<Rightarrow> byte parsed" where
  "get d pos = (if length d \<le> pos then Inl No_more_metadata else Inr (d ! pos, Suc pos))"

definition peek :: "bytes \<Rightarrow> nat \<Rightarrow> parse_error + byte" where
  "peek d pos = (if length d \<le> pos then Inl No_more_metadata else Inr (d ! pos))"

text \<open>The loop of \<^verbatim>\<open>parse_byte_string\<close> that looks for the colon.\<close>

function scan_length :: "bytes \<Rightarrow> nat \<Rightarrow> parse_error + nat" where
  "scan_length d i =
     (if i < length d then
        if d ! i = of_char CHR '':'' then Inr i
        else if \<not> is_digit (d ! i) then Inl (Bad_length i)
        else scan_length d (Suc i)
      else Inr i)"
  by pat_completeness auto
termination
  by (relation "measure (\<lambda>(d, i). length d - i)") auto

declare scan_length.simps [simp del]

text \<open>
  \<^verbatim>\<open>std::stoul\<close> on a run of digits and \<^verbatim>\<open>std::stoll\<close> on a run of digits
  and minus signs: the conversion stops at the first character that does not
  continue the number.
\<close>

definition stoul :: "bytes \<Rightarrow> parse_error + nat" where
  "stoul s =
     (let ds = takeWhile is_digit s in
      if ds = [] then Inl Invalid_argument
      else if 2 ^ 64 \<le> digits_val ds then Inl Out_of_range
      else Inr (digits_val ds))"

definition stoll :: "bytes \<Rightarrow> parse_error + int" where
  "stoll s =
     (let neg = (s \<noteq> [] \<and> hd s = of_char CHR ''-'');
          ds = takeWhile is_digit (if neg then tl s else s);
          v = (if neg then - int (digits_val ds) else int (digits_val ds))
      in if ds = [] then Inl Invalid_argument
         else if v < - (2 ^ 63) \<or> 2 ^ 63 \<le> v then Inl Out_of_range
         else Inr v)"

text \<open>
  The bounds check adds \<^verbatim>\<open>size_t\<close> values, so it wraps; when only the
  wrapped sum is in range the string constructor is handed a negative distance
  and raises \<^verbatim>\<open>length_error\<close>.
\<close>

definition parse_byte_string :: "bytes \<Rightarrow> nat \<Rightarrow> bytes parsed" where
  "parse_byte_string d pos =
     (case scan_length d pos of
        Inl e \<Rightarrow> Inl e
      | Inr i \<Rightarrow>
          (case stoul (take (i - pos) (drop pos d)) of
             Inl e \<Rightarrow> Inl e
           | Inr len \<Rightarrow>
               (case get d i of
                  Inl e \<Rightarrow> Inl e
                | Inr (c, p) \<Rightarrow>
                    if c \<noteq> of_char CHR '':'' then Inl (Missing_colon p)
                    else if length d < u64 (p + len) then Inl (String_unfinished p)
                    else if length d < p + len then Inl Length_error
                    else Inr (take len (drop p d), p + len))))"

function scan_integer :: "bytes \<Rightarrow> nat \<Rightarrow> parse_error + nat" where
  "scan_integer d pos =
     (if length d \<le> pos then Inl No_more_metadata
      else if d ! pos = of_char CHR ''e'' then Inr pos
      else if \<not> is_digit (d ! pos) \<and> d ! pos \<noteq> of_char CHR ''-'' then Inl (Bad_integer_char pos)
      else scan_integer d (Suc pos))"
  by pat_completeness auto
termination
  by (relation "measure (\<lambda>(d, pos). length d - pos)") auto

declare scan_integer.simps [simp del]

definition parse_integer :: "bytes \<Rightarrow> nat \<Rightarrow> int parsed" where
  "parse_integer d pos =
     (case get d pos of
        Inl e \<Rightarrow> Inl e
      | Inr (c, start) \<Rightarrow>
          if c \<noteq> of_char CHR ''i'' then Inl Bad_start
          else (case scan_integer d start of
                  Inl e \<Rightarrow> Inl e
                | Inr p \<Rightarrow>
                    (case get d p of
                       Inl e \<Rightarrow> Inl e
                     | Inr (_, q) \<Rightarrow>
                         (case stoll (take (p - start) (drop start d)) of
                            Inl e \<Rightarrow> Inl e
                          | Inr v \<Rightarrow> Inr (v, q)))))"

text \<open>
  The loops of \<^verbatim>\<open>parse_list\<close> and \<^verbatim>\<open>parse_dictionary\<close> take the parser
  for one element as an argument; \<open>parse_bencoding_type\<close> ties the recursion.
\<close>

primrec parse_list_loop ::
    "nat \<Rightarrow> (nat \<Rightarrow> btype parsed) \<Rightarrow> bytes \<Rightarrow> nat \<Rightarrow> btype list \<Rightarrow> btype parsed" where
  "parse_list_loop 0 item d pos content = Inl Out_of_fuel"
| "parse_list_loop (Suc n) item d pos content =
     (case peek d pos of
        Inl e \<Rightarrow> Inl e
      | Inr c \<Rightarrow>
          if c \<noteq> of_char CHR ''e'' then
            (case item pos of
               Inl e \<Rightarrow> Inl e
             | Inr (v, p) \<Rightarrow> parse_list_loop n item d p (content @ [v]))
          else (case get d pos of
                  Inl e \<Rightarrow> Inl e
                | Inr (c', p) \<Rightarrow>
                    if c' \<noteq> of_char CHR ''e'' then Inl Not_terminated
                    else Inr (BList content, p)))"

definition parse_list :: "nat \<Rightarrow> (nat \<Rightarrow> btype parsed) \<Rightarrow> bytes \<Rightarrow> nat \<Rightarrow> btype parsed" where
  "parse_list n item d pos =
     (case get d pos of
        Inl e \<Rightarrow> Inl e
      | Inr (c, p) \<Rightarrow>
          if c \<noteq> of_char CHR ''l'' then Inl Bad_start else parse_list_loop n item d p [])"

primrec parse_dict_loop ::
    "nat \<Rightarrow> (nat \<Rightarrow> btype parsed) \<Rightarrow> bytes \<Rightarrow> nat \<Rightarrow> (bytes \<times> btype) list \<Rightarrow> btype parsed" where
  "parse_dict_loop 0 item d pos content = Inl Out_of_fuel"
| "parse_dict_loop (Suc n) item d pos content =
     (case peek d pos of
        Inl e \<Rightarrow> Inl e
      | Inr c \<Rightarrow>
          if c \<noteq> of_char CHR ''e'' then
            (case parse_byte_string d pos of
               Inl e \<Rightarrow> Inl e
             | Inr (key, p) \<Rightarrow>
                 (case item p of
                    Inl e \<Rightarrow> Inl e
                  | Inr (v, q) \<Rightarrow> parse_dict_loop n item d q (map_put key v content)))
          else (case get d pos of
                  Inl e \<Rightarrow> Inl e
                | Inr (c', p) \<Rightarrow>
                    if c' \<noteq> of_char CHR ''e'' then Inl Not_terminated
                    else Inr (BDict content, p)))"

definition parse_dictionary ::
    "nat \<Rightarrow> (nat \<Rightarrow> btype parsed) \<Rightarrow> bytes \<Rightarrow> nat \<Rightarrow> btype parsed" where
  "parse_dictionary n item d pos =
     (case get d pos of
        Inl e \<Rightarrow> Inl e
      | Inr (c, p) \<Rightarrow>
          if c \<noteq> of_char CHR ''d'' then Inl Bad_start else parse_dict_loop n item d p [])"

primrec parse_bencoding_type :: "nat \<Rightarrow> bytes \<Rightarrow> nat \<Rightarrow> btype parsed" where
  "parse_bencoding_type 0 d pos = Inl Out_of_fuel"
| "parse_bencoding_type (Suc n) d pos =
     (case peek d pos of
        Inl e \<Rightarrow> Inl e
      | Inr c \<Rightarrow>
          if c = of_char CHR ''i'' then
            (case parse_integer d pos of Inl e \<Rightarrow> Inl e | Inr (v, p) \<Rightarrow> Inr (BInteger v, p))
          else if c = of_char CHR ''l'' then parse_list n (parse_bencoding_type n d) d pos
          else if c = of_char CHR ''d'' then parse_dictionary n (parse_bencoding_type n d) d pos
          else if is_digit c then
            (case parse_byte_string d pos of Inl e \<Rightarrow> Inl e | Inr (s, p) \<Rightarrow> Inr (BString s, p))
          else Inl (Unknown_type pos))"

definition parse_value :: "bytes \<Rightarrow> btype parsed" where
  "parse_value d = parse_bencoding_type (length d + 1) d 0"

subsection \<open>Progress: every value parsed consumes input, and fuel suffices\<close>

lemma scan_length_le: "scan_length d i = Inr j \<Longrightarrow> i \<le> j"
proof (induction d i rule: scan_length.induct)
  case (1 d i)
  from "1.prems" "1.IH" show ?case
    by (subst (asm) scan_length.simps) (auto split: if_splits)
qed

lemma scan_integer_le: "scan_integer d i = Inr j \<Longrightarrow> i \<le> j"
proof (induction d i rule: scan_integer.induct)
  case (1 d i)
  from "1.prems" "1.IH" show ?case
    by (subst (asm) scan_integer.simps) (auto split: if_splits)
qed

lemma parse_byte_string_bounds:
  "parse_byte_string d pos = Inr (s, p) \<Longrightarrow> pos < p \<and> p \<le> length d \<and> length s < p"
  by (auto simp: parse_byte_string_def get_def split: sum.splits if_splits dest!: scan_length_le)

lemma parse_integer_bounds:
  "parse_integer d pos = Inr (v, p) \<Longrightarrow> pos < p \<and> p \<le> length d"
  by (auto simp: parse_integer_def get_def split: sum.splits if_splits dest!: scan_integer_le)

lemma parse_byte_string_fuel [simp]: "parse_byte_string d pos \<noteq> Inl Out_of_fuel"
proof -
  have "scan_length d pos \<noteq> Inl Out_of_fuel"
    by (induction d pos rule: scan_length.induct) (subst scan_length.simps, simp)
  then show ?thesis
    by (auto simp: parse_byte_string_def get_def stoul_def Let_def split: sum.splits if_splits)
qed

lemma parse_integer_fuel [simp]: "parse_integer d pos \<noteq> Inl Out_of_fuel"
proof -
  have "scan_integer d i \<noteq> Inl Out_of_fuel" for i
    by (induction d i rule: scan_integer.induct) (subst scan_integer.simps, simp)
  then show ?thesis
    by (auto simp: parse_integer_def get_def stoll_def Let_def split: sum.splits if_splits)
qed

definition advances :: "bytes \<Rightarrow> (nat \<Rightarrow> btype parsed) \<Rightarrow> bool" where
  "advances d item = (\<forall>pos v p. item pos = Inr (v, p) \<longrightarrow> pos < p \<and> p \<le> length d)"

lemma parse_list_loop_bounds:
  "advances d item \<Longrightarrow> parse_list_loop n item d pos content = Inr (v, p) \<Longrightarrow>
   pos < p \<and> p \<le> length d"
proof (induction n arbitrary: pos content)
  case 0
  then show ?case by simp
next
  case (Suc n)
  from Suc.prems show ?case
    by (fastforce simp: peek_def get_def advances_def split: sum.splits if_splits
        dest: Suc.IH [OF Suc.prems(1)])
qed

lemma parse_dict_loop_bounds:
  "advances d item \<Longrightarrow> parse_dict_loop n item d pos content = Inr (v, p) \<Longrightarrow>
   pos < p \<and> p \<le> length d"
proof (induction n arbitrary: pos content)
  case 0
  then show ?case by simp
next
  case (Suc n)
  from Suc.prems show ?case
    by (fastforce simp: peek_def get_def advances_def split: sum.splits if_splits
        dest: Suc.IH [OF Suc.prems(1)] parse_byte_string_bounds)
qed

lemma advances_parse_bencoding_type: "advances d (parse_bencoding_type n d)"
proof (induction n)
  case 0
  then show ?case by (simp add: advances_def)
next
  case (Suc n)
  then show ?case
    unfolding advances_def [of d "parse_bencoding_type (Suc n) d"]
    by (fastforce simp: parse_list_def parse_dictionary_def get_def peek_def
        split: sum.splits if_splits
        dest: parse_list_loop_bounds parse_dict_loop_bounds parse_integer_bounds
          parse_byte_string_bounds)
qed

lemma parse_list_loop_fuel:
  assumes "advances d item" "\<And>p. p \<ge> pos \<Longrightarrow> item p \<noteq> Inl Out_of_fuel"
    and "length d - pos < n"
  shows "parse_list_loop n item d pos content \<noteq> Inl Out_of_fuel"
  using assms
proof (induction n arbitrary: pos content)
  case 0
  then show ?case by simp
next
  case (Suc n)
  have "parse_list_loop n item d p (content @ [v]) \<noteq> Inl Out_of_fuel"
    if "item pos = Inr (v, p)" for v p
  proof -
    have "pos < p" "p \<le> length d" using that Suc.prems(1) by (auto simp: advances_def)
    then show ?thesis using Suc.prems by (intro Suc.IH) auto
  qed
  with Suc.prems show ?case by (auto simp: peek_def get_def split: sum.splits)
qed

lemma parse_dict_loop_fuel:
  assumes "advances d item" "\<And>p. p \<ge> pos \<Longrightarrow> item p \<noteq> Inl Out_of_fuel"
    and "length d - pos < n"
  shows "parse_dict_loop n item d pos content \<noteq> Inl Out_of_fuel"
  using assms
proof (induction n arbitrary: pos content)
  case 0
  then show ?case by simp
next
  case (Suc n)
  have "parse_dict_loop n item d q (map_put k v content) \<noteq> Inl Out_of_fuel"
    if "parse_byte_string d pos = Inr (k, p)" "item p = Inr (v, q)" for k v p q
  proof -
    have "pos < q" "q \<le> length d"
      using parse_byte_string_bounds [OF that(1)] that(2) Suc.prems(1)
      unfolding advances_def by (fastforce intro: less_trans)+
    then show ?thesis using Suc.prems by (intro Suc.IH) auto
  qed
  moreover have "item p \<noteq> Inl Out_of_fuel" if "parse_byte_string d pos = Inr (k, p)" for k p
    using that Suc.prems(2) parse_byte_string_bounds by (meson less_imp_le)
  ultimately show ?case by (auto simp: peek_def get_def split: sum.splits)
qed

lemma parse_bencoding_type_fuel:
  "length d - pos < n \<Longrightarrow> parse_bencoding_type n d pos \<noteq> Inl Out_of_fuel"
proof (induction n arbitrary: pos)
  case 0
  then show ?case by simp
next
  case (Suc n)
  have "parse_list_loop n (parse_bencoding_type n d) d (Suc pos) [] \<noteq> Inl Out_of_fuel"
    "parse_dict_loop n (parse_bencoding_type n d) d (Suc pos) [] \<noteq> Inl Out_of_fuel"
    if "pos < length d"
    using that Suc.prems Suc.IH
    by (intro parse_list_loop_fuel parse_dict_loop_fuel advances_parse_bencoding_type; simp)+
  then show ?case
    by (auto simp: peek_def get_def parse_list_def parse_dictionary_def split: sum.splits)
qed

subsection \<open>Well-formed values\<close>

text \<open>
  What the C++ types guarantee of a value: integers fit \<^verbatim>\<open>int64_t\<close> and
  dictionary keys are strictly increasing, as in \<^verbatim>\<open>std::map\<close>.
\<close>

fun wf_btype :: "btype \<Rightarrow> bool" where
  "wf_btype (BInteger i) = (- (2 ^ 63) \<le> i \<and> i < 2 ^ 63)"
| "wf_btype (BString s) = True"
| "wf_btype (BList vs) = (\<forall>v\<in>set vs. wf_btype v)"
| "wf_btype (BDict m) = (sorted_keys m \<and> (\<forall>kv\<in>set m. wf_btype (snd kv)))"

lemma parse_integer_range: "parse_integer d pos = Inr (v, p) \<Longrightarrow> wf_btype (BInteger v)"
  by (auto simp: parse_integer_def stoll_def Let_def split: sum.splits if_splits)

definition yields_wf :: "(nat \<Rightarrow> btype parsed) \<Rightarrow> bool" where
  "yields_wf item = (\<forall>pos v p. item pos = Inr (v, p) \<longrightarrow> wf_btype v)"

lemma parse_list_loop_wf:
  "yields_wf item \<Longrightarrow> \<forall>v\<in>set content. wf_btype v \<Longrightarrow>
   parse_list_loop n item d pos content = Inr (v, p) \<Longrightarrow> wf_btype v"
proof (induction n arbitrary: pos content)
  case 0
  then show ?case by simp
next
  case (Suc n)
  have push: "\<forall>x\<in>set (content @ [w]). wf_btype x" if "item q = Inr (w, r)" for w q r
    using that Suc.prems(1,2) by (auto simp: yields_wf_def)
  from Suc.prems(2,3) show ?case
    by (auto split: sum.splits if_splits intro: Suc.IH [OF Suc.prems(1) push])
qed

lemma parse_dict_loop_wf:
  "yields_wf item \<Longrightarrow> wf_btype (BDict content) \<Longrightarrow>
   parse_dict_loop n item d pos content = Inr (v, p) \<Longrightarrow> wf_btype v"
proof (induction n arbitrary: pos content)
  case 0
  then show ?case by simp
next
  case (Suc n)
  have put: "wf_btype (BDict (map_put k w content))" if "item q = Inr (w, r)" for k w q r
  proof -
    have w: "wf_btype w" using that Suc.prems(1) unfolding yields_wf_def by blast
    then show ?thesis using Suc.prems(2)
      by (auto simp: sorted_keys_map_put dest!: map_put_values)
  qed
  from Suc.prems(2,3) show ?case
    by (auto split: sum.splits if_splits intro: Suc.IH [OF Suc.prems(1) put])
qed

lemma yields_wf_parse: "yields_wf (parse_bencoding_type n d)"
proof (induction n)
  case 0
  then show ?case by (simp add: yields_wf_def)
next
  case (Suc n)
  then show ?case
    unfolding yields_wf_def [of "parse_bencoding_type (Suc n) d"]
    by (auto simp: parse_list_def parse_dictionary_def simp del: wf_btype.simps(1)
        split: sum.splits if_splits
        dest!: parse_integer_range parse_list_loop_wf [OF Suc, rotated]
          parse_dict_loop_wf [OF Suc, rotated])
qed

subsection \<open>Parsing what the encoder prints\<close>

fun encode :: "btype \<Rightarrow> bytes" where
  "encode (BInteger i) = bencode_integer i"
| "encode (BString s) = bencode_string s"
| "encode (BList vs) = bencode_list (map encode vs)"
| "encode (BDict m) = bencode_dict (map (\<lambda>kv. (fst kv, encode (snd kv))) m)"

lemma scan_length_run:
  "\<forall>b\<in>set ds. is_digit b \<Longrightarrow>
   scan_length (pre @ ds @ 58 # post) (length pre) = Inr (length pre + length ds)"
proof (induction ds arbitrary: pre)
  case Nil
  then show ?case by (simp add: scan_length.simps)
next
  case (Cons x ds)
  from Cons.prems have "is_digit x" by simp
  then have "x \<noteq> 58" by (auto simp: is_digit_def)
  moreover have "scan_length ((pre @ [x]) @ ds @ 58 # post) (length (pre @ [x])) =
      Inr (length (pre @ [x]) + length ds)"
    using Cons.prems by (intro Cons.IH) simp
  ultimately show ?case using \<open>is_digit x\<close>
    by (subst scan_length.simps) simp
qed

lemma takeWhile_dec_all [simp]: "takeWhile is_digit (dec n) = dec n"
  by (simp add: takeWhile_eq_all_conv dec_digits)

lemma parse_byte_string_encode:
  assumes "length (pre @ bencode_string s @ post) < 2 ^ 64"
  shows "parse_byte_string (pre @ bencode_string s @ post) (length pre) =
     Inr (s, length pre + length (bencode_string s))"
proof -
  let ?n = "dec (length s)"
  let ?d = "pre @ bencode_string s @ post"
  have d: "?d = pre @ ?n @ 58 # s @ post" by (simp add: bencode_string_def)
  have "scan_length ?d (length pre) = Inr (length pre + length ?n)"
    unfolding d by (rule scan_length_run) (auto simp: dec_digits)
  moreover have "stoul ?n = Inr (length s)"
    using assms by (simp add: stoul_def bencode_string_def)
  ultimately show ?thesis
    using assms by (simp add: parse_byte_string_def d get_def nth_append u64_id bencode_string_def)
qed

lemma scan_integer_run:
  "\<forall>b\<in>set ds. is_digit b \<or> b = 45 \<Longrightarrow>
   scan_integer (pre @ ds @ 101 # post) (length pre) = Inr (length pre + length ds)"
proof (induction ds arbitrary: pre)
  case Nil
  then show ?case by (simp add: scan_integer.simps)
next
  case (Cons x ds)
  from Cons.prems have x: "is_digit x \<or> x = 45" by simp
  then have "x \<noteq> 101" by (auto simp: is_digit_def)
  moreover have "scan_integer ((pre @ [x]) @ ds @ 101 # post) (length (pre @ [x])) =
      Inr (length (pre @ [x]) + length ds)"
    using Cons.prems by (intro Cons.IH) simp
  ultimately show ?case using x
    by (subst scan_integer.simps) auto
qed

lemma stoll_dec_int: "- (2 ^ 63) \<le> i \<Longrightarrow> i < 2 ^ 63 \<Longrightarrow> stoll (dec_int i) = Inr i"
proof -
  assume i: "- (2 ^ 63) \<le> i" "i < 2 ^ 63"
  have "hd (dec n) \<noteq> 45" for n
    using hd_dec_digit [of n] by (auto simp: is_digit_def)
  then show ?thesis using i
    by (simp add: stoll_def dec_int_def Let_def) linarith
qed

lemma parse_integer_encode:
  assumes "wf_btype (BInteger i)"
  shows "parse_integer (pre @ bencode_integer i @ post) (length pre) =
     Inr (i, length pre + length (bencode_integer i))"
proof -
  let ?d = "pre @ bencode_integer i @ post"
  have d: "?d = (pre @ [105]) @ dec_int i @ 101 # post" by (simp add: bencode_integer_def)
  have "\<forall>b\<in>set (dec_int i). is_digit b \<or> b = 45"
    by (auto simp: dec_int_def dec_digits)
  then have "scan_integer ?d (Suc (length pre)) = Inr (Suc (length pre) + length (dec_int i))"
    unfolding d using scan_integer_run [of "dec_int i" "pre @ [105]" post] by simp
  moreover have "stoll (dec_int i) = Inr i" using assms by (simp add: stoll_dec_int)
  ultimately show ?thesis
    by (simp add: parse_integer_def d get_def nth_append bencode_integer_def)
qed

lemma hd_encode: "encode v \<noteq> [] \<and> hd (encode v) \<noteq> 101"
proof (cases v)
  case (BString s)
  have "is_digit (hd (dec (length s)))" by (rule hd_dec_digit)
  then show ?thesis using BString by (auto simp: bencode_string_def is_digit_def)
qed (auto simp: bencode_integer_def bencode_list_def bencode_dict_def)

definition parses :: "btype \<Rightarrow> bool" where
  "parses v = (\<forall>n pre post.
     length (pre @ encode v @ post) < 2 ^ 64 \<longrightarrow> length (encode v @ post) < n \<longrightarrow>
     parse_bencoding_type n (pre @ encode v @ post) (length pre) =
       Inr (v, length pre + length (encode v)))"

lemma parsesD:
  "parses v \<Longrightarrow> length (pre @ encode v @ post) < 2 ^ 64 \<Longrightarrow> length (encode v @ post) < n \<Longrightarrow>
   parse_bencoding_type n (pre @ encode v @ post) (length pre) =
     Inr (v, length pre + length (encode v))"
  by (simp add: parses_def)

lemma parse_list_loop_encode:
  assumes "\<forall>v\<in>set vs. parses v"
    and "length (pre @ concat (map encode vs) @ 101 # post) < 2 ^ 64"
    and "length (concat (map encode vs) @ 101 # post) < m"
    and "length (concat (map encode vs) @ 101 # post) < n"
    and "d = pre @ concat (map encode vs) @ 101 # post"
  shows "parse_list_loop n (parse_bencoding_type m d) d (length pre) content =
     Inr (BList (content @ vs), length pre + length (concat (map encode vs)) + 1)"
  using assms
proof (induction vs arbitrary: n pre content)
  case Nil
  then obtain n' where "n = Suc n'" by (cases n) auto
  with Nil show ?case by (simp add: peek_def get_def)
next
  case (Cons v vs)
  then obtain n' where n: "n = Suc n'" by (cases n) auto
  let ?rest = "concat (map encode vs) @ 101 # post"
  have d: "d = pre @ encode v @ ?rest" using Cons.prems(5) by simp
  have item: "parse_bencoding_type m d (length pre) = Inr (v, length (pre @ encode v))"
    using Cons.prems parsesD [of v pre ?rest m] by (simp add: d)
  have loop: "parse_list_loop n' (parse_bencoding_type m d) d (length (pre @ encode v)) (content @ [v]) =
      Inr (BList ((content @ [v]) @ vs), length (pre @ encode v) + length (concat (map encode vs)) + 1)"
    using Cons.prems n hd_encode [of v] by (intro Cons.IH) (auto simp: neq_Nil_conv)
  have "peek d (length pre) = Inr (hd (encode v))"
    using hd_encode [of v] by (auto simp: peek_def d nth_append hd_conv_nth)
  then show ?case using item loop hd_encode [of v] n by simp
qed

text \<open>One entry of a dictionary, as both dictionary loops read it.\<close>

lemma dict_entry_encode:
  assumes "parses v" "d = pre @ bencode_string k @ encode v @ rest" "length d < 2 ^ 64" "length (encode v @ rest) < m"
  shows "\<exists>c. peek d (length pre) = Inr c \<and> c \<noteq> 101"
    "parse_byte_string d (length pre) = Inr (k, length (pre @ bencode_string k))"
    "parse_bencoding_type m d (length (pre @ bencode_string k)) = Inr (v, length (pre @ bencode_string k @ encode v))"
proof -
  have "peek d (length pre) = Inr (hd (dec (length k)))"
    by (simp add: peek_def assms(2) nth_append hd_conv_nth bencode_string_def)
  moreover have "hd (dec (length k)) \<noteq> 101"
    using hd_dec_digit [of "length k"] by (auto simp: is_digit_def)
  ultimately show "\<exists>c. peek d (length pre) = Inr c \<and> c \<noteq> 101" by blast
  show "parse_byte_string d (length pre) = Inr (k, length (pre @ bencode_string k))"
    unfolding assms(2) using assms(2,3) by (subst parse_byte_string_encode) auto
  show "parse_bencoding_type m d (length (pre @ bencode_string k)) = Inr (v, length (pre @ bencode_string k @ encode v))"
    using parsesD [OF assms(1), of "pre @ bencode_string k" rest m] assms(2-4) by simp
qed

lemma parse_dict_loop_encode:
  fixes m :: nat
  defines "ents \<equiv> \<lambda>kvs. concat (map (\<lambda>kv. bencode_string (fst kv) @ encode (snd kv)) kvs)"
  assumes "\<forall>kv\<in>set kvs. parses (snd kv)"
    and "sorted_keys (content @ kvs)"
    and "length (pre @ ents kvs @ 101 # post) < 2 ^ 64"
    and "length (ents kvs @ 101 # post) < m"
    and "length (ents kvs @ 101 # post) < n"
    and "d = pre @ ents kvs @ 101 # post"
  shows "parse_dict_loop n (parse_bencoding_type m d) d (length pre) content =
     Inr (BDict (content @ kvs), length pre + length (ents kvs) + 1)"
  using assms(2-)
proof (induction kvs arbitrary: n pre content)
  case Nil
  then obtain n' where "n = Suc n'" by (cases n) auto
  with Nil show ?case by (simp add: peek_def get_def ents_def)
next
  case (Cons kv kvs)
  then obtain n' where n: "n = Suc n'" by (cases n) auto
  obtain k v where kv: "kv = (k, v)" by fastforce
  let ?rest = "ents kvs @ 101 # post"
  have d: "d = pre @ bencode_string k @ encode v @ ?rest"
    using Cons.prems(6) by (simp add: ents_def kv)
  note entry = dict_entry_encode [OF _ d, of m]
  have pv: "parses v" "length d < 2 ^ 64" "length (encode v @ ?rest) < m"
    using Cons.prems by (auto simp: ents_def kv)
  have "\<forall>k'\<in>fst ` set content. k' < k"
    using Cons.prems(2) by (auto simp: kv sorted_keys_def sorted_wrt_append)
  then have put: "map_put k v content = content @ [kv]" by (simp add: map_put_last kv)
  have loop: "parse_dict_loop n' (parse_bencoding_type m d) d
        (length (pre @ bencode_string k @ encode v)) (content @ [kv]) =
      Inr (BDict ((content @ [kv]) @ kvs),
        length (pre @ bencode_string k @ encode v) + length (ents kvs) + 1)"
    using Cons.prems n hd_encode [of v] by (intro Cons.IH) (auto simp: neq_Nil_conv ents_def kv)
  then show ?case using entry [OF pv] put n by (auto simp: ents_def kv)
qed

lemma parses_wf: "wf_btype v \<Longrightarrow> parses v"
proof (induction v)
  case (BInteger i)
  show ?case unfolding parses_def
  proof (intro allI impI)
    fix n pre post
    assume "length (encode (BInteger i) @ post) < n"
    then obtain n' where "n = Suc n'" by (cases n) auto
    moreover have "peek (pre @ bencode_integer i @ post) (length pre) = Inr 105"
      by (simp add: peek_def bencode_integer_def nth_append)
    ultimately show "parse_bencoding_type n (pre @ encode (BInteger i) @ post) (length pre) =
        Inr (BInteger i, length pre + length (encode (BInteger i)))"
      using BInteger parse_integer_encode by simp
  qed
next
  case (BString s)
  show ?case unfolding parses_def
  proof (intro allI impI)
    fix n pre post
    assume a: "length (pre @ encode (BString s) @ post) < 2 ^ 64"
      "length (encode (BString s) @ post) < n"
    then obtain n' where "n = Suc n'" by (cases n) auto
    moreover have "peek (pre @ bencode_string s @ post) (length pre) = Inr (hd (dec (length s)))"
      by (simp add: peek_def bencode_string_def nth_append hd_conv_nth)
    moreover have "is_digit (hd (dec (length s)))" by (rule hd_dec_digit)
    moreover from this have "hd (dec (length s)) \<notin> {105, 108, 100}" by (auto simp: is_digit_def)
    ultimately show "parse_bencoding_type n (pre @ encode (BString s) @ post) (length pre) =
        Inr (BString s, length pre + length (encode (BString s)))"
      using parse_byte_string_encode [of pre s post] a by simp
  qed
next
  case (BList vs)
  show ?case unfolding parses_def
  proof (intro allI impI)
    fix n pre post
    let ?d = "pre @ encode (BList vs) @ post"
    assume a: "length ?d < 2 ^ 64" "length (encode (BList vs) @ post) < n"
    then obtain n' where n: "n = Suc n'" by (cases n) auto
    have d: "?d = (pre @ [108]) @ concat (map encode vs) @ 101 # post"
      by (simp add: bencode_list_def)
    have "parse_list_loop n' (parse_bencoding_type n' ?d) ?d (length (pre @ [108])) [] =
        Inr (BList ([] @ vs), length (pre @ [108]) + length (concat (map encode vs)) + 1)"
      using BList a n by (intro parse_list_loop_encode [OF _ _ _ _ d]) (auto simp: bencode_list_def)
    moreover have "peek ?d (length pre) = Inr 108" "get ?d (length pre) = Inr (108, Suc (length pre))"
      by (simp_all add: peek_def get_def bencode_list_def nth_append)
    ultimately show "parse_bencoding_type n ?d (length pre) =
        Inr (BList vs, length pre + length (encode (BList vs)))"
      by (simp add: n parse_list_def bencode_list_def)
  qed
next
  case (BDict m)
  show ?case unfolding parses_def
  proof (intro allI impI)
    fix n pre post
    let ?d = "pre @ encode (BDict m) @ post"
    let ?e = "concat (map (\<lambda>kv. bencode_string (fst kv) @ encode (snd kv)) m)"
    assume a: "length ?d < 2 ^ 64" "length (encode (BDict m) @ post) < n"
    then obtain n' where n: "n = Suc n'" by (cases n) auto
    have e: "encode (BDict m) = 100 # ?e @ [101]" by (simp add: bencode_dict_def comp_def)
    have d: "?d = (pre @ [100]) @ ?e @ 101 # post" unfolding e by simp
    have ih: "\<forall>kv\<in>set m. parses (snd kv)" using BDict by (auto simp: snds.simps)
    have "parse_dict_loop n' (parse_bencoding_type n' ?d) ?d (length (pre @ [100])) [] =
        Inr (BDict ([] @ m), length (pre @ [100]) + length ?e + 1)"
      using ih BDict.prems a n unfolding e
      by (intro parse_dict_loop_encode) auto
    moreover have "peek ?d (length pre) = Inr 100" "get ?d (length pre) = Inr (100, Suc (length pre))"
      unfolding e by (simp_all add: peek_def get_def nth_append)
    ultimately show "parse_bencoding_type n ?d (length pre) =
        Inr (BDict m, length pre + length (encode (BDict m)))"
      unfolding e by (simp add: n parse_dictionary_def)
  qed
qed

lemma parse_encode:
  assumes "wf_btype v" "length (encode v @ post) < 2 ^ 64"
  shows "parse_value (encode v @ post) = Inr (v, length (encode v))"
  using parsesD [OF parses_wf [OF assms(1)], of "[]" post "length (encode v @ post) + 1"] assms(2)
  by (simp add: parse_value_def)

lemmas parse_eval = parse_value_def peek_def get_def parse_list_def parse_dictionary_def
  parse_byte_string_def parse_integer_def scan_integer.simps scan_length.simps is_digit_def
  stoul_def stoll_def Let_def digits_val_def digit_val_def u64_def nth_Cons'

subsection \<open>Properties of the parser\<close>

text \<open>C39: The recursive-descent parser terminates on every input: it returns a
  value or one of the errors the code throws, and never exhausts the fuel.\<close>

theorem parse_value_returns:
  "parse_value d \<noteq> Inl Out_of_fuel"
  unfolding parse_value_def by (rule parse_bencoding_type_fuel) simp_all

text \<open>A value the parser returns is well formed at every depth (integers fit
  int64, dictionary keys strictly increasing) and the position after it is
  inside the input and beyond its start.\<close>

theorem parse_value_sound:
  assumes "parse_value d = Inr (v, p)"
  shows "wf_btype v \<and> 0 < p \<and> p \<le> length d"
  using assms yields_wf_parse [of "length d + 1" d] advances_parse_bencoding_type [of d "length d + 1"]
  unfolding parse_value_def yields_wf_def advances_def by blast

theorem parse_value_sound_witness:
  "parse_value (str ''d1:bi7e1:a0:e'') = Inr (BDict [(str ''a'', BString []), (str ''b'', BInteger 7)], 13) \<and>
   wf_btype (BDict [(str ''a'', BString []), (str ''b'', BInteger 7)])"
proof -
  have p: "parse_value (str ''d1:bi7e1:a0:e'') =
      Inr (BDict [(str ''a'', BString []), (str ''b'', BInteger 7)], 13)"
    by (simp add: parse_eval)
  show ?thesis using p parse_value_sound [OF p] by blast
qed

text \<open>C37: Round trip: parsing the encoding of any well-formed value, followed by
  any bytes, returns exactly that value and stops right after its encoding.\<close>

theorem parse_value_encode:
  assumes "wf_btype v" "length (encode v @ post) < 2 ^ 64"
  shows "parse_value (encode v @ post) = Inr (v, length (encode v))"
  using assms by (rule parse_encode)

theorem parse_value_encode_witness:
  "parse_value (encode (BList [BInteger (- 5), BString (str ''ab'')]) @ str ''zz'') =
     Inr (BList [BInteger (- 5), BString (str ''ab'')],
       length (encode (BList [BInteger (- 5), BString (str ''ab'')])))"
  by (rule parse_value_encode)
    (simp_all add: bencode_list_def bencode_integer_def bencode_string_def dec_int_def dec.simps)

text \<open>
  Two behaviours of the parser that its error messages do not announce: the
  wrapped bounds check lets an over-long length through to the string
  constructor, and the integer parser ignores what follows the first number.
\<close>

lemma parse_value_wraps:
  "parse_value (str ''18446744073709551615:ab'') = Inl Length_error"
  by (simp add: parse_eval)

lemma parse_value_integer_garbage:
  "parse_value (str ''i5-3e'') = Inr (BInteger 5, 5)"
  by (simp add: parse_eval)

end
