(* ===== verification/Krpc.thy ===== *)
theory Krpc
  imports Bencode Routing_Table
begin

section \<open>KRPC messages\<close>

text \<open>
  The DHT wire protocol (\<^verbatim>\<open>krpc.h\<close>, \<^verbatim>\<open>krpc.cpp\<close>): the message builders
  on top of the bencode encoder, and \<^verbatim>\<open>parse_krpc\<close>. A dictionary literal
  of the source is a \<^verbatim>\<open>std::map\<close>, so it is built by \<open>dict_of\<close>, which
  inserts its pairs one by one. Every exception inside \<^verbatim>\<open>parse_krpc\<close> is
  caught and gives \<open>None\<close>. Random transaction identifiers are drawn by the
  callers from a parameter. Log formatting is left out.
\<close>

subsection \<open>Builders\<close>

definition dict_of :: "(bytes \<times> bytes) list \<Rightarrow> bytes" where
  "dict_of kvs = bencode_dict (fold (\<lambda>(k, v) m. map_put k v m) kvs [])"

definition make_ping :: "bytes \<Rightarrow> node_id \<Rightarrow> bytes" where
  "make_ping txn self_id =
     (let args = dict_of [(str ''id'', bencode_string (id_to_string self_id))] in
      dict_of [(str ''a'', args), (str ''q'', bencode_string (str ''ping'')),
               (str ''t'', bencode_string txn), (str ''y'', bencode_string (str ''q''))])"

definition make_find_node :: "bytes \<Rightarrow> node_id \<Rightarrow> node_id \<Rightarrow> bytes" where
  "make_find_node txn self_id target =
     (let args = dict_of [(str ''id'', bencode_string (id_to_string self_id)),
                          (str ''target'', bencode_string (id_to_string target))] in
      dict_of [(str ''a'', args), (str ''q'', bencode_string (str ''find_node'')),
               (str ''t'', bencode_string txn), (str ''y'', bencode_string (str ''q''))])"

definition make_get_peers :: "bytes \<Rightarrow> node_id \<Rightarrow> info_hash \<Rightarrow> bytes" where
  "make_get_peers txn self_id info_hash =
     (let args = dict_of [(str ''id'', bencode_string (id_to_string self_id)),
                          (str ''info_hash'', bencode_string (to_raw info_hash))] in
      dict_of [(str ''a'', args), (str ''q'', bencode_string (str ''get_peers'')),
               (str ''t'', bencode_string txn), (str ''y'', bencode_string (str ''q''))])"

definition make_announce_peer ::
    "bytes \<Rightarrow> node_id \<Rightarrow> info_hash \<Rightarrow> 16 word \<Rightarrow> bytes \<Rightarrow> bool \<Rightarrow> bytes" where
  "make_announce_peer txn self_id info_hash listen_port token implied_port =
     (let a_map = dict_of [(str ''id'', bencode_string (id_to_string self_id)),
                           (str ''implied_port'', bencode_integer (if implied_port then 1 else 0)),
                           (str ''info_hash'', bencode_string (to_raw info_hash)),
                           (str ''port'', bencode_integer (uint listen_port)),
                           (str ''token'', bencode_string token)] in
      dict_of [(str ''a'', a_map), (str ''q'', bencode_string (str ''announce_peer'')),
               (str ''t'', bencode_string txn), (str ''y'', bencode_string (str ''q''))])"

definition response_of :: "bytes \<Rightarrow> bytes \<Rightarrow> bytes" where
  "response_of txn r =
     dict_of [(str ''r'', r), (str ''t'', bencode_string txn), (str ''y'', bencode_string (str ''r''))]"

definition make_response :: "bytes \<Rightarrow> node_id \<Rightarrow> bytes" where
  "make_response txn self_id =
     response_of txn (dict_of [(str ''id'', bencode_string (id_to_string self_id))])"

definition nodes_to_compact :: "routing_entry list \<Rightarrow> bytes" where
  "nodes_to_compact nodes = concat (map compact nodes)"

definition make_nodes_response :: "bytes \<Rightarrow> node_id \<Rightarrow> routing_entry list \<Rightarrow> bytes" where
  "make_nodes_response txn self_id nodes =
     response_of txn (dict_of [(str ''id'', bencode_string (id_to_string self_id)),
                               (str ''nodes'', bencode_string (nodes_to_compact nodes))])"

definition make_peers_response :: "bytes \<Rightarrow> node_id \<Rightarrow> bytes \<Rightarrow> peer_address list \<Rightarrow> bytes" where
  "make_peers_response txn self_id token pas =
     (let encoded = map (\<lambda>p. bencode_string (peer_to_compact (ip p) (port p))) pas in
      response_of txn (dict_of [(str ''id'', bencode_string (id_to_string self_id)),
                                (str ''token'', bencode_string token),
                                (str ''values'', bencode_list encoded)]))"

definition make_nodes_response_gp :: "bytes \<Rightarrow> node_id \<Rightarrow> bytes \<Rightarrow> routing_entry list \<Rightarrow> bytes" where
  "make_nodes_response_gp txn self_id token nodes =
     response_of txn (dict_of [(str ''id'', bencode_string (id_to_string self_id)),
                               (str ''nodes'', bencode_string (nodes_to_compact nodes)),
                               (str ''token'', bencode_string token)])"

definition make_error :: "bytes \<Rightarrow> int \<Rightarrow> bytes \<Rightarrow> bytes" where
  "make_error txn code msg =
     dict_of [(str ''e'', bencode_list [bencode_integer code, bencode_string msg]),
              (str ''t'', bencode_string txn), (str ''y'', bencode_string (str ''e''))]"

subsection \<open>Messages\<close>

datatype krpc_type = Query | Response | Error
datatype krpc_query = Ping | FindNode | GetPeers | AnnouncePeer

record krpc_message =
  km_type :: krpc_type
  km_txn :: bytes
  km_query :: "krpc_query option"
  km_sender :: node_id
  km_target :: node_id
  km_info_hash :: "info_hash option"
  km_peer_port :: "16 word"
  km_token :: bytes
  km_implied_port :: bool
  km_nodes :: "routing_entry list"
  km_node_counts :: "nat list"
  km_values :: "bytes list"
  km_error_code :: int
  km_error_msg :: bytes

definition empty_message :: krpc_message where
  "empty_message =
     \<lparr>km_type = Response, km_txn = [], km_query = None, km_sender = zero_id, km_target = zero_id,
      km_info_hash = None, km_peer_port = 0, km_token = [], km_implied_port = False,
      km_nodes = [], km_node_counts = [], km_values = [], km_error_code = 0, km_error_msg = []\<rparr>"

subsection \<open>Field access\<close>

definition bstring :: "(bytes \<times> btype) list \<Rightarrow> bytes \<Rightarrow> bytes" where
  "bstring d key = (case map_of d key of Some (BString s) \<Rightarrow> s | _ \<Rightarrow> [])"

definition binteger :: "(bytes \<times> btype) list \<Rightarrow> bytes \<Rightarrow> int \<Rightarrow> int" where
  "binteger d key def = (case map_of d key of Some (BInteger i) \<Rightarrow> i | _ \<Rightarrow> def)"

definition bdict :: "(bytes \<times> btype) list \<Rightarrow> bytes \<Rightarrow> (bytes \<times> btype) list option" where
  "bdict d key = (case map_of d key of Some (BDict m) \<Rightarrow> Some m | _ \<Rightarrow> None)"

definition blist :: "(bytes \<times> btype) list \<Rightarrow> bytes \<Rightarrow> btype list option" where
  "blist d key = (case map_of d key of Some (BList vs) \<Rightarrow> Some vs | _ \<Rightarrow> None)"

subsection \<open>Parser\<close>

text \<open>The loop of \<^verbatim>\<open>parse_nodes\<close> with its index of the 26-byte records seen.\<close>

function parse_nodes_from ::
    "time \<Rightarrow> bytes \<Rightarrow> nat \<Rightarrow> routing_entry list \<Rightarrow> nat list \<Rightarrow> (bytes \<times> nat) list
     \<Rightarrow> routing_entry list \<times> nat list" where
  "parse_nodes_from now c i nodes counts index =
     (if i + 26 \<le> length c then
        (let key = take 26 (drop i c) in
         case map_of index key of
           Some k \<Rightarrow> parse_nodes_from now c (i + 26) nodes (counts[k := counts ! k + 1]) index
         | None \<Rightarrow> parse_nodes_from now c (i + 26) (nodes @ [from_compact now c i]) (counts @ [1])
                     ((key, length nodes) # index))
      else (nodes, counts))"
  by pat_completeness auto
termination
  by (relation "measure (\<lambda>(now, c, i, _). length c - i)") auto

declare parse_nodes_from.simps [simp del]

definition parse_nodes :: "time \<Rightarrow> bytes \<Rightarrow> routing_entry list \<times> nat list" where
  "parse_nodes now c = parse_nodes_from now c 0 [] [] []"

definition parse_peers :: "btype list option \<Rightarrow> bytes list" where
  "parse_peers lst =
     (case lst of
        None \<Rightarrow> []
      | Some vs \<Rightarrow> concat (map (\<lambda>v. case v of BString s \<Rightarrow> if length s = 6 then [s] else [] | _ \<Rightarrow> []) vs))"

definition to_int32 :: "int \<Rightarrow> int" where
  "to_int32 v = (v + 2 ^ 31) mod 2 ^ 32 - 2 ^ 31"

definition parse_query :: "krpc_message \<Rightarrow> (bytes \<times> btype) list \<Rightarrow> krpc_message option" where
  "parse_query msg0 root =
     (let msg = msg0\<lparr>km_type := Query\<rparr>; q = bstring root (str ''q'') in
      case bdict root (str ''a'') of
        None \<Rightarrow> None
      | Some a \<Rightarrow>
          let msg = msg\<lparr>km_sender := id_from_string (bstring a (str ''id''))\<rparr> in
          if q = str ''ping'' then Some (msg\<lparr>km_query := Some Ping\<rparr>)
          else if q = str ''find_node'' then
            Some (msg\<lparr>km_query := Some FindNode, km_target := id_from_string (bstring a (str ''target''))\<rparr>)
          else if q = str ''get_peers'' then
            (case try_from_raw (bstring a (str ''info_hash'')) of
               None \<Rightarrow> None
             | Some ih \<Rightarrow> Some (msg\<lparr>km_query := Some GetPeers, km_info_hash := Some ih\<rparr>))
          else if q = str ''announce_peer'' then
            (case try_from_raw (bstring a (str ''info_hash'')) of
               None \<Rightarrow> None
             | Some ih \<Rightarrow>
                 Some (msg\<lparr>km_query := Some AnnouncePeer, km_info_hash := Some ih,
                   km_token := bstring a (str ''token''),
                   km_peer_port := word_of_int (binteger a (str ''port'') 0),
                   km_implied_port := (binteger a (str ''implied_port'') 0 \<noteq> 0)\<rparr>))
          else None)"

definition parse_response :: "time \<Rightarrow> krpc_message \<Rightarrow> (bytes \<times> btype) list \<Rightarrow> krpc_message option" where
  "parse_response now msg0 root =
     (let msg = msg0\<lparr>km_type := Response\<rparr> in
      case bdict root (str ''r'') of
        None \<Rightarrow> None
      | Some r \<Rightarrow>
          let msg = msg\<lparr>km_sender := id_from_string (bstring r (str ''id''))\<rparr>;
              nodes_raw = bstring r (str ''nodes'');
              msg = (if nodes_raw \<noteq> [] then
                       (let (ns, cs) = parse_nodes now nodes_raw
                        in msg\<lparr>km_nodes := ns, km_node_counts := cs\<rparr>)
                     else msg)
          in Some (msg\<lparr>km_token := bstring r (str ''token''), km_values := parse_peers (blist r (str ''values''))\<rparr>))"

definition parse_error_msg :: "krpc_message \<Rightarrow> (bytes \<times> btype) list \<Rightarrow> krpc_message option" where
  "parse_error_msg msg0 root =
     (let msg = msg0\<lparr>km_type := Error\<rparr> in
      case blist root (str ''e'') of
        Some (code # text # _) \<Rightarrow>
          let msg = (case code of BInteger v \<Rightarrow> msg\<lparr>km_error_code := to_int32 v\<rparr> | _ \<Rightarrow> msg);
              msg = (case text of BString s \<Rightarrow> msg\<lparr>km_error_msg := s\<rparr> | _ \<Rightarrow> msg)
          in Some msg
      | _ \<Rightarrow> Some msg)"

definition parse_krpc :: "time \<Rightarrow> bytes \<Rightarrow> krpc_message option" where
  "parse_krpc now d =
     (case parse_value d of
        Inr (BDict root, _) \<Rightarrow>
          (let msg = empty_message\<lparr>km_txn := bstring root (str ''t'')\<rparr>;
               y = bstring root (str ''y'')
           in if y = str ''q'' then parse_query msg root
              else if y = str ''r'' then parse_response now msg root
              else if y = str ''e'' then parse_error_msg msg root
              else None)
      | _ \<Rightarrow> None)"

subsection \<open>Builders produce encodings of dictionaries\<close>

lemmas field_defs = bstring_def binteger_def bdict_def blist_def

lemma parse_krpc_encode:
  assumes "wf_btype (BDict root)" "length (encode (BDict root)) < 2 ^ 64"
  shows "parse_krpc now (encode (BDict root)) =
     (let msg = empty_message\<lparr>km_txn := bstring root (str ''t'')\<rparr>;
          y = bstring root (str ''y'')
      in if y = str ''q'' then parse_query msg root
         else if y = str ''r'' then parse_response now msg root
         else if y = str ''e'' then parse_error_msg msg root
         else None)"
proof -
  have "parse_value (encode (BDict root) @ []) = Inr (BDict root, length (encode (BDict root)))"
    using assms by (intro parse_encode) simp_all
  then show ?thesis by (simp add: parse_krpc_def del: encode.simps)
qed

definition query_dict :: "bytes \<Rightarrow> string \<Rightarrow> (bytes \<times> btype) list \<Rightarrow> (bytes \<times> btype) list" where
  "query_dict txn q a =
     [(str ''a'', BDict a), (str ''q'', BString (str q)), (str ''t'', BString txn),
      (str ''y'', BString (str ''q''))]"

definition response_dict :: "bytes \<Rightarrow> (bytes \<times> btype) list \<Rightarrow> (bytes \<times> btype) list" where
  "response_dict txn r =
     [(str ''r'', BDict r), (str ''t'', BString txn), (str ''y'', BString (str ''r''))]"

lemma wf_query_dict [simp]: "wf_btype (BDict (query_dict txn q a)) \<longleftrightarrow> wf_btype (BDict a)"
  by (simp add: query_dict_def)

lemma wf_response_dict [simp]: "wf_btype (BDict (response_dict txn r)) \<longleftrightarrow> wf_btype (BDict r)"
  by (simp add: response_dict_def)

lemma make_ping_encode:
  "make_ping txn self_id = encode (BDict (query_dict txn ''ping'' [(str ''id'', BString self_id)]))"
  by (simp add: make_ping_def dict_of_def query_dict_def id_to_string_def)

lemma make_find_node_encode:
  "make_find_node txn self_id target = encode (BDict (query_dict txn ''find_node''
     [(str ''id'', BString self_id), (str ''target'', BString target)]))"
  by (simp add: make_find_node_def dict_of_def query_dict_def id_to_string_def)

lemma make_get_peers_encode:
  "make_get_peers txn self_id h = encode (BDict (query_dict txn ''get_peers''
     [(str ''id'', BString self_id), (str ''info_hash'', BString (to_raw h))]))"
  by (simp add: make_get_peers_def dict_of_def query_dict_def id_to_string_def)

lemma make_announce_peer_encode:
  "make_announce_peer txn self_id h p token implied = encode (BDict (query_dict txn ''announce_peer''
     [(str ''id'', BString self_id), (str ''implied_port'', BInteger (if implied then 1 else 0)),
      (str ''info_hash'', BString (to_raw h)), (str ''port'', BInteger (uint p)), (str ''token'', BString token)]))"
  by (simp add: make_announce_peer_def dict_of_def query_dict_def id_to_string_def)

lemma make_response_encode:
  "make_response txn self_id = encode (BDict (response_dict txn [(str ''id'', BString self_id)]))"
  by (simp add: make_response_def response_of_def dict_of_def response_dict_def id_to_string_def)

lemma make_nodes_response_encode:
  "make_nodes_response txn self_id nodes = encode (BDict (response_dict txn
     [(str ''id'', BString self_id), (str ''nodes'', BString (nodes_to_compact nodes))]))"
  by (simp add: make_nodes_response_def response_of_def dict_of_def response_dict_def id_to_string_def)

lemma make_peers_response_encode:
  "make_peers_response txn self_id token pas = encode (BDict (response_dict txn
     [(str ''id'', BString self_id), (str ''token'', BString token),
      (str ''values'', BList (map (\<lambda>p. BString (peer_to_compact (ip p) (port p))) pas))]))"
  by (simp add: make_peers_response_def response_of_def dict_of_def response_dict_def id_to_string_def comp_def)

lemma make_nodes_response_gp_encode:
  "make_nodes_response_gp txn self_id token nodes = encode (BDict (response_dict txn
     [(str ''id'', BString self_id), (str ''nodes'', BString (nodes_to_compact nodes)),
      (str ''token'', BString token)]))"
  by (simp add: make_nodes_response_gp_def response_of_def dict_of_def response_dict_def id_to_string_def)

lemma make_error_encode:
  "make_error txn code msg = encode (BDict
     [(str ''e'', BList [BInteger code, BString msg]), (str ''t'', BString txn), (str ''y'', BString (str ''e''))])"
  by (simp add: make_error_def dict_of_def)

subsection \<open>Round trips\<close>

lemma to_raw_valid [simp]: "valid_hash h \<Longrightarrow> to_raw h = h" "valid_hash h \<Longrightarrow> try_from_raw h = Some h"
  by (simp_all add: to_raw_def valid_hash_def try_from_raw_def)

lemma id_from_string_valid [simp]: "valid_id i \<Longrightarrow> id_from_string i = i"
  by (simp add: id_from_string_def valid_id_def)

lemma query_dict_fields [simp]:
  "bstring (query_dict txn q a) (str ''t'') = txn" "bstring (query_dict txn q a) (str ''y'') = str ''q''"
  "bstring (query_dict txn q a) (str ''q'') = str q" "bdict (query_dict txn q a) (str ''a'') = Some a"
  by (simp_all add: query_dict_def field_defs)

lemma response_dict_fields [simp]:
  "bstring (response_dict txn r) (str ''t'') = txn" "bstring (response_dict txn r) (str ''y'') = str ''r''"
  "bdict (response_dict txn r) (str ''r'') = Some r"
  by (simp_all add: response_dict_def field_defs)

lemma parse_krpc_query:
  assumes "wf_btype (BDict a)" "length (encode (BDict (query_dict txn q a))) < 2 ^ 64"
  shows "parse_krpc now (encode (BDict (query_dict txn q a))) =
     parse_query (empty_message\<lparr>km_txn := txn\<rparr>) (query_dict txn q a)"
  using parse_krpc_encode [of "query_dict txn q a" now] assms
  by (simp del: encode.simps str_Cons wf_btype.simps(4))

lemma parse_krpc_response:
  assumes "wf_btype (BDict r)" "length (encode (BDict (response_dict txn r))) < 2 ^ 64"
  shows "parse_krpc now (encode (BDict (response_dict txn r))) =
     parse_response now (empty_message\<lparr>km_txn := txn\<rparr>) (response_dict txn r)"
proof -
  have "str ''r'' \<noteq> str ''q''" by simp
  then show ?thesis
    using parse_krpc_encode [of "response_dict txn r" now] assms
    by (simp del: encode.simps str_Cons wf_btype.simps(4))
qed

text \<open>Parsing the compact node list of a table excerpt.\<close>

lemma parse_nodes_from_concat:
  assumes "\<forall>e\<in>set es. valid_id (re_id e) \<and> canonical_ip (ip (re_pa e))"
    and "distinct (map re_id es)" "\<forall>e\<in>set es. \<forall>k\<in>fst ` set index. take 20 k \<noteq> re_id e"
  shows "parse_nodes_from now (pre @ nodes_to_compact es) (length pre) nodes counts index =
     (nodes @ map (\<lambda>e. e\<lparr>re_last_seen := now\<rparr>) es, counts @ replicate (length es) 1)"
  using assms
proof (induction es arbitrary: pre nodes counts index)
  case Nil
  then show ?case by (subst parse_nodes_from.simps) (simp add: nodes_to_compact_def)
next
  case (Cons e es)
  let ?d = "pre @ nodes_to_compact (e # es)" and ?rest = "nodes_to_compact es"
  have e: "valid_id (re_id e)" "canonical_ip (ip (re_pa e))" "length (compact e) = 26"
    using Cons.prems(1) by (auto simp: length_compact)
  have d: "?d = pre @ compact e @ ?rest" by (simp add: nodes_to_compact_def)
  have key: "take 26 (drop (length pre) ?d) = compact e" by (simp add: d e(3))
  have take20: "take 20 (compact x) = re_id x" if "valid_id (re_id x)" for x
    using that by (simp add: compact_def valid_id_def)
  have "compact e \<notin> fst ` set index" using Cons.prems(3) take20 [OF e(1)] by force
  then have none: "map_of index (compact e) = None" by (simp add: map_of_eq_None_iff)
  have fc: "from_compact now ?d (length pre) = e\<lparr>re_last_seen := now\<rparr>"
    unfolding d using e by (intro compact_round_trip)
  have "parse_nodes_from now ((pre @ compact e) @ ?rest) (length (pre @ compact e))
      (nodes @ [e\<lparr>re_last_seen := now\<rparr>]) (counts @ [1]) ((compact e, length nodes) # index) =
    ((nodes @ [e\<lparr>re_last_seen := now\<rparr>]) @ map (\<lambda>e. e\<lparr>re_last_seen := now\<rparr>) es,
     (counts @ [1]) @ replicate (length es) 1)"
    using Cons.prems take20 [OF e(1)] by (intro Cons.IH) auto
  moreover have "length pre + 26 \<le> length ?d" by (simp add: d e(3))
  then have "parse_nodes_from now ?d (length pre) nodes counts index =
      parse_nodes_from now ?d (length pre + 26) (nodes @ [e\<lparr>re_last_seen := now\<rparr>]) (counts @ [1])
        ((compact e, length nodes) # index)"
    by (subst parse_nodes_from.simps) (simp only: Let_def key none fc if_True option.case)
  ultimately show ?case by (simp add: d e(3))
qed

lemma parse_nodes_round_trip:
  assumes "\<forall>e\<in>set es. valid_id (re_id e) \<and> canonical_ip (ip (re_pa e))" "distinct (map re_id es)"
  shows "parse_nodes now (nodes_to_compact es) =
     (map (\<lambda>e. e\<lparr>re_last_seen := now\<rparr>) es, replicate (length es) 1)"
  using parse_nodes_from_concat [OF assms, of "[]" now "[]" "[]" "[]"] by (simp add: parse_nodes_def)

lemma parse_peers_round_trip:
  "parse_peers (Some (map (\<lambda>p. BString (peer_to_compact (ip p) (port p))) pas)) =
     map (\<lambda>p. peer_to_compact (ip p) (port p)) pas"
  by (induction pas) (simp_all add: parse_peers_def)

subsection \<open>What a parsed message guarantees\<close>

definition message_ok :: "krpc_message \<Rightarrow> bool" where
  "message_ok m \<longleftrightarrow>
     valid_id (km_sender m) \<and> valid_id (km_target m) \<and>
     (\<forall>h. km_info_hash m = Some h \<longrightarrow> valid_hash h) \<and>
     (\<forall>e\<in>set (km_nodes m). valid_id (re_id e)) \<and>
     (\<forall>v\<in>set (km_values m). length v = 6) \<and>
     (km_type m = Query \<longrightarrow> (\<exists>q. km_query m = Some q \<and>
        (q \<in> {GetPeers, AnnouncePeer} \<longrightarrow> km_info_hash m \<noteq> None)))"

lemma valid_zero_id [simp]: "valid_id zero_id"
  by (simp add: valid_id_def zero_id_def)

lemma valid_id_from_string [simp]: "valid_id (id_from_string s)"
  by (simp add: id_from_string_def) (simp add: valid_id_def)

lemma valid_id_from_compact [simp]: "valid_id (re_id (from_compact now c i))"
  by (simp add: from_compact_def empty_entry_def)

lemma valid_try_from_raw: "try_from_raw s = Some h \<Longrightarrow> valid_hash h"
  by (auto simp: try_from_raw_def valid_hash_def split: if_splits)

lemma parse_nodes_from_valid:
  "\<forall>e\<in>set nodes. valid_id (re_id e) \<Longrightarrow>
   \<forall>e\<in>set (fst (parse_nodes_from now c i nodes counts index)). valid_id (re_id e)"
proof (induction now c i nodes counts index rule: parse_nodes_from.induct)
  case (1 now c i nodes counts index)
  show ?case
  proof (cases "i + 26 \<le> length c")
    case True
    then show ?thesis using 1
      by (subst parse_nodes_from.simps) (auto simp: Let_def split: option.split)
  next
    case False
    then show ?thesis using "1.prems" by (subst parse_nodes_from.simps) simp
  qed
qed

lemma parse_peers_length: "v \<in> set (parse_peers l) \<Longrightarrow> length v = 6"
  by (auto simp: parse_peers_def split: option.splits btype.splits if_splits)

lemma parse_query_ok: "parse_query (empty_message\<lparr>km_txn := t\<rparr>) root = Some m \<Longrightarrow> message_ok m"
  unfolding parse_query_def Let_def
  by (auto simp: message_ok_def empty_message_def valid_try_from_raw
      split: option.splits if_splits)

lemma parse_response_ok:
  assumes "parse_response now (empty_message\<lparr>km_txn := t\<rparr>) root = Some m"
  shows "message_ok m"
proof -
  have "\<forall>e\<in>set (fst (parse_nodes now c)). valid_id (re_id e)" for c
    unfolding parse_nodes_def by (rule parse_nodes_from_valid) simp
  then show ?thesis using assms
    by (auto simp: parse_response_def message_ok_def empty_message_def Let_def split_beta
        split: option.splits if_splits dest: parse_peers_length)
qed

lemma parse_error_ok: "parse_error_msg (empty_message\<lparr>km_txn := t\<rparr>) root = Some m \<Longrightarrow> message_ok m"
  by (auto simp: parse_error_msg_def message_ok_def empty_message_def Let_def
      split: option.splits list.splits btype.splits)

lemma parse_krpc_message_ok: "parse_krpc now d = Some m \<Longrightarrow> message_ok m"
  by (auto simp: parse_krpc_def Let_def parse_query_ok parse_response_ok parse_error_ok
      split: sum.splits prod.splits btype.splits if_splits)

subsection \<open>Properties\<close>

text \<open>Every query the client builds is parsed back by a receiver of this code to
  the same query: transaction identifier, sender, target, info hash, port,
  token and implied-port flag.\<close>

theorem krpc_query_round_trip:
  assumes "valid_id self_id" "valid_id target" "valid_hash h"
    and "length (make_ping txn self_id) < 2 ^ 64" "length (make_find_node txn self_id target) < 2 ^ 64"
    and "length (make_get_peers txn self_id h) < 2 ^ 64"
    and "length (make_announce_peer txn self_id h p token implied) < 2 ^ 64"
  shows "parse_krpc now (make_ping txn self_id) =
      Some (empty_message\<lparr>km_type := Query, km_txn := txn, km_query := Some Ping, km_sender := self_id\<rparr>) \<and>
    parse_krpc now (make_find_node txn self_id target) =
      Some (empty_message\<lparr>km_type := Query, km_txn := txn, km_query := Some FindNode, km_sender := self_id,
        km_target := target\<rparr>) \<and>
    parse_krpc now (make_get_peers txn self_id h) =
      Some (empty_message\<lparr>km_type := Query, km_txn := txn, km_query := Some GetPeers, km_sender := self_id,
        km_info_hash := Some h\<rparr>) \<and>
    parse_krpc now (make_announce_peer txn self_id h p token implied) =
      Some (empty_message\<lparr>km_type := Query, km_txn := txn, km_query := Some AnnouncePeer, km_sender := self_id,
        km_info_hash := Some h, km_peer_port := p, km_token := token, km_implied_port := implied\<rparr>)"
proof (intro conjI)
  have pr: "- 9223372036854775808 \<le> uint p" "uint p < 9223372036854775808"
    using uint_bounded [of p] uint_lt_0 [of p] by (simp_all add: order_trans [OF _ uint_nonnegative])
  show "parse_krpc now (make_ping txn self_id) =
      Some (empty_message\<lparr>km_type := Query, km_txn := txn, km_query := Some Ping, km_sender := self_id\<rparr>)"
    using assms unfolding make_ping_encode
    by (subst parse_krpc_query) (simp_all add: parse_query_def query_dict_def field_defs empty_message_def)
  show "parse_krpc now (make_find_node txn self_id target) =
      Some (empty_message\<lparr>km_type := Query, km_txn := txn, km_query := Some FindNode, km_sender := self_id,
        km_target := target\<rparr>)"
    using assms unfolding make_find_node_encode
    by (subst parse_krpc_query) (simp_all add: parse_query_def query_dict_def field_defs empty_message_def)
  show "parse_krpc now (make_get_peers txn self_id h) =
      Some (empty_message\<lparr>km_type := Query, km_txn := txn, km_query := Some GetPeers, km_sender := self_id,
        km_info_hash := Some h\<rparr>)"
    using assms unfolding make_get_peers_encode
    by (subst parse_krpc_query) (simp_all add: parse_query_def query_dict_def field_defs empty_message_def)
  show "parse_krpc now (make_announce_peer txn self_id h p token implied) =
      Some (empty_message\<lparr>km_type := Query, km_txn := txn, km_query := Some AnnouncePeer, km_sender := self_id,
        km_info_hash := Some h, km_peer_port := p, km_token := token, km_implied_port := implied\<rparr>)"
    using assms pr unfolding make_announce_peer_encode
    by (subst parse_krpc_query) (simp_all add: parse_query_def query_dict_def field_defs empty_message_def)
qed

theorem krpc_query_round_trip_witness:
  "parse_krpc 0 (make_get_peers (str ''aa'') (replicate 20 1) (replicate 20 2)) =
     Some (empty_message\<lparr>km_type := Query, km_txn := str ''aa'', km_query := Some GetPeers,
       km_sender := replicate 20 1, km_info_hash := Some (replicate 20 2)\<rparr>)"
proof -
  let ?i = "replicate 20 (1 :: byte)" and ?h = "replicate 20 (2 :: byte)" and ?t = "str ''aa''"
  have "valid_id ?i" "valid_hash ?h" by (simp_all add: valid_id_def valid_hash_def)
  moreover have "length (make_ping ?t ?i) < 2 ^ 64" "length (make_find_node ?t ?i ?i) < 2 ^ 64"
    "length (make_get_peers ?t ?i ?h) < 2 ^ 64" "length (make_announce_peer ?t ?i ?h 1 [] True) < 2 ^ 64"
    by (simp_all add: make_ping_encode make_find_node_encode make_get_peers_encode
        make_announce_peer_encode query_dict_def bencode_dict_def bencode_string_def
        bencode_integer_def dec_int_def dec.simps to_raw_def)
  ultimately show ?thesis using krpc_query_round_trip [of ?i ?i ?h ?t 1 "[]" True 0] by blast
qed

text \<open>Every response the client builds is parsed back to the same content: the
  sender, the token, the compact peers, and the nodes with distinct identifiers
  (each stamped with the time of receipt); errors keep their code and text.\<close>

theorem krpc_response_round_trip:
  assumes "valid_id self_id"
    and "\<forall>e\<in>set nodes. valid_id (re_id e) \<and> canonical_ip (ip (re_pa e))" "distinct (map re_id nodes)"
    and "- (2 ^ 31) \<le> code" "code < 2 ^ 31"
    and "length (make_peers_response txn self_id token pas) < 2 ^ 64"
    and "length (make_nodes_response_gp txn self_id token nodes) < 2 ^ 64"
    and "length (make_error txn code text) < 2 ^ 64"
  shows "parse_krpc now (make_peers_response txn self_id token pas) =
      Some (empty_message\<lparr>km_txn := txn, km_sender := self_id, km_token := token,
        km_values := map (\<lambda>p. peer_to_compact (ip p) (port p)) pas\<rparr>) \<and>
    parse_krpc now (make_nodes_response_gp txn self_id token nodes) =
      Some (empty_message\<lparr>km_txn := txn, km_sender := self_id, km_token := token,
        km_nodes := map (\<lambda>e. e\<lparr>re_last_seen := now\<rparr>) nodes,
        km_node_counts := replicate (length nodes) 1\<rparr>) \<and>
    parse_krpc now (make_error txn code text) =
      Some (empty_message\<lparr>km_type := Error, km_txn := txn, km_error_code := code, km_error_msg := text\<rparr>)"
proof (intro conjI)
  show "parse_krpc now (make_peers_response txn self_id token pas) =
      Some (empty_message\<lparr>km_txn := txn, km_sender := self_id, km_token := token,
        km_values := map (\<lambda>p. peer_to_compact (ip p) (port p)) pas\<rparr>)"
    using assms(1,6) unfolding make_peers_response_encode
    by (subst parse_krpc_response)
      (simp_all add: parse_response_def response_dict_def field_defs empty_message_def
        parse_peers_round_trip)
  have "parse_nodes now [] = ([], [])"
    unfolding parse_nodes_def by (subst parse_nodes_from.simps) simp
  moreover have "nodes_to_compact nodes = [] \<longleftrightarrow> nodes = []"
    using assms(2) by (cases nodes) (auto simp: nodes_to_compact_def compact_def valid_id_def)
  ultimately show "parse_krpc now (make_nodes_response_gp txn self_id token nodes) =
      Some (empty_message\<lparr>km_txn := txn, km_sender := self_id, km_token := token,
        km_nodes := map (\<lambda>e. e\<lparr>re_last_seen := now\<rparr>) nodes,
        km_node_counts := replicate (length nodes) 1\<rparr>)"
    using assms(1,7) parse_nodes_round_trip [OF assms(2,3), of now] unfolding make_nodes_response_gp_encode
    by (subst parse_krpc_response)
      (simp_all add: parse_response_def response_dict_def field_defs empty_message_def parse_peers_def Let_def)
  have "to_int32 code = code" using assms(4,5) by (simp add: to_int32_def)
  then show "parse_krpc now (make_error txn code text) =
      Some (empty_message\<lparr>km_type := Error, km_txn := txn, km_error_code := code, km_error_msg := text\<rparr>)"
    using assms(4,5,8) unfolding make_error_encode
    by (subst parse_krpc_encode) (simp_all add: parse_error_msg_def field_defs empty_message_def)
qed

theorem krpc_response_round_trip_witness:
  "parse_krpc 3 (make_error (str ''aa'') 203 (str ''Bad'')) =
     Some (empty_message\<lparr>km_type := Error, km_txn := str ''aa'', km_error_code := 203, km_error_msg := str ''Bad''\<rparr>)"
proof -
  let ?i = "replicate 20 (1 :: byte)" and ?t = "str ''aa''"
  have "valid_id ?i" by (simp add: valid_id_def)
  moreover have "length (make_peers_response ?t ?i [] []) < 2 ^ 64"
    "length (make_nodes_response_gp ?t ?i [] []) < 2 ^ 64" "length (make_error ?t 203 (str ''Bad'')) < 2 ^ 64"
    by (simp_all add: make_peers_response_encode make_nodes_response_gp_encode make_error_encode
        response_dict_def bencode_dict_def bencode_list_def bencode_string_def
        bencode_integer_def dec_int_def dec.simps nodes_to_compact_def)
  ultimately show ?thesis using krpc_response_round_trip [of ?i "[]" 203 ?t "[]" "[]" "str ''Bad''" 3] by simp
qed



end
