(* ===== verification/Lookup_Manager.thy ===== *)
theory Lookup_Manager
  imports Kademlia_Lookup Krpc
begin

section \<open>get_peers lookup manager\<close>

text \<open>
  \<^verbatim>\<open>GetPeersLookupManager\<close> (\<^verbatim>\<open>get_peers_lookup_manager.h/.cpp\<close>): one
  lookup per info hash and the routing of transaction identifiers to lookups.
  Both hash maps are association lists with distinct keys, whose order stands
  for the iteration order. The routing table is read through the interface of
  theory \<open>Routing_Table\<close>; the \<open>n\<close>-th call of \<^verbatim>\<open>random_txn\<close> yields
  \<open>rnd n\<close>, and \<open>lm_draws\<close> counts the calls. The mutex makes each public
  method atomic; logging is left out.
\<close>

subsection \<open>State and results\<close>

type_synonym outbound_krpc = "bytes \<times> peer_address"

record lookup_manager =
  lm_self :: node_id
  lm_pending :: "(bytes \<times> info_hash \<times> time) list"
  lm_lookups :: "(info_hash \<times> kademlia_lookup) list"
  lm_draws :: nat

record start_result =
  sr_outbound :: "outbound_krpc list"
  sr_started_new :: bool
  sr_skipped_pending :: bool
  sr_cleared_exhausted :: bool
  sr_no_candidates :: bool
  sr_lookup_completed :: bool

record response_result =
  rr_txn_known :: bool
  rr_info_hash :: "info_hash option"
  rr_outbound :: "outbound_krpc list"
  rr_lookup_completed :: bool

type_synonym advance_result = "outbound_krpc list \<times> bool"

definition GET_PEERS_TXN_TTL :: time where "GET_PEERS_TXN_TTL = seconds 30"
definition GET_PEERS_LOOKUP_TTL :: time where "GET_PEERS_LOOKUP_TTL = minutes 5"
definition LOOKUP_ALPHA :: nat where "LOOKUP_ALPHA = 6"

definition lm_new :: "node_id \<Rightarrow> lookup_manager" where
  "lm_new self_id = \<lparr>lm_self = self_id, lm_pending = [], lm_lookups = [], lm_draws = 0\<rparr>"

subsection \<open>Operations\<close>

text \<open>Erasing a set of transaction identifiers from the routing map.\<close>

definition erase_txns :: "bytes set \<Rightarrow> (bytes \<times> 'a) list \<Rightarrow> (bytes \<times> 'a) list" where
  "erase_txns ts m = filter (\<lambda>p. fst p \<notin> ts) m"

definition finish_lookup :: "info_hash \<Rightarrow> lookup_manager \<Rightarrow> lookup_manager" where
  "finish_lookup h m =
     (case map_of (lm_lookups m) h of
        None \<Rightarrow> m
      | Some l \<Rightarrow>
          m\<lparr>lm_pending := erase_txns (kl_pending l) (lm_pending m),
            lm_lookups := AList.delete h (lm_lookups m)\<rparr>)"

text \<open>
  The lookup is passed by reference and may be replenished from the routing
  table, so the new lookup is part of the result.
\<close>

definition lookup_should_finish ::
    "routing_table \<Rightarrow> node_id \<Rightarrow> info_hash \<Rightarrow> kademlia_lookup \<Rightarrow> bool \<times> kademlia_lookup" where
  "lookup_should_finish rt self_id h l =
     (if has_pending l \<or> \<not> all_candidates_queried l then (False, l)
      else
        let closest = rt_closest (id_from_info_hash h) K rt in
        if closest \<noteq> [] then
          (let l1 = merge_nodes closest self_id l in
           if \<not> all_candidates_queried l1 then (False, l1) else (True, l1))
        else (True, l))"

definition set_lookup :: "info_hash \<Rightarrow> kademlia_lookup \<Rightarrow> lookup_manager \<Rightarrow> lookup_manager" where
  "set_lookup h l m = m\<lparr>lm_lookups := AList.update h l (lm_lookups m)\<rparr>"

text \<open>The loop of \<^verbatim>\<open>advance_lookup\<close> that sends one query per selected node.\<close>

fun send_queries ::
    "time \<Rightarrow> (nat \<Rightarrow> bytes) \<Rightarrow> info_hash \<Rightarrow> routing_entry list \<Rightarrow> kademlia_lookup \<Rightarrow> lookup_manager
     \<Rightarrow> outbound_krpc list \<Rightarrow> kademlia_lookup \<times> lookup_manager \<times> outbound_krpc list" where
  "send_queries now rnd h [] l m out = (l, m, out)"
| "send_queries now rnd h (node # nodes) l m out =
     (let txn = rnd (lm_draws m);
          l1 = add_pending_txn txn l;
          m1 = m\<lparr>lm_draws := Suc (lm_draws m), lm_pending := AList.update txn (h, now) (lm_pending m)\<rparr>
      in send_queries now rnd h nodes l1 m1 (out @ [(make_get_peers txn (lm_self m) h, re_pa node)]))"

definition advance_lookup ::
    "time \<Rightarrow> (nat \<Rightarrow> bytes) \<Rightarrow> routing_table \<Rightarrow> info_hash \<Rightarrow> lookup_manager
     \<Rightarrow> advance_result \<times> lookup_manager" where
  "advance_lookup now rnd rt h m =
     (case map_of (lm_lookups m) h of
        None \<Rightarrow> (([], False), m)
      | Some l \<Rightarrow>
          (case lookup_should_finish rt (lm_self m) h l of
             (True, l1) \<Rightarrow> (([], True), finish_lookup h (set_lookup h l1 m))
           | (False, l1) \<Rightarrow>
               let in_flight = pending_count l1 in
               if LOOKUP_ALPHA \<le> in_flight then (([], False), set_lookup h l1 m)
               else
                 let can_send = LOOKUP_ALPHA - in_flight;
                     (next, l2) = select_next_candidates can_send l1;
                     (l3, m3, out) = send_queries now rnd h next l2 m []
                 in if out = [] then
                      (case lookup_should_finish rt (lm_self m) h l3 of
                         (True, l4) \<Rightarrow> ((out, True), finish_lookup h (set_lookup h l4 m3))
                       | (False, l4) \<Rightarrow> ((out, False), set_lookup h l4 m3))
                    else ((out, False), set_lookup h l3 m3)))"

text \<open>Expiry of unanswered transactions: the loop over \<^verbatim>\<open>pending_lookups_\<close>.\<close>

fun expire_pending_loop ::
    "time \<Rightarrow> (bytes \<times> info_hash \<times> time) list \<Rightarrow> (info_hash \<times> kademlia_lookup) list
     \<Rightarrow> (bytes \<times> info_hash \<times> time) list \<times> (info_hash \<times> kademlia_lookup) list" where
  "expire_pending_loop now [] ls = ([], ls)"
| "expire_pending_loop now ((txn, h, sent) # ps) ls =
     (if now - sent \<ge> GET_PEERS_TXN_TTL then
        expire_pending_loop now ps
          (case map_of ls h of
             None \<Rightarrow> ls
           | Some l \<Rightarrow> AList.update h (remove_pending_txn txn l) ls)
      else (let (ps', ls') = expire_pending_loop now ps ls in ((txn, h, sent) # ps', ls')))"

definition expire_pending_lookups :: "time \<Rightarrow> lookup_manager \<Rightarrow> lookup_manager" where
  "expire_pending_lookups now m =
     (let (ps, ls) = expire_pending_loop now (lm_pending m) (lm_lookups m)
      in m\<lparr>lm_pending := ps, lm_lookups := ls\<rparr>)"

fun expire_active_loop ::
    "time \<Rightarrow> (info_hash \<times> kademlia_lookup) list \<Rightarrow> (bytes \<times> info_hash \<times> time) list
     \<Rightarrow> (info_hash \<times> kademlia_lookup) list \<times> (bytes \<times> info_hash \<times> time) list" where
  "expire_active_loop now [] ps = ([], ps)"
| "expire_active_loop now ((h, l) # ls) ps =
     (if now - kl_started l \<ge> GET_PEERS_LOOKUP_TTL then
        expire_active_loop now ls (erase_txns (kl_pending l) ps)
      else (let (ls', ps') = expire_active_loop now ls ps in ((h, l) # ls', ps')))"

definition expire_active_lookups :: "time \<Rightarrow> lookup_manager \<Rightarrow> lookup_manager" where
  "expire_active_lookups now m =
     (let (ls, ps) = expire_active_loop now (lm_lookups m) (lm_pending m)
      in m\<lparr>lm_lookups := ls, lm_pending := ps\<rparr>)"

definition empty_start :: start_result where
  "empty_start = \<lparr>sr_outbound = [], sr_started_new = False, sr_skipped_pending = False,
     sr_cleared_exhausted = False, sr_no_candidates = False, sr_lookup_completed = False\<rparr>"

text \<open>The middle part of \<^verbatim>\<open>start_or_advance\<close>: the lookup that already exists.\<close>

definition advance_existing ::
    "time \<Rightarrow> (nat \<Rightarrow> bytes) \<Rightarrow> routing_table \<Rightarrow> info_hash \<Rightarrow> lookup_manager
     \<Rightarrow> start_result \<times> lookup_manager" where
  "advance_existing now rnd rt h m =
     (case map_of (lm_lookups m) h of
        None \<Rightarrow> (empty_start, m)
      | Some l \<Rightarrow>
          if has_pending l then (empty_start\<lparr>sr_skipped_pending := True\<rparr>, m)
          else
            (case lookup_should_finish rt (lm_self m) h l of
               (True, l1) \<Rightarrow>
                 (empty_start\<lparr>sr_cleared_exhausted := True, sr_lookup_completed := True\<rparr>,
                  finish_lookup h (set_lookup h l1 m))
             | (False, l1) \<Rightarrow>
                 let ((out, completed), m1) = advance_lookup now rnd rt h (set_lookup h l1 m)
                 in (empty_start\<lparr>sr_outbound := out, sr_lookup_completed := completed\<rparr>, m1)))"

definition start_or_advance ::
    "time \<Rightarrow> (nat \<Rightarrow> bytes) \<Rightarrow> routing_table \<Rightarrow> info_hash \<Rightarrow> lookup_manager
     \<Rightarrow> start_result \<times> lookup_manager" where
  "start_or_advance now rnd rt h m =
     (let closest = rt_closest (id_from_info_hash h) K rt in
      if closest = [] then (empty_start\<lparr>sr_no_candidates := True\<rparr>, m)
      else
        let m1 = expire_active_lookups now (expire_pending_lookups now m);
            (res, m2) = advance_existing now rnd rt h m1
        in if sr_outbound res = [] \<and> map_of (lm_lookups m2) h = None then
             (let m3 = m2\<lparr>lm_lookups := lm_lookups m2 @ [(h, kl_new now h closest)]\<rparr>;
                  ((out, completed), m4) = advance_lookup now rnd rt h m3
              in (res\<lparr>sr_started_new := True, sr_outbound := out, sr_lookup_completed := completed\<rparr>, m4))
           else (res, m2))"

definition info_hash_for_txn :: "bytes \<Rightarrow> lookup_manager \<Rightarrow> info_hash option" where
  "info_hash_for_txn txn m = map_option fst (map_of (lm_pending m) txn)"

definition on_lookup_response ::
    "routing_table \<Rightarrow> krpc_message \<Rightarrow> info_hash \<Rightarrow> lookup_manager \<Rightarrow> lookup_manager" where
  "on_lookup_response rt msg h m =
     (case map_of (lm_lookups m) h of
        None \<Rightarrow> m
      | Some l \<Rightarrow>
          let l1 = merge_nodes (km_nodes msg) (lm_self m) (remove_pending_txn (km_txn msg) l) in
          (case lookup_should_finish rt (lm_self m) h l1 of
             (True, l2) \<Rightarrow> finish_lookup h (set_lookup h l2 m)
           | (False, l2) \<Rightarrow> set_lookup h l2 m))"

definition on_response ::
    "time \<Rightarrow> (nat \<Rightarrow> bytes) \<Rightarrow> routing_table \<Rightarrow> krpc_message \<Rightarrow> lookup_manager
     \<Rightarrow> response_result \<times> lookup_manager" where
  "on_response now rnd rt msg m =
     (case map_of (lm_pending m) (km_txn msg) of
        None \<Rightarrow> (\<lparr>rr_txn_known = False, rr_info_hash = None, rr_outbound = [], rr_lookup_completed = False\<rparr>, m)
      | Some (h, _) \<Rightarrow>
          let (out, completed, m2) =
            (if map_of (lm_lookups m) h \<noteq> None then
               (let m1 = on_lookup_response rt msg h m in
                if map_of (lm_lookups m1) h \<noteq> None then
                  (let ((out, completed), m2) = advance_lookup now rnd rt h m1 in (out, completed, m2))
                else ([], True, m1))
             else ([], False, m))
          in (\<lparr>rr_txn_known = True, rr_info_hash = Some h, rr_outbound = out, rr_lookup_completed = completed\<rparr>,
              m2\<lparr>lm_pending := AList.delete (km_txn msg) (lm_pending m2)\<rparr>))"

definition has_pending_lookup :: "info_hash \<Rightarrow> lookup_manager \<Rightarrow> bool" where
  "has_pending_lookup h m =
     (if (case map_of (lm_lookups m) h of Some l \<Rightarrow> has_pending l | None \<Rightarrow> False) then True
      else list_ex (\<lambda>(txn, h', sent). h' = h) (lm_pending m))"

definition tick :: "time \<Rightarrow> (nat \<Rightarrow> bytes) \<Rightarrow> routing_table \<Rightarrow> lookup_manager
     \<Rightarrow> outbound_krpc list \<times> lookup_manager" where
  "tick now rnd rt m =
     (let m1 = expire_pending_lookups now m;
          hashes = map fst (lm_lookups m1)
      in fold (\<lambda>h (outbound, m).
           let ((out, completed), m') = advance_lookup now rnd rt h m in (outbound @ out, m'))
         hashes ([], m1))"

subsection \<open>Invariant\<close>

definition lookup_ok :: "info_hash \<Rightarrow> kademlia_lookup \<Rightarrow> bool" where
  "lookup_ok h l \<longleftrightarrow>
     finite (kl_pending l) \<and> card (kl_pending l) \<le> LOOKUP_ALPHA \<and> kl_target l = id_from_info_hash h \<and>
     length (kl_candidates l) \<le> K"

definition lm_inv :: "lookup_manager \<Rightarrow> bool" where
  "lm_inv m \<longleftrightarrow>
     distinct (map fst (lm_lookups m)) \<and> distinct (map fst (lm_pending m)) \<and>
     (\<forall>(h, l)\<in>set (lm_lookups m). lookup_ok h l)"

lemma lm_new_inv [wf_intros]: "lm_inv (lm_new self_id)"
  by (simp add: lm_inv_def lm_new_def)

lemma lookup_ok_lookup: "lm_inv m \<Longrightarrow> map_of (lm_lookups m) h = Some l \<Longrightarrow> lookup_ok h l"
  by (auto simp: lm_inv_def dest: map_of_SomeD)

lemma lookup_ok_merge: "lookup_ok h l \<Longrightarrow> lookup_ok h (merge_nodes nodes self l)"
  using merge_nodes_candidates(1) [of nodes self l] by (simp add: lookup_ok_def)

lemma lookup_ok_remove: "lookup_ok h l \<Longrightarrow> lookup_ok h (remove_pending_txn t l)"
  by (auto simp: lookup_ok_def remove_pending_txn_def card_Diff_singleton_if)

lemma lookup_should_finish_cases:
  assumes "lookup_should_finish rt self h l = (fin, l1)"
  shows "kl_pending l1 = kl_pending l" "kl_queried l1 = kl_queried l" "lookup_ok h l \<Longrightarrow> lookup_ok h l1"
    "fin \<Longrightarrow> \<not> has_pending l" "fin \<Longrightarrow> all_candidates_queried l1"
    "\<not> fin \<Longrightarrow> has_pending l \<or> \<not> all_candidates_queried l1"
  using assms
  by (auto simp: lookup_should_finish_def Let_def has_pending_def lookup_ok_merge split: if_splits)

lemma set_lookup_inv:
  assumes "lm_inv m" "lookup_ok h l"
  shows "lm_inv (set_lookup h l m)"
  using assms
  by (auto simp: lm_inv_def set_lookup_def distinct_update set_alist_update)

lemma finish_lookup_inv: "lm_inv m \<Longrightarrow> lm_inv (finish_lookup h m)"
  by (auto simp: lm_inv_def finish_lookup_def erase_txns_def distinct_delete set_alist_delete
      distinct_map_filter split: option.split)

lemma finish_lookup_gone: "map_of (lm_lookups (finish_lookup h m)) h = None"
  by (auto simp: finish_lookup_def delete_conv' split: option.split)

lemma set_lookup_simps [simp]:
  "lm_self (set_lookup h l m) = lm_self m" "lm_pending (set_lookup h l m) = lm_pending m"
  "lm_draws (set_lookup h l m) = lm_draws m"
  "map_of (lm_lookups (set_lookup h l m)) = (map_of (lm_lookups m))(h \<mapsto> l)"
  by (simp_all add: set_lookup_def update_conv')

subsection \<open>Sending\<close>

lemma send_queries_spec:
  assumes "send_queries now rnd h nodes l m out = (l', m', out')"
  shows "l' = l\<lparr>kl_pending := kl_pending l \<union> rnd ` {lm_draws m..<lm_draws m + length nodes}\<rparr>"
    "lm_lookups m' = lm_lookups m" "lm_self m' = lm_self m" "lm_draws m' = lm_draws m + length nodes"
    "map_of (lm_pending m') t =
       (if t \<in> rnd ` {lm_draws m..<lm_draws m + length nodes} then Some (h, now) else map_of (lm_pending m) t)"
    "distinct (map fst (lm_pending m)) \<Longrightarrow> distinct (map fst (lm_pending m'))"
    "out' = out @ map (\<lambda>(i, node). (make_get_peers (rnd i) (lm_self m) h, re_pa node))
       (zip [lm_draws m..<lm_draws m + length nodes] nodes)"
proof -
  have "l' = l\<lparr>kl_pending := kl_pending l \<union> rnd ` {lm_draws m..<lm_draws m + length nodes}\<rparr> \<and>
    lm_lookups m' = lm_lookups m \<and> lm_self m' = lm_self m \<and> lm_draws m' = lm_draws m + length nodes \<and>
    map_of (lm_pending m') t =
       (if t \<in> rnd ` {lm_draws m..<lm_draws m + length nodes} then Some (h, now) else map_of (lm_pending m) t) \<and>
    (distinct (map fst (lm_pending m)) \<longrightarrow> distinct (map fst (lm_pending m'))) \<and>
    out' = out @ map (\<lambda>(i, node). (make_get_peers (rnd i) (lm_self m) h, re_pa node))
       (zip [lm_draws m..<lm_draws m + length nodes] nodes)"
    using assms
  proof (induction nodes arbitrary: l m out)
    case Nil
    then show ?case by auto
  next
    case (Cons node nodes)
    let ?d = "lm_draws m" and ?n = "length nodes"
    let ?m = "m\<lparr>lm_draws := Suc ?d, lm_pending := AList.update (rnd ?d) (h, now) (lm_pending m)\<rparr>"
    have split: "{?d..<Suc (?d + ?n)} = insert ?d {Suc ?d..<Suc (?d + ?n)}"
      "[?d..<Suc (?d + ?n)] = ?d # [Suc ?d..<Suc (?d + ?n)]"
      by (auto simp: upt_conv_Cons simp del: upt_Suc)
    have "send_queries now rnd h nodes (add_pending_txn (rnd ?d) l) ?m
        (out @ [(make_get_peers (rnd ?d) (lm_self m) h, re_pa node)]) = (l', m', out')"
      using Cons.prems by (simp add: Let_def)
    from Cons.IH [OF this] show ?case
      by (simp add: split add_pending_txn_def update_conv' distinct_update del: upt_Suc)
  qed
  then show "l' = l\<lparr>kl_pending := kl_pending l \<union> rnd ` {lm_draws m..<lm_draws m + length nodes}\<rparr>"
    "lm_lookups m' = lm_lookups m" "lm_self m' = lm_self m" "lm_draws m' = lm_draws m + length nodes"
    "map_of (lm_pending m') t =
       (if t \<in> rnd ` {lm_draws m..<lm_draws m + length nodes} then Some (h, now) else map_of (lm_pending m) t)"
    "distinct (map fst (lm_pending m)) \<Longrightarrow> distinct (map fst (lm_pending m'))"
    "out' = out @ map (\<lambda>(i, node). (make_get_peers (rnd i) (lm_self m) h, re_pa node))
       (zip [lm_draws m..<lm_draws m + length nodes] nodes)"
    by auto
qed

subsection \<open>One step of a lookup\<close>

text \<open>
  What an advance that leaves the lookup active does: the queries sent go to
  distinct addresses never queried before, the in-flight bound holds, and at
  least one query is in flight.
\<close>

definition advanced ::
    "time \<Rightarrow> (nat \<Rightarrow> bytes) \<Rightarrow> info_hash \<Rightarrow> kademlia_lookup \<Rightarrow> lookup_manager \<Rightarrow> outbound_krpc list
     \<Rightarrow> kademlia_lookup \<Rightarrow> lookup_manager \<Rightarrow> bool" where
  "advanced now rnd h l m out l' m' \<longleftrightarrow>
     map_of (lm_lookups m') = (map_of (lm_lookups m))(h \<mapsto> l') \<and>
     has_pending l' \<and> lookup_ok h l' \<and>
     kl_queried l' = kl_queried l \<union> snd ` set out \<and> distinct (map snd out) \<and> snd ` set out \<inter> kl_queried l = {} \<and>
     kl_pending l' = kl_pending l \<union> rnd ` {lm_draws m..<lm_draws m + length out} \<and>
     (\<forall>t. map_of (lm_pending m') t =
        (if t \<in> rnd ` {lm_draws m..<lm_draws m + length out} then Some (h, now) else map_of (lm_pending m) t))"

lemma advance_send:
  assumes ok: "lookup_ok h l1" and fl: "pending_count l1 < LOOKUP_ALPHA"
    and sel: "select_next_candidates (LOOKUP_ALPHA - pending_count l1) l1 = (next, l2)"
    and send: "send_queries now rnd h next l2 m [] = (l3, m3, out)"
  shows "lookup_ok h l3" "length out = length next" "map snd out = map re_pa next"
    "kl_pending l3 = kl_pending l1 \<union> rnd ` {lm_draws m..<lm_draws m + length out}"
    "kl_queried l3 = kl_queried l1 \<union> snd ` set out" "distinct (map snd out)" "snd ` set out \<inter> kl_queried l1 = {}"
    "out = [] \<Longrightarrow> all_candidates_queried l1 \<and> l3 = l1"
proof -
  note s = select_next_candidates_spec [OF sel] and q = send_queries_spec [OF send]
  show len: "length out = length next" using q(7) by simp
  show snd_out: "map snd out = map re_pa next"
    using q(7) by (intro nth_equalityI) (simp_all add: split_beta)
  have set_out: "snd ` set out = re_pa ` set next" using snd_out by (metis set_map)
  show pend: "kl_pending l3 = kl_pending l1 \<union> rnd ` {lm_draws m..<lm_draws m + length out}"
    using q(1) s(5) len by simp
  show "kl_queried l3 = kl_queried l1 \<union> snd ` set out" "distinct (map snd out)"
    "snd ` set out \<inter> kl_queried l1 = {}"
    using q(1) s(2,3,5) set_out snd_out by simp_all
  have "card (rnd ` {lm_draws m..<lm_draws m + length out}) \<le> length out"
    by (metis card_atLeastLessThan card_image_le diff_add_inverse finite_atLeastLessThan)
  then have "card (kl_pending l3) \<le> LOOKUP_ALPHA"
    using card_Un_le [of "kl_pending l1" "rnd ` {lm_draws m..<lm_draws m + length out}"] s(1) fl len
    unfolding pend pending_count_def by linarith
  then show "lookup_ok h l3" using ok pend q(1) s(5) by (simp add: lookup_ok_def)
  show "all_candidates_queried l1 \<and> l3 = l1" if "out = []"
  proof -
    have "next = []" using that len by simp
    then have "l2 = l1" "l3 = l1" using s(5) q(1) by simp_all
    then show ?thesis using s(6) \<open>next = []\<close> fl by simp
  qed
qed

lemma advance_lookup_cases:
  assumes l: "map_of (lm_lookups m) h = Some l" and ok: "lookup_ok h l"
    and adv: "advance_lookup now rnd rt h m = ((out, completed), m')"
  shows "(completed \<and> out = [] \<and> kl_pending l = {} \<and> map_of (lm_lookups m') h = None) \<or>
    (\<not> completed \<and> (\<exists>l'. advanced now rnd h l m out l' m'))"
proof -
  obtain fin l1 where f: "lookup_should_finish rt (lm_self m) h l = (fin, l1)" by fastforce
  note c = lookup_should_finish_cases [OF f]
  have ok1: "lookup_ok h l1" using c(3) ok by simp
  show ?thesis
  proof (cases fin)
    case True
    then show ?thesis using adv l f c(4) finish_lookup_gone [of h "set_lookup h l1 m"]
      by (auto simp: advance_lookup_def has_pending_def)
  next
    case nfin: False
    show ?thesis
    proof (cases "LOOKUP_ALPHA \<le> pending_count l1")
      case True
      then have "has_pending l1" by (auto simp: has_pending_def pending_count_def LOOKUP_ALPHA_def)
      then show ?thesis using adv l f nfin True c ok1
        by (auto simp: advance_lookup_def advanced_def)
    next
      case False
      obtain nxt l2 where sel: "select_next_candidates (LOOKUP_ALPHA - pending_count l1) l1 = (nxt, l2)" by fastforce
      obtain l3 m3 out3 where send: "send_queries now rnd h nxt l2 m [] = (l3, m3, out3)" by (metis prod_cases3)
      note a = advance_send [OF ok1 _ sel send] and q = send_queries_spec [OF send]
      have fl: "pending_count l1 < LOOKUP_ALPHA" using False by simp
      have adv': "advance_lookup now rnd rt h m =
          (if out3 = [] then
             (case lookup_should_finish rt (lm_self m) h l3 of
                (True, l4) \<Rightarrow> ((out3, True), finish_lookup h (set_lookup h l4 m3))
              | (False, l4) \<Rightarrow> ((out3, False), set_lookup h l4 m3))
           else ((out3, False), set_lookup h l3 m3))"
        using l f nfin False sel send by (simp add: advance_lookup_def Let_def)
      show ?thesis
      proof (cases "out3 = []")
        case True
        obtain fin2 l4 where f2: "lookup_should_finish rt (lm_self m) h l3 = (fin2, l4)" by fastforce
        note c2 = lookup_should_finish_cases [OF f2]
        have e: "all_candidates_queried l1" "l3 = l1" using a(8) [OF fl True] by auto
        then have hp: "has_pending l1" using c(1,6) nfin by (simp add: has_pending_def)
        then have "\<not> fin2" using c2(4) e by auto
        then show ?thesis using adv adv' f2 True hp c c2 e a [OF fl] q(2,3,5) ok1
          by (auto simp: advanced_def has_pending_def)
      next
        case nemp: False
        then have "has_pending l3" using a(2,4) [OF fl] by (auto simp: has_pending_def)
        then show ?thesis using adv adv' nemp a [OF fl] q(2,5) c(1,2) 
          by (auto simp: advanced_def)
      qed
    qed
  qed
qed

lemma advance_lookup_inv [wf_intros]:
  assumes inv: "lm_inv m"
  shows "lm_inv (snd (advance_lookup now rnd rt h m))"
proof (cases "map_of (lm_lookups m) h")
  case None
  then show ?thesis using inv by (simp add: advance_lookup_def)
next
  case (Some l)
  have ok: "lookup_ok h l" using inv Some by (rule lookup_ok_lookup)
  obtain fin l1 where f: "lookup_should_finish rt (lm_self m) h l = (fin, l1)" by fastforce
  have ok1: "lookup_ok h l1" using lookup_should_finish_cases(3) [OF f] ok by simp
  obtain nxt l2 where sel: "select_next_candidates (LOOKUP_ALPHA - pending_count l1) l1 = (nxt, l2)" by fastforce
  obtain l3 m3 out where send: "send_queries now rnd h nxt l2 m [] = (l3, m3, out)" by (metis prod_cases3)
  obtain fin2 l4 where f2: "lookup_should_finish rt (lm_self m) h l3 = (fin2, l4)" by fastforce
  have inv3: "lm_inv m3" using inv send_queries_spec(2,6) [OF send] by (simp add: lm_inv_def)
  have ok3: "lookup_ok h l3" if "\<not> LOOKUP_ALPHA \<le> pending_count l1"
    using advance_send(1) [OF ok1 _ sel send] that by simp
  then have ok4: "lookup_ok h l4" if "\<not> LOOKUP_ALPHA \<le> pending_count l1"
    using lookup_should_finish_cases(3) [OF f2] that by simp
  show ?thesis
    using Some f sel send f2 inv inv3 ok1 ok3 ok4
    by (cases fin; cases fin2)
      (auto simp: advance_lookup_def Let_def intro: set_lookup_inv finish_lookup_inv)
qed

lemma expire_pending_loop_spec:
  assumes "expire_pending_loop now ps ls = (ps', ls')"
  shows "ps' = filter (\<lambda>(t, h, sent). \<not> (now - sent \<ge> GET_PEERS_TXN_TTL)) ps"
    "map fst ls' = map fst ls"
    "\<forall>(h, l)\<in>set ls. lookup_ok h l \<Longrightarrow> distinct (map fst ls) \<Longrightarrow> \<forall>(h, l)\<in>set ls'. lookup_ok h l"
proof -
  have "ps' = filter (\<lambda>(t, h, sent). \<not> (now - sent \<ge> GET_PEERS_TXN_TTL)) ps \<and> map fst ls' = map fst ls \<and>
    (distinct (map fst ls) \<longrightarrow> (\<forall>(h, l)\<in>set ls. lookup_ok h l) \<longrightarrow> (\<forall>(h, l)\<in>set ls'. lookup_ok h l))"
    using assms
  proof (induction now ps ls arbitrary: ps' rule: expire_pending_loop.induct)
    case (1 now ls)
    then show ?case by simp
  next
    case (2 now txn h sent ps ls)
    let ?ls = "case map_of ls h of None \<Rightarrow> ls | Some l \<Rightarrow> AList.update h (remove_pending_txn txn l) ls"
    show ?case
    proof (cases "now - sent \<ge> GET_PEERS_TXN_TTL")
      case True
      have keys: "map fst ?ls = map fst ls"
        by (auto simp: update_keys map_of_eq_None_iff split: option.split dest: map_of_SomeD)
      have "\<forall>(h, l)\<in>set ?ls. lookup_ok h l" if "distinct (map fst ls)" "\<forall>(h, l)\<in>set ls. lookup_ok h l"
        using that by (auto simp: set_alist_update lookup_ok_remove split: option.split dest: map_of_SomeD)
      then show ?thesis using "2.IH"(1) [OF True, of ps'] "2.prems" True keys by simp
    next
      case False
      then show ?thesis using "2.IH"(2) [OF False] "2.prems" by (auto split: prod.splits)
    qed
  qed
  then show "ps' = filter (\<lambda>(t, h, sent). \<not> (now - sent \<ge> GET_PEERS_TXN_TTL)) ps"
    "map fst ls' = map fst ls"
    "\<forall>(h, l)\<in>set ls. lookup_ok h l \<Longrightarrow> distinct (map fst ls) \<Longrightarrow> \<forall>(h, l)\<in>set ls'. lookup_ok h l" by auto
qed

lemma expire_pending_inv [wf_intros]: "lm_inv m \<Longrightarrow> lm_inv (expire_pending_lookups now m)"
  using expire_pending_loop_spec [of now "lm_pending m" "lm_lookups m"]
  by (cases "expire_pending_loop now (lm_pending m) (lm_lookups m)")
    (auto simp: lm_inv_def expire_pending_lookups_def distinct_map_filter)

lemma expire_active_loop_spec:
  assumes "expire_active_loop now ls ps = (ls', ps')"
  shows "ls' = filter (\<lambda>(h, l). \<not> (now - kl_started l \<ge> GET_PEERS_LOOKUP_TTL)) ls \<and>
    (\<exists>P. ps' = filter P ps)"
  using assms
proof (induction now ls ps arbitrary: ls' rule: expire_active_loop.induct)
  case (1 now ps)
  then show ?case by (auto intro: exI [of _ "\<lambda>_. True"])
next
  case (2 now h l ls ps)
  show ?case
  proof (cases "now - kl_started l \<ge> GET_PEERS_LOOKUP_TTL")
    case True
    then obtain P where "ps' = filter P (erase_txns (kl_pending l) ps)" "ls' = filter (\<lambda>(h, l). \<not> (now - kl_started l \<ge> GET_PEERS_LOOKUP_TTL)) ls"
      using "2.IH"(1) [OF True, of ls'] "2.prems" by auto
    then show ?thesis using True by (auto simp: erase_txns_def)
  next
    case False
    then show ?thesis using "2.IH"(2) [OF False] "2.prems" by (auto split: prod.splits)
  qed
qed

lemma expire_active_inv [wf_intros]: "lm_inv m \<Longrightarrow> lm_inv (expire_active_lookups now m)"
  using expire_active_loop_spec [of now "lm_lookups m" "lm_pending m"]
  by (cases "expire_active_loop now (lm_lookups m) (lm_pending m)")
    (auto simp: lm_inv_def expire_active_lookups_def distinct_map_filter)

lemma advance_existing_inv:
  assumes inv: "lm_inv m"
  shows "lm_inv (snd (advance_existing now rnd rt h m))"
proof (cases "map_of (lm_lookups m) h")
  case None
  then show ?thesis using inv by (simp add: advance_existing_def)
next
  case (Some l)
  obtain fin l1 where f: "lookup_should_finish rt (lm_self m) h l = (fin, l1)" by fastforce
  have "lookup_ok h l1"
    using lookup_should_finish_cases(3) [OF f] lookup_ok_lookup [OF inv Some] by simp
  then have "lm_inv (set_lookup h l1 m)" using inv by (intro set_lookup_inv)
  then show ?thesis
    using Some f inv advance_lookup_inv [of "set_lookup h l1 m" now rnd rt h]
    by (cases fin) (auto simp: advance_existing_def finish_lookup_inv split: prod.splits)
qed

lemma new_lookup_inv:
  assumes "lm_inv m" "map_of (lm_lookups m) h = None" "length es \<le> K"
  shows "lm_inv (m\<lparr>lm_lookups := lm_lookups m @ [(h, kl_new now h es)]\<rparr>)"
  using assms by (auto simp: lm_inv_def lookup_ok_def kl_new_def map_of_eq_None_iff)

lemma start_or_advance_inv [wf_intros]:
  assumes inv: "lm_inv m"
  shows "lm_inv (snd (start_or_advance now rnd rt h m))"
proof -
  let ?m1 = "expire_active_lookups now (expire_pending_lookups now m)"
  obtain res m2 where e: "advance_existing now rnd rt h ?m1 = (res, m2)" by fastforce
  have "lm_inv ?m1" using inv by (intro wf_intros)
  then have inv2: "lm_inv m2" using advance_existing_inv [of ?m1 now rnd rt h] e by simp
  let ?m3 = "m2\<lparr>lm_lookups := lm_lookups m2 @ [(h, kl_new now h (rt_closest (id_from_info_hash h) K rt))]\<rparr>"
  have "lm_inv ?m3" if "map_of (lm_lookups m2) h = None"
    using inv2 that by (intro new_lookup_inv) (simp_all add: rt.closest_length)
  then have "lm_inv (snd (advance_lookup now rnd rt h ?m3))" if "map_of (lm_lookups m2) h = None"
    using that by (intro advance_lookup_inv)
  then show ?thesis using inv inv2 e
    by (auto simp: start_or_advance_def Let_def split: prod.split)
qed

lemma on_lookup_response_inv:
  assumes inv: "lm_inv m"
  shows "lm_inv (on_lookup_response rt msg h m)"
proof (cases "map_of (lm_lookups m) h")
  case None
  then show ?thesis using inv by (simp add: on_lookup_response_def)
next
  case (Some l)
  let ?l1 = "merge_nodes (km_nodes msg) (lm_self m) (remove_pending_txn (km_txn msg) l)"
  obtain fin l2 where f: "lookup_should_finish rt (lm_self m) h ?l1 = (fin, l2)" by fastforce
  have "lookup_ok h l2"
    using lookup_should_finish_cases(3) [OF f] lookup_ok_lookup [OF inv Some]
    by (simp add: lookup_ok_merge lookup_ok_remove)
  then have "lm_inv (set_lookup h l2 m)" using inv by (intro set_lookup_inv)
  then show ?thesis using Some f by (cases fin) (simp_all add: on_lookup_response_def finish_lookup_inv)
qed

lemma lm_inv_delete_txn: "lm_inv m \<Longrightarrow> lm_inv (m\<lparr>lm_pending := AList.delete t (lm_pending m)\<rparr>)"
  by (simp add: lm_inv_def distinct_delete)

lemma on_response_inv [wf_intros]:
  assumes inv: "lm_inv m"
  shows "lm_inv (snd (on_response now rnd rt msg m))"
proof -
  have "lm_inv (snd (advance_lookup now rnd rt h (on_lookup_response rt msg h m)))" for h
    using inv by (intro advance_lookup_inv on_lookup_response_inv)
  then show ?thesis using inv on_lookup_response_inv [OF inv, of rt msg]
    by (auto simp: on_response_def Let_def lm_inv_delete_txn split: option.split prod.splits)
      (metis lm_inv_delete_txn snd_conv)
qed

lemma tick_inv [wf_intros]:
  assumes inv: "lm_inv m"
  shows "lm_inv (snd (tick now rnd rt m))"
proof -
  have "lm_inv (snd (fold (\<lambda>h (outbound, m).
      let ((out, completed), m') = advance_lookup now rnd rt h m in (outbound @ out, m')) hs (o1, m1)))"
    if "lm_inv m1" for hs o1 m1
    using that
  proof (induction hs arbitrary: o1 m1)
    case (Cons h hs)
    then show ?case using advance_lookup_inv [OF Cons.prems, of now rnd rt h] by (simp add: split_beta Let_def)
  qed simp
  then show ?thesis using expire_pending_inv [OF inv] by (simp add: tick_def Let_def)
qed

subsection \<open>Runs of the manager\<close>

inductive lm_run :: "(nat \<Rightarrow> bytes) \<Rightarrow> lookup_manager \<Rightarrow> bool" for rnd where
  lm_start: "lm_run rnd (lm_new self_id)"
| lm_start_step: "lm_run rnd m \<Longrightarrow> lm_run rnd (snd (start_or_advance now rnd rt h m))"
| lm_response_step: "lm_run rnd m \<Longrightarrow> lm_run rnd (snd (on_response now rnd rt msg m))"
| lm_expire_pending_step: "lm_run rnd m \<Longrightarrow> lm_run rnd (expire_pending_lookups now m)"
| lm_expire_active_step: "lm_run rnd m \<Longrightarrow> lm_run rnd (expire_active_lookups now m)"
| lm_tick_step: "lm_run rnd m \<Longrightarrow> lm_run rnd (snd (tick now rnd rt m))"

lemma lm_run_inv: "lm_run rnd m \<Longrightarrow> lm_inv m"
  by (induction rule: lm_run.induct) (auto intro: wf_intros)

lemma start_or_advance_new:
  assumes "lm_run rnd m" "rt_closest (id_from_info_hash h) K rt \<noteq> []" "start_or_advance now rnd rt h m = (res, m')"
  shows "sr_lookup_completed res \<or> (\<exists>l. map_of (lm_lookups m') h = Some l \<and> has_pending l)"
proof -
  have inv: "lm_inv m" using assms(1) by (rule lm_run_inv)
  let ?es = "rt_closest (id_from_info_hash h) K rt"
  let ?m1 = "expire_active_lookups now (expire_pending_lookups now m)"
  have inv1: "lm_inv ?m1" using inv by (intro wf_intros)
  obtain r2 m2 where e: "advance_existing now rnd rt h ?m1 = (r2, m2)" by fastforce
  have inv2: "lm_inv m2" using advance_existing_inv [OF inv1, of now rnd rt h] e by simp
  show ?thesis
  proof (cases "sr_outbound r2 = [] \<and> map_of (lm_lookups m2) h = None")
    case True
    let ?m3 = "m2\<lparr>lm_lookups := lm_lookups m2 @ [(h, kl_new now h ?es)]\<rparr>"
    have inv3: "lm_inv ?m3" using inv2 True by (intro new_lookup_inv) (simp_all add: rt.closest_length)
    have l: "map_of (lm_lookups ?m3) h = Some (kl_new now h ?es)" using True by (simp add: map_add_Some_iff)
    obtain out c m4 where a: "advance_lookup now rnd rt h ?m3 = ((out, c), m4)" by (metis prod.exhaust)
    from advance_lookup_cases [OF l lookup_ok_lookup [OF inv3 l] a] show ?thesis
      using assms(2,3) e True a by (auto simp: start_or_advance_def advanced_def)
  next
    case False
    have res: "res = r2" "m' = m2" using assms(2,3) e False by (auto simp: start_or_advance_def Let_def)
    show ?thesis
    proof (cases "map_of (lm_lookups ?m1) h")
      case None
      then show ?thesis using e False by (auto simp: advance_existing_def empty_start_def)
    next
      case (Some l)
      obtain fin l1 where f: "lookup_should_finish rt (lm_self ?m1) h l = (fin, l1)" by fastforce
      have ok1: "lookup_ok h l1"
        using lookup_should_finish_cases(3) [OF f] lookup_ok_lookup [OF inv1 Some] by simp
      obtain out c m4 where a: "advance_lookup now rnd rt h (set_lookup h l1 ?m1) = ((out, c), m4)"
        by (metis prod.exhaust)
      have "map_of (lm_lookups (set_lookup h l1 ?m1)) h = Some l1" by simp
      from advance_lookup_cases [OF this ok1 a] show ?thesis
        using e Some f a unfolding res
        by (cases fin; cases "has_pending l") (auto simp: advance_existing_def empty_start_def advanced_def)
    qed
  qed
qed

subsection \<open>Properties\<close>



text \<open>C21: A lookup never stalls: when an active lookup is advanced it either completes
  and is removed, having no query in flight, or it stays active with at least
  one query in flight; the new queries go to pairwise distinct addresses that
  this lookup has never queried before.\<close>

theorem advance_makes_progress:
  assumes "lm_inv m" "map_of (lm_lookups m) h = Some l" "advance_lookup now rnd rt h m = ((out, completed), m')"
  shows "(completed \<and> out = [] \<and> \<not> has_pending l \<and> map_of (lm_lookups m') h = None) \<or>
    (\<not> completed \<and> (\<exists>l'. map_of (lm_lookups m') h = Some l' \<and> has_pending l' \<and>
       kl_queried l' = kl_queried l \<union> snd ` set out \<and> distinct (map snd out) \<and>
       snd ` set out \<inter> kl_queried l = {}))"
  using advance_lookup_cases [OF assms(2) lookup_ok_lookup [OF assms(1,2)] assms(3)]
  by (auto simp: advanced_def has_pending_def)

theorem advance_makes_progress_witness:
  "\<exists>out completed m'. advance_lookup 0 (\<lambda>_. [1, 2]) sample_table (replicate 20 3)
       ((lm_new (replicate 20 7))\<lparr>lm_lookups := [(replicate 20 3, kl_new 0 (replicate 20 3) [sample_entry])]\<rparr>) =
       ((out, completed), m') \<and> distinct (map snd out)"
proof -
  let ?h = "replicate 20 (3 :: byte)"
  let ?m = "(lm_new (replicate 20 7))\<lparr>lm_lookups := [(?h, kl_new 0 ?h [sample_entry])]\<rparr>"
  have "lm_inv ?m" by (simp add: lm_inv_def lm_new_def lookup_ok_def kl_new_def K_def)
  moreover have "map_of (lm_lookups ?m) ?h = Some (kl_new 0 ?h [sample_entry])" by simp
  moreover obtain out completed m' where a: "advance_lookup 0 (\<lambda>_. [1, 2]) sample_table ?h ?m = ((out, completed), m')"
    by (metis prod.exhaust)
  ultimately show ?thesis using advance_makes_progress [of ?m ?h _ 0 "\<lambda>_. [1, 2]" sample_table out completed m'] by auto
qed

text \<open>Starting a lookup while the routing table knows any node always leaves a
  query in flight for that info hash, unless the lookup has completed.\<close>

theorem start_or_advance_progress:
  assumes "lm_run rnd m" "rt_closest (id_from_info_hash h) K rt \<noteq> []" "start_or_advance now rnd rt h m = (res, m')"
  shows "sr_lookup_completed res \<or> (\<exists>l. map_of (lm_lookups m') h = Some l \<and> has_pending l)"
  using assms by (rule start_or_advance_new)

theorem start_or_advance_progress_witness:
  "\<exists>res m'. start_or_advance 0 (\<lambda>_. [1, 2]) sample_table (replicate 20 3) (lm_new (replicate 20 7)) = (res, m') \<and>
     (sr_lookup_completed res \<or> (\<exists>l. map_of (lm_lookups m') (replicate 20 3) = Some l \<and> has_pending l))"
proof -
  obtain res m' where a: "start_or_advance 0 (\<lambda>_. [1, 2]) sample_table (replicate 20 3) (lm_new (replicate 20 7)) = (res, m')"
    by fastforce
  have "rt_closest (id_from_info_hash (replicate 20 3)) K sample_table \<noteq> []"
    by (rule sample_table_closest) (simp add: K_def)
  from start_or_advance_progress [OF lm_start this a] a show ?thesis by blast
qed

end
