(* ===== verification/Lru_Cache.thy ===== *)
theory Lru_Cache
  imports Prelude
begin

section \<open>LRU cache\<close>

text \<open>
  \<^verbatim>\<open>utils::LruCache\<close> of \<^verbatim>\<open>inc/lru_cache.h\<close>. The linked list
  \<^verbatim>\<open>items_\<close> is a list of nodes, each with its address (a node keeps its
  address when it is spliced), and \<^verbatim>\<open>index_\<close> maps a key to the address
  of its node, as the hash map of list iterators does. A \<^verbatim>\<open>Value*\<close> that
  \<^verbatim>\<open>get\<close> or \<^verbatim>\<open>put\<close> returns is a node address, read by \<open>lru_deref\<close>
  and written by \<open>lru_assign\<close>. The abstract view is the recency list of
  key/value pairs, most recently used first; the locale \<open>recency_cache\<close>
  states what clients rely on, and is interpreted on these operations.
\<close>

subsection \<open>State and operations\<close>

type_synonym addr = nat

record ('k, 'v) lru =
  lru_capacity :: nat
  lru_items :: "(addr \<times> 'k \<times> 'v) list"
  lru_index :: "('k \<times> addr) list"
  lru_next :: addr

definition lru_new :: "nat \<Rightarrow> ('k, 'v) lru" where
  "lru_new c = \<lparr>lru_capacity = c, lru_items = [], lru_index = [], lru_next = 0\<rparr>"

definition lru_size :: "('k, 'v) lru \<Rightarrow> nat" where
  "lru_size s = length (lru_index s)"

definition lru_empty :: "('k, 'v) lru \<Rightarrow> bool" where
  "lru_empty s = (lru_index s = [])"

definition lru_contains :: "'k \<Rightarrow> ('k, 'v) lru \<Rightarrow> bool" where
  "lru_contains k s = (map_of (lru_index s) k \<noteq> None)"

text \<open>\<^verbatim>\<open>items_.splice(items_.begin(), items_, it)\<close>\<close>

definition splice_front :: "addr \<Rightarrow> (addr \<times> 'a) list \<Rightarrow> (addr \<times> 'a) list" where
  "splice_front a xs = filter (\<lambda>x. fst x = a) xs @ filter (\<lambda>x. fst x \<noteq> a) xs"

definition lru_deref :: "('k, 'v) lru \<Rightarrow> addr \<Rightarrow> 'v option" where
  "lru_deref s a = map_option snd (map_of (lru_items s) a)"

definition lru_assign :: "addr \<Rightarrow> 'v \<Rightarrow> ('k, 'v) lru \<Rightarrow> ('k, 'v) lru" where
  "lru_assign a v s =
     s\<lparr>lru_items := map (\<lambda>(b, k, w). if b = a then (b, k, v) else (b, k, w)) (lru_items s)\<rparr>"

definition lru_get :: "'k \<Rightarrow> ('k, 'v) lru \<Rightarrow> addr option \<times> ('k, 'v) lru" where
  "lru_get k s =
     (case map_of (lru_index s) k of
        None \<Rightarrow> (None, s)
      | Some a \<Rightarrow> (Some a, s\<lparr>lru_items := splice_front a (lru_items s)\<rparr>))"

definition evict_lru :: "('k, 'v) lru \<Rightarrow> ('k, 'v) lru" where
  "evict_lru s =
     (if lru_items s = [] then s
      else s\<lparr>lru_index := AList.delete (fst (snd (last (lru_items s)))) (lru_index s),
             lru_items := butlast (lru_items s)\<rparr>)"

definition lru_put :: "'k \<Rightarrow> 'v \<Rightarrow> ('k, 'v) lru \<Rightarrow> addr \<times> ('k, 'v) lru" where
  "lru_put k v s =
     (case map_of (lru_index s) k of
        Some a \<Rightarrow>
          (let s1 = lru_assign a v s in (a, s1\<lparr>lru_items := splice_front a (lru_items s1)\<rparr>))
      | None \<Rightarrow>
          (let s1 = (if lru_capacity s \<le> length (lru_index s) then evict_lru s else s);
               a = lru_next s1
           in (a, s1\<lparr>lru_items := (a, k, v) # lru_items s1, lru_index := AList.update k a (lru_index s1),
                     lru_next := Suc a\<rparr>)))"

definition lru_erase :: "'k \<Rightarrow> ('k, 'v) lru \<Rightarrow> bool \<times> ('k, 'v) lru" where
  "lru_erase k s =
     (case map_of (lru_index s) k of
        None \<Rightarrow> (False, s)
      | Some a \<Rightarrow>
          (True, s\<lparr>lru_items := filter (\<lambda>x. fst x \<noteq> a) (lru_items s), lru_index := AList.delete k (lru_index s)\<rparr>))"

text \<open>
  Iterators: a position is a node address, \<open>None\<close> for \<^verbatim>\<open>end()\<close>;
  \<open>lru_next_node\<close> is \<^verbatim>\<open>++it\<close>, and \<^verbatim>\<open>erase(iterator)\<close> returns the
  position after the erased node.
\<close>

definition lru_begin :: "('k, 'v) lru \<Rightarrow> addr option" where
  "lru_begin s = (case lru_items s of [] \<Rightarrow> None | x # _ \<Rightarrow> Some (fst x))"

definition lru_next_node :: "addr \<Rightarrow> ('k, 'v) lru \<Rightarrow> addr option" where
  "lru_next_node a s =
     (case tl (dropWhile (\<lambda>x. fst x \<noteq> a) (lru_items s)) of [] \<Rightarrow> None | x # _ \<Rightarrow> Some (fst x))"

definition lru_erase_at :: "addr \<Rightarrow> ('k, 'v) lru \<Rightarrow> addr option \<times> ('k, 'v) lru" where
  "lru_erase_at a s =
     (case map_of (lru_items s) a of
        None \<Rightarrow> (None, s)
      | Some (k, v) \<Rightarrow>
          (lru_next_node a s,
           s\<lparr>lru_items := filter (\<lambda>x. fst x \<noteq> a) (lru_items s), lru_index := AList.delete k (lru_index s)\<rparr>))"

definition lru_clear :: "('k, 'v) lru \<Rightarrow> ('k, 'v) lru" where
  "lru_clear s = s\<lparr>lru_items := [], lru_index := []\<rparr>"

definition lru_key :: "('k, 'v) lru \<Rightarrow> 'k option" where
  "lru_key s = (if lru_items s = [] then None else Some (fst (snd (last (lru_items s)))))"

subsection \<open>Invariant and abstraction\<close>

definition lru_entries :: "('k, 'v) lru \<Rightarrow> ('k \<times> 'v) list" where
  "lru_entries s = map snd (lru_items s)"

definition lru_addrs :: "('k, 'v) lru \<Rightarrow> ('k \<times> addr) list" where
  "lru_addrs s = map (\<lambda>(a, k, v). (k, a)) (lru_items s)"

text \<open>
  The index and the list describe the same set of (key, node) pairs, no key
  and no node address occurs twice, and the size is at most the capacity.
\<close>

definition lru_inv :: "('k, 'v) lru \<Rightarrow> bool" where
  "lru_inv s \<longleftrightarrow>
     0 < lru_capacity s \<and> length (lru_items s) \<le> lru_capacity s \<and>
     distinct (map fst (lru_items s)) \<and> distinct (map fst (lru_entries s)) \<and>
     distinct (map fst (lru_index s)) \<and> set (lru_index s) = set (lru_addrs s) \<and>
     (\<forall>x\<in>set (lru_items s). fst x < lru_next s)"

text \<open>The recency list after a use of a key.\<close>

definition lru_touch :: "'k \<Rightarrow> 'v \<Rightarrow> ('k \<times> 'v) list \<Rightarrow> ('k \<times> 'v) list" where
  "lru_touch k v es = (k, v) # filter (\<lambda>e. fst e \<noteq> k) es"


lemma lru_split:
  assumes inv: "lru_inv s" and k: "map_of (lru_index s) k = Some a"
  obtains xs v ys where "lru_items s = xs @ (a, k, v) # ys"
    "a \<notin> fst ` set (xs @ ys)" "k \<notin> fst ` set (map snd xs @ map snd ys)"
    "map_of (lru_entries s) k = Some v"
proof -
  from k have "(k, a) \<in> set (lru_index s)" by (rule map_of_SomeD)
  then obtain v where "(a, k, v) \<in> set (lru_items s)"
    using inv by (auto simp: lru_inv_def lru_addrs_def)
  then obtain xs ys where s: "lru_items s = xs @ (a, k, v) # ys" by (auto simp: in_set_conv_decomp)
  have "map_of (lru_entries s) k = Some v"
    using inv by (intro map_of_is_SomeI) (auto simp: lru_inv_def lru_entries_def s)
  with inv s show thesis
    by (intro that [of xs v ys]) (simp_all add: lru_inv_def lru_entries_def image_Un image_image)
qed

lemma filter_neq_id: "a \<notin> f ` set xs \<Longrightarrow> filter (\<lambda>x. f x \<noteq> a) xs = xs"
  by (auto simp: filter_id_conv)

lemma filter_eq_empty: "a \<notin> f ` set xs \<Longrightarrow> filter (\<lambda>x. f x = a) xs = []"
  by (auto simp: filter_empty_conv)

lemma splice_front_split:
  "a \<notin> fst ` set (xs @ ys) \<Longrightarrow> splice_front a (xs @ (a, e) # ys) = (a, e) # xs @ ys"
  by (simp add: splice_front_def filter_neq_id filter_eq_empty image_Un)

lemma lru_touch_split:
  "k \<notin> fst ` set (xs @ ys) \<Longrightarrow> lru_touch k v (xs @ (k, w) # ys) = (k, v) # xs @ ys"
  by (simp add: lru_touch_def filter_neq_id image_Un)

lemma map_fst_addrs: "map fst (lru_addrs s) = map fst (lru_entries s)"
  by (auto simp: lru_addrs_def lru_entries_def)

lemma lru_index_None:
  assumes "lru_inv s"
  shows "map_of (lru_index s) k = None \<longleftrightarrow> k \<notin> fst ` set (lru_entries s)"
proof -
  have "fst ` set (lru_index s) = set (map fst (lru_addrs s))"
    using assms by (simp add: lru_inv_def)
  then show ?thesis unfolding map_fst_addrs by (simp add: map_of_eq_None_iff)
qed

lemma lru_length_index: "lru_inv s \<Longrightarrow> length (lru_index s) = length (lru_items s)"
proof -
  assume inv: "lru_inv s"
  have "distinct (lru_index s)" "distinct (lru_addrs s)"
    using inv map_fst_addrs [of s] by (metis lru_inv_def distinct_map)+
  then show ?thesis
    using inv distinct_card [of "lru_index s"] distinct_card [of "lru_addrs s"]
    by (simp add: lru_inv_def lru_addrs_def)
qed


subsection \<open>Every operation keeps the invariant and acts on the recency list\<close>

lemma lru_new_inv [wf_intros]: "0 < c \<Longrightarrow> lru_inv (lru_new c)"
  by (simp add: lru_inv_def lru_new_def lru_entries_def lru_addrs_def)

lemma lru_new_entries [simp]: "lru_entries (lru_new c) = []" "lru_capacity (lru_new c) = c"
  by (simp_all add: lru_new_def lru_entries_def)

lemma lru_inv_reorder:
  assumes "lru_inv s" "mset xs = mset (lru_items s)"
  shows "lru_inv (s\<lparr>lru_items := xs\<rparr>)"
proof -
  have "distinct (map fst xs) = distinct (map fst (lru_items s))"
    "distinct (map (fst \<circ> snd) xs) = distinct (map (fst \<circ> snd) (lru_items s))"
    by (intro mset_eq_imp_distinct_iff; simp add: assms(2))+
  moreover have "set xs = set (lru_items s)" "length xs = length (lru_items s)"
    using assms(2) by (auto dest: mset_eq_setD mset_eq_length)
  ultimately show ?thesis
    using assms(1) by (simp add: lru_inv_def lru_entries_def lru_addrs_def)
qed

lemma lru_get_inv [wf_intros]: "lru_inv s \<Longrightarrow> lru_inv (snd (lru_get k s))"
  by (auto simp: lru_get_def splice_front_def split: option.split intro: lru_inv_reorder)

lemma lru_get_entries:
  assumes "lru_inv s"
  shows "lru_entries (snd (lru_get k s)) =
     (case map_of (lru_entries s) k of None \<Rightarrow> lru_entries s | Some v \<Rightarrow> lru_touch k v (lru_entries s))"
proof (cases "map_of (lru_index s) k")
  case None
  then have "map_of (lru_entries s) k = None"
    using lru_index_None [OF assms] by (simp add: map_of_eq_None_iff)
  with None show ?thesis by (simp add: lru_get_def)
next
  case (Some a)
  from lru_split [OF assms Some] obtain xs v ys where
    s: "lru_items s = xs @ (a, k, v) # ys" "a \<notin> fst ` set (xs @ ys)" "k \<notin> fst ` set (map snd xs @ map snd ys)"
    "map_of (lru_entries s) k = Some v" .
  then show ?thesis using Some lru_touch_split [of k "map snd xs" "map snd ys" v v]
    by (simp add: lru_get_def splice_front_split lru_entries_def)
qed

lemma lru_get_result:
  assumes "lru_inv s"
  shows "(case fst (lru_get k s) of None \<Rightarrow> None | Some a \<Rightarrow> lru_deref (snd (lru_get k s)) a) =
     map_of (lru_entries s) k"
proof (cases "map_of (lru_index s) k")
  case None
  then have "map_of (lru_entries s) k = None"
    using lru_index_None [OF assms] by (simp add: map_of_eq_None_iff)
  with None show ?thesis by (simp add: lru_get_def)
next
  case (Some a)
  from lru_split [OF assms Some] obtain xs v ys where
    s: "lru_items s = xs @ (a, k, v) # ys" "a \<notin> fst ` set (xs @ ys)" "k \<notin> fst ` set (map snd xs @ map snd ys)"
    "map_of (lru_entries s) k = Some v" .
  with Some show ?thesis by (simp add: lru_get_def lru_deref_def splice_front_split)
qed


lemma lru_assign_simps [simp]:
  "lru_capacity (lru_assign a v s) = lru_capacity s"
  "lru_index (lru_assign a v s) = lru_index s"
  "lru_next (lru_assign a v s) = lru_next s"
  "length (lru_items (lru_assign a v s)) = length (lru_items s)"
  "map fst (lru_items (lru_assign a v s)) = map fst (lru_items s)"
  "map fst (lru_entries (lru_assign a v s)) = map fst (lru_entries s)"
  "lru_addrs (lru_assign a v s) = lru_addrs s"
  by (auto simp: lru_assign_def lru_entries_def lru_addrs_def)

lemma lru_assign_inv [wf_intros]: "lru_inv s \<Longrightarrow> lru_inv (lru_assign a v s)"
proof -
  have "fst ` set (lru_items (lru_assign a v s)) = fst ` set (lru_items s)"
    using lru_assign_simps(5) [of a v s] by (metis set_map)
  then have "(\<forall>x\<in>set (lru_items (lru_assign a v s)). fst x < n) \<longleftrightarrow>
      (\<forall>x\<in>set (lru_items s). fst x < n)" for n
    by (metis (no_types, lifting) image_iff)
  then show "lru_inv s \<Longrightarrow> lru_inv (lru_assign a v s)" by (simp add: lru_inv_def)
qed

lemma lru_assign_entries:
  assumes "lru_inv s" "map_of (lru_index s) k = Some a"
  shows "lru_entries (lru_assign a v s) =
     map (\<lambda>e. if fst e = k then (k, v) else e) (lru_entries s)"
proof -
  from lru_split [OF assms] obtain xs w ys where
    s: "lru_items s = xs @ (a, k, w) # ys" "a \<notin> fst ` set (xs @ ys)"
      "k \<notin> fst ` set (map snd xs @ map snd ys)" .
  have "map snd (map (\<lambda>(b, k, w). if b = a then (b, k, v) else (b, k, w)) zs) = map snd zs"
    "map (\<lambda>e. if fst e = k then (k, v) else e) (map snd zs) = map snd zs"
    if "set zs \<subseteq> set (xs @ ys)" for zs
    using that s(2,3) by (force simp: map_eq_conv)+
  from this [of xs] this [of ys] s(1) show ?thesis
    by (simp add: lru_assign_def lru_entries_def del: map_map)
qed

lemma lru_get_index [simp]: "lru_index (snd (lru_get k s)) = lru_index s"
  by (auto simp: lru_get_def split: option.split)

lemma lru_get_capacity [simp]: "lru_capacity (snd (lru_get k s)) = lru_capacity s"
  by (auto simp: lru_get_def split: option.split)

lemma lru_get_addr: "fst (lru_get k s) = map_of (lru_index s) k"
  by (auto simp: lru_get_def split: option.split)

text \<open>Reading an entry through \<^verbatim>\<open>get\<close> and writing through the pointer.\<close>

lemma lru_get_assign_entries:
  assumes "lru_inv s" "lru_get k s = (Some a, s1)"
  shows "lru_entries (lru_assign a v s1) = lru_touch k v (lru_entries s)"
proof -
  have a: "map_of (lru_index s) k = Some a" using assms(2) lru_get_addr [of k s] by simp
  have s1: "s1 = snd (lru_get k s)" using assms(2) by simp
  obtain w where "map_of (lru_entries s) k = Some w"
    using lru_split [OF assms(1) a] by blast
  then have "lru_entries s1 = lru_touch k w (lru_entries s)"
    using lru_get_entries [OF assms(1), of k] by (simp add: s1)
  moreover have "lru_entries (lru_assign a v s1) =
      map (\<lambda>e. if fst e = k then (k, v) else e) (lru_entries s1)"
    using a assms(1) by (intro lru_assign_entries) (simp_all add: s1 lru_get_inv)
  ultimately show ?thesis by (auto simp: lru_touch_def intro!: map_idI)
qed

text \<open>What \<^verbatim>\<open>put\<close> does to the recency list.\<close>

definition recency_put :: "nat \<Rightarrow> 'k \<Rightarrow> 'v \<Rightarrow> ('k \<times> 'v) list \<Rightarrow> ('k \<times> 'v) list" where
  "recency_put c k v es =
     (if k \<in> fst ` set es then lru_touch k v es
      else (k, v) # (if c \<le> length es then butlast es else es))"

lemma evict_lru_simps [simp]:
  "lru_capacity (evict_lru s) = lru_capacity s" "lru_next (evict_lru s) = lru_next s"
  "lru_items (evict_lru s) = butlast (lru_items s)"
  "lru_entries (evict_lru s) = butlast (lru_entries s)"
  by (auto simp: evict_lru_def lru_entries_def map_butlast)

lemma evict_lru_inv [wf_intros]:
  assumes inv: "lru_inv s"
  shows "lru_inv (evict_lru s)"
proof (cases "lru_items s" rule: rev_cases)
  case Nil
  then show ?thesis using inv by (simp add: evict_lru_def)
next
  case (snoc xs x)
  obtain a k v where x: "x = (a, k, v)" by (cases x) auto
  have "k \<notin> fst ` set (map snd xs)" using inv snoc x by (simp add: lru_inv_def lru_entries_def image_image)
  then have "\<forall>p\<in>set (map (\<lambda>(a, k, v). (k, a)) xs). fst p \<noteq> k" by force
  moreover have "set (lru_index s) = insert (k, a) (set (map (\<lambda>(a, k, v). (k, a)) xs))"
    using inv snoc x by (simp add: lru_inv_def lru_addrs_def)
  ultimately have "set (AList.delete k (lru_index s)) = set (map (\<lambda>(a, k, v). (k, a)) xs)"
    unfolding set_alist_delete by (auto simp del: set_map)
  then show ?thesis using inv snoc x
    by (auto simp: lru_inv_def lru_entries_def lru_addrs_def evict_lru_def distinct_delete)
qed


lemma lru_insert_inv:
  assumes inv: "lru_inv s" and k: "map_of (lru_index s) k = None"
    and len: "length (lru_items s) < lru_capacity s"
  shows "lru_inv (s\<lparr>lru_items := (lru_next s, k, v) # lru_items s,
    lru_index := AList.update k (lru_next s) (lru_index s), lru_next := Suc (lru_next s)\<rparr>)"
proof -
  have i: "k \<notin> fst ` set (lru_index s)" using k by (simp add: map_of_eq_None_iff)
  have e: "k \<notin> fst ` set (lru_entries s)" using k lru_index_None [OF inv] by blast
  have n: "lru_next s \<notin> fst ` set (lru_items s)" using inv by (auto simp: lru_inv_def)
  show ?thesis using inv e n i len
    by (simp add: lru_inv_def lru_entries_def lru_addrs_def alist_update_new [OF i] image_image
        less_Suc_eq)
qed

lemma lru_put_inv [wf_intros]:
  assumes inv: "lru_inv s"
  shows "lru_inv (snd (lru_put k v s))"
proof (cases "map_of (lru_index s) k")
  case (Some a)
  have "lru_inv (lru_assign a v s)" using inv by (rule lru_assign_inv)
  then show ?thesis using Some
    by (auto simp: lru_put_def Let_def splice_front_def intro: lru_inv_reorder)
next
  case None
  let ?s = "if lru_capacity s \<le> length (lru_index s) then evict_lru s else s"
  have c: "0 < lru_capacity s" "length (lru_items s) \<le> lru_capacity s"
    using inv by (auto simp: lru_inv_def)
  have "lru_inv ?s" using inv by (simp add: evict_lru_inv)
  moreover have "map_of (lru_index ?s) k = None"
    using None by (auto simp: evict_lru_def AList.delete_conv' restrict_map_def)
  moreover have "length (lru_items ?s) < lru_capacity ?s"
    using c lru_length_index [OF inv] by auto
  ultimately have "lru_inv (?s\<lparr>lru_items := (lru_next ?s, k, v) # lru_items ?s,
      lru_index := AList.update k (lru_next ?s) (lru_index ?s), lru_next := Suc (lru_next ?s)\<rparr>)"
    by (rule lru_insert_inv)
  then show ?thesis using None by (simp add: lru_put_def Let_def)
qed

lemma lru_put_capacity [simp]: "lru_capacity (snd (lru_put k v s)) = lru_capacity s"
  by (auto simp: lru_put_def Let_def split: option.split)

lemma lru_put_entries:
  assumes inv: "lru_inv s"
  shows "lru_entries (snd (lru_put k v s)) = recency_put (lru_capacity s) k v (lru_entries s)"
proof (cases "map_of (lru_index s) k")
  case (Some a)
  from lru_split [OF inv Some] obtain xs w ys where
    s: "lru_items s = xs @ (a, k, w) # ys" "a \<notin> fst ` set (xs @ ys)"
      "k \<notin> fst ` set (map snd xs @ map snd ys)" .
  let ?u = "map (\<lambda>(b, k, w). if b = a then (b, k, v) else (b, k, w))"
  have u: "?u xs = xs" "?u ys = ys" using s(2) by (force intro!: map_idI)+
  have "lru_items (lru_assign a v s) = xs @ (a, k, v) # ys"
    using u by (simp add: lru_assign_def s(1))
  then show ?thesis using Some s lru_touch_split [of k "map snd xs" "map snd ys" v w]
    by (simp add: lru_put_def Let_def splice_front_split lru_entries_def recency_put_def)
next
  case None
  then have "k \<notin> fst ` set (lru_entries s)" using lru_index_None [OF inv] by blast
  with None show ?thesis
    using lru_length_index [OF inv] by (simp add: lru_put_def recency_put_def Let_def lru_entries_def map_butlast)
qed

text \<open>The address \<^verbatim>\<open>put\<close> returns is that of the entry it stored, now in front.\<close>

lemma lru_put_addr:
  "map_of (lru_index (snd (lru_put k v s))) k = Some (fst (lru_put k v s))"
  by (auto simp: lru_put_def Let_def update_conv' split: option.split)


lemma lru_deref_index:
  assumes "lru_inv s" "map_of (lru_index s) k = Some a"
  shows "lru_deref s a = map_of (lru_entries s) k"
proof -
  from lru_split [OF assms] obtain xs v ys where
    s: "lru_items s = xs @ (a, k, v) # ys" "a \<notin> fst ` set (xs @ ys)" "map_of (lru_entries s) k = Some v" .
  then have "map_of (lru_items s) a = Some (k, v)"
    by (simp add: map_add_Some_iff map_of_eq_None_iff image_Un)
  with s(3) show ?thesis by (simp add: lru_deref_def)
qed

text \<open>Storing an entry through \<^verbatim>\<open>put\<close> and writing through the reference.\<close>

lemma lru_put_assign:
  assumes inv: "lru_inv s" and put: "lru_put k v s = (a, s1)"
  shows "lru_deref s1 a = Some v"
    "lru_entries (lru_assign a w s1) = recency_put (lru_capacity s) k w (lru_entries s)"
    "lru_inv (lru_assign a w s1)" "lru_capacity (lru_assign a w s1) = lru_capacity s"
proof -
  have i: "map_of (lru_index s1) k = Some a" using lru_put_addr [of k v s] put by simp
  have s1: "lru_inv s1" using lru_put_inv [OF inv, of k v] put by simp
  have e: "lru_entries s1 = recency_put (lru_capacity s) k v (lru_entries s)"
    using lru_put_entries [OF inv, of k v] put by simp
  show "lru_deref s1 a = Some v"
    using e by (simp add: lru_deref_index [OF s1 i] recency_put_def lru_touch_def)
  have "map (\<lambda>e. if fst e = k then (k, w) else e) (filter (\<lambda>e. fst e \<noteq> k) es) =
      filter (\<lambda>e. fst e \<noteq> k) es" for es :: "('a \<times> 'b) list"
    by (auto intro!: map_idI)
  moreover have "map (\<lambda>e. if fst e = k then (k, w) else e) es = es" if "k \<notin> fst ` set es"
    for es :: "('a \<times> 'b) list"
    using that by (force intro!: map_idI)
  moreover have "k \<notin> fst ` set (butlast es)" if "k \<notin> fst ` set es" for es :: "('a \<times> 'b) list"
    using that by (auto dest: in_set_butlastD)
  ultimately show "lru_entries (lru_assign a w s1) = recency_put (lru_capacity s) k w (lru_entries s)"
    unfolding lru_assign_entries [OF s1 i] e by (simp add: recency_put_def lru_touch_def)
  show "lru_inv (lru_assign a w s1)" using s1 by (rule lru_assign_inv)
  show "lru_capacity (lru_assign a w s1) = lru_capacity s"
    using lru_put_capacity [of k v s] put by simp
qed

lemma lru_remove_inv:
  assumes inv: "lru_inv s" and k: "map_of (lru_index s) k = Some a"
  shows "lru_inv (s\<lparr>lru_items := filter (\<lambda>x. fst x \<noteq> a) (lru_items s),
    lru_index := AList.delete k (lru_index s)\<rparr>)"
proof -
  from lru_split [OF assms] obtain xs v ys where
    s: "lru_items s = xs @ (a, k, v) # ys" "a \<notin> fst ` set (xs @ ys)"
      "k \<notin> fst ` set (map snd xs @ map snd ys)" .
  let ?P = "set (map (\<lambda>(a, k, v). (k, a)) (xs @ ys))"
  have "\<forall>p\<in>?P. fst p \<noteq> k" using s(3) by force
  moreover have "set (lru_index s) = insert (k, a) ?P"
    using inv s(1) by (auto simp: lru_inv_def lru_addrs_def)
  ultimately have "set (AList.delete k (lru_index s)) = ?P"
    unfolding set_alist_delete by (auto simp del: set_map)
  then show ?thesis using inv s(1) s(2)
    by (auto simp: lru_inv_def lru_entries_def lru_addrs_def distinct_delete filter_neq_id image_Un)
qed

lemma lru_remove_entries:
  assumes inv: "lru_inv s" and k: "map_of (lru_index s) k = Some a"
  shows "map snd (filter (\<lambda>x. fst x \<noteq> a) (lru_items s)) = filter (\<lambda>e. fst e \<noteq> k) (lru_entries s)"
proof -
  from lru_split [OF assms] obtain xs v ys where
    s: "lru_items s = xs @ (a, k, v) # ys" "a \<notin> fst ` set (xs @ ys)"
      "k \<notin> fst ` set (map snd xs @ map snd ys)" .
  then have "filter (\<lambda>e. fst e \<noteq> k) (map snd xs) = map snd xs"
    "filter (\<lambda>e. fst e \<noteq> k) (map snd ys) = map snd ys"
    by (simp_all add: filter_neq_id image_Un)
  with s show ?thesis by (simp add: filter_neq_id lru_entries_def image_Un)
qed

lemma lru_erase_inv [wf_intros]: "lru_inv s \<Longrightarrow> lru_inv (snd (lru_erase k s))"
  by (auto simp: lru_erase_def lru_remove_inv split: option.split)

lemma lru_erase_entries:
  assumes "lru_inv s"
  shows "lru_entries (snd (lru_erase k s)) = filter (\<lambda>e. fst e \<noteq> k) (lru_entries s)"
    "fst (lru_erase k s) \<longleftrightarrow> k \<in> fst ` set (lru_entries s)"
  using assms lru_remove_entries [of s k] lru_index_None [OF assms, of k]
  by (auto simp: lru_erase_def lru_entries_def filter_neq_id split: option.split)

lemma lru_node_indexed:
  assumes "lru_inv s" "map_of (lru_items s) a = Some (k, v)"
  shows "map_of (lru_index s) k = Some a"
proof -
  have "(k, a) \<in> set (lru_index s)"
    using assms by (force simp: lru_inv_def lru_addrs_def dest: map_of_SomeD)
  then show ?thesis using assms(1) by (simp add: lru_inv_def)
qed

lemma lru_erase_at_inv [wf_intros]: "lru_inv s \<Longrightarrow> lru_inv (snd (lru_erase_at a s))"
  using lru_remove_inv [of s _ a] lru_node_indexed [of s a]
  by (auto simp: lru_erase_at_def split: option.split)

lemma lru_erase_at_entries:
  assumes "lru_inv s" "map_of (lru_items s) a = Some (k, v)"
  shows "lru_entries (snd (lru_erase_at a s)) = filter (\<lambda>e. fst e \<noteq> k) (lru_entries s)"
  using assms lru_remove_entries [OF assms(1) lru_node_indexed [OF assms]]
  by (simp add: lru_erase_at_def lru_entries_def)

text \<open>An iterator walk at the node between \<open>xs\<close> and \<open>ys\<close>.\<close>

lemma lru_walk:
  assumes "lru_inv s" "lru_items s = xs @ (a, k, v) # ys"
  shows "lru_deref s a = Some v"
    "lru_next_node a s = (case ys of [] \<Rightarrow> None | y # _ \<Rightarrow> Some (fst y))"
    "fst (lru_erase_at a s) = (case ys of [] \<Rightarrow> None | y # _ \<Rightarrow> Some (fst y))"
    "lru_items (snd (lru_erase_at a s)) = xs @ ys"
    "lru_capacity (snd (lru_erase_at a s)) = lru_capacity s"
proof -
  have a: "a \<notin> fst ` set xs" "a \<notin> fst ` set ys" using assms by (auto simp: lru_inv_def)
  then have m: "map_of (lru_items s) a = Some (k, v)"
    by (simp add: assms(2) map_add_Some_iff map_of_eq_None_iff)
  then show "lru_deref s a = Some v" by (simp add: lru_deref_def)
  have "dropWhile (\<lambda>x. fst x \<noteq> a) (xs @ (a, k, v) # ys) = (a, k, v) # ys"
    using a by (subst dropWhile_append2) auto
  then show n: "lru_next_node a s = (case ys of [] \<Rightarrow> None | y # _ \<Rightarrow> Some (fst y))"
    by (simp add: lru_next_node_def assms(2))
  then show "fst (lru_erase_at a s) = (case ys of [] \<Rightarrow> None | y # _ \<Rightarrow> Some (fst y))"
    by (simp add: lru_erase_at_def m)
  show "lru_items (snd (lru_erase_at a s)) = xs @ ys"
    using a by (simp add: lru_erase_at_def m) (simp add: assms(2) filter_neq_id)
  show "lru_capacity (snd (lru_erase_at a s)) = lru_capacity s"
    by (simp add: lru_erase_at_def m)
qed

lemma lru_clear_inv [wf_intros]: "lru_inv s \<Longrightarrow> lru_inv (lru_clear s)"
  by (simp add: lru_inv_def lru_clear_def lru_entries_def lru_addrs_def)

lemma lru_key_entries: "lru_key s = (if lru_entries s = [] then None else Some (fst (last (lru_entries s))))"
  by (simp add: lru_key_def lru_entries_def last_map)

lemma lru_size_entries: "lru_inv s \<Longrightarrow> lru_size s = length (lru_entries s)"
  by (simp add: lru_size_def lru_entries_def lru_length_index)

subsection \<open>The interface clients rely on\<close>

definition lru_lookup :: "'k \<Rightarrow> ('k, 'v) lru \<Rightarrow> 'v option \<times> ('k, 'v) lru" where
  "lru_lookup k s =
     (case lru_get k s of (None, s') \<Rightarrow> (None, s') | (Some a, s') \<Rightarrow> (lru_deref s' a, s'))"

definition lru_insert :: "'k \<Rightarrow> 'v \<Rightarrow> ('k, 'v) lru \<Rightarrow> ('k, 'v) lru" where
  "lru_insert k v s = snd (lru_put k v s)"

lemma map_of_filter_fst: "map_of (filter (\<lambda>e. fst e \<noteq> k) es) = (map_of es)(k := None)"
  by (induction es) (auto simp: fun_eq_iff)

text \<open>A key among the first \<open>i\<close> entries is among the first \<open>i + 1\<close> after any put.\<close>

lemma take_filter_mem:
  "x \<in> set (take i xs) \<Longrightarrow> P x \<Longrightarrow> x \<in> set (take i (filter P xs))"
proof (induction xs arbitrary: i)
  case Nil
  then show ?case by simp
next
  case (Cons y ys)
  show ?case
  proof (cases i)
    case 0
    then show ?thesis using Cons.prems by simp
  next
    case (Suc j)
    have "set (take j (filter P ys)) \<subseteq> set (take i (filter P ys))"
      by (rule set_take_subset_set_take) (simp add: Suc)
    then show ?thesis using Suc Cons by (auto split: if_splits)
  qed
qed

lemma recency_put_front:
  assumes "(k', w) \<in> set (take i es)" "k' \<noteq> k" "i < c" "length es \<le> c"
  shows "(k', w) \<in> set (take (Suc i) (recency_put c k v es))"
proof (cases "k \<in> fst ` set es")
  case True
  then show ?thesis
    using take_filter_mem [of "(k', w)" i es "\<lambda>e. fst e \<noteq> k"] assms
    by (simp add: recency_put_def lru_touch_def)
next
  case False
  moreover have "(k', w) \<in> set (take i (butlast es))" if "c \<le> length es"
    using assms that by (simp add: butlast_conv_take)
  ultimately show ?thesis using assms by (simp add: recency_put_def)
qed

locale recency_cache =
  fixes inv :: "'s \<Rightarrow> bool"
    and content :: "'s \<Rightarrow> ('k \<times> 'v) list"
    and cap :: "'s \<Rightarrow> nat"
    and get :: "'k \<Rightarrow> 's \<Rightarrow> 'v option \<times> 's"
    and put :: "'k \<Rightarrow> 'v \<Rightarrow> 's \<Rightarrow> 's"
  assumes keys_distinct: "inv s \<Longrightarrow> distinct (map fst (content s))"
    and size_le_cap: "inv s \<Longrightarrow> length (content s) \<le> cap s"
    and inv_get: "inv s \<Longrightarrow> inv (snd (get k s))"
    and inv_put: "inv s \<Longrightarrow> inv (put k v s)"
    and cap_get: "cap (snd (get k s)) = cap s"
    and cap_put: "cap (put k v s) = cap s"
    and get_result: "inv s \<Longrightarrow> fst (get k s) = map_of (content s) k"
    and get_content: "inv s \<Longrightarrow> content (snd (get k s)) =
      (case map_of (content s) k of None \<Rightarrow> content s | Some v \<Rightarrow> lru_touch k v (content s))"
    and put_content: "inv s \<Longrightarrow> content (put k v s) = recency_put (cap s) k v (content s)"
begin

lemma put_lookup: "inv s \<Longrightarrow> map_of (content (put k v s)) k = Some v"
  by (simp add: put_content recency_put_def lru_touch_def)

lemma get_after_put: "inv s \<Longrightarrow> fst (get k (put k v s)) = Some v"
  by (simp add: get_result inv_put put_lookup)

lemma get_keeps: "inv s \<Longrightarrow> map_of (content (snd (get k s))) = map_of (content s)"
  by (auto simp: get_content lru_touch_def fun_eq_iff map_of_filter_fst split: option.split)

lemma inv_puts: "inv s \<Longrightarrow> inv (fold (\<lambda>(k, v). put k v) kvs s)"
  by (induction kvs arbitrary: s) (auto intro: inv_put)

lemma put_survives:
  assumes "inv s" "(k, v) \<in> set (take i (content s))" "k \<notin> fst ` set kvs"
    and "i + length kvs \<le> cap s"
  shows "map_of (content (fold (\<lambda>(k, v). put k v) kvs s)) k = Some v"
  using assms
proof (induction kvs arbitrary: s i)
  case Nil
  then show ?case by (auto simp: keys_distinct dest: in_set_takeD)
next
  case (Cons kv kvs)
  obtain k' w where kv: "kv = (k', w)" by fastforce
  have "(k, v) \<in> set (take (Suc i) (content (put k' w s)))"
    using Cons.prems kv size_le_cap [OF Cons.prems(1)]
    by (simp add: put_content [OF Cons.prems(1)] recency_put_front)
  then show ?case
    using Cons.prems kv Cons.IH [of "put k' w s" "Suc i"] by (simp add: inv_put cap_put)
qed

lemma put_then_survives:
  assumes "inv s" "k \<notin> fst ` set kvs" "length kvs < cap s"
  shows "fst (get k (fold (\<lambda>(k, v). put k v) kvs (put k v s))) = Some v"
proof -
  have "(k, v) \<in> set (take 1 (content (put k v s)))"
    by (simp add: put_content [OF assms(1)] recency_put_def lru_touch_def)
  then show ?thesis
    using assms put_survives [of "put k v s" k v 1 kvs] by (simp add: get_result inv_put inv_puts cap_put)
qed

end

interpretation lru: recency_cache lru_inv lru_entries lru_capacity lru_lookup lru_insert
proof
  fix s :: "('a, 'b) lru" and k :: 'a and v :: 'b
  have snd_lookup: "snd (lru_lookup k s) = snd (lru_get k s)"
    by (auto simp: lru_lookup_def split: prod.splits option.splits)
  show "lru_capacity (snd (lru_lookup k s)) = lru_capacity s" by (simp add: snd_lookup)
  show "lru_capacity (lru_insert k v s) = lru_capacity s" by (simp add: lru_insert_def)
  assume inv: "lru_inv s"
  show "distinct (map fst (lru_entries s))" "length (lru_entries s) \<le> lru_capacity s"
    using inv by (simp_all add: lru_inv_def lru_entries_def)
  show "lru_inv (snd (lru_lookup k s))" using inv by (simp add: snd_lookup lru_get_inv)
  show "lru_inv (lru_insert k v s)" using inv by (simp add: lru_insert_def lru_put_inv)
  show "fst (lru_lookup k s) = map_of (lru_entries s) k"
    using lru_get_result [OF inv, of k] by (auto simp: lru_lookup_def split: prod.splits option.splits)
  show "lru_entries (snd (lru_lookup k s)) =
      (case map_of (lru_entries s) k of None \<Rightarrow> lru_entries s
       | Some v \<Rightarrow> lru_touch k v (lru_entries s))"
    using inv by (simp add: snd_lookup lru_get_entries)
  show "lru_entries (lru_insert k v s) = recency_put (lru_capacity s) k v (lru_entries s)"
    using inv by (simp add: lru_insert_def lru_put_entries)
qed

subsection \<open>Properties\<close>

text \<open>C40: Whatever the state, a put of a key refines the abstract recency list: the
  key moves to (or enters at) the front with the new value, and the entry at
  the back is dropped exactly when the key is new and the cache is full; the
  index/list invariant is kept, and the size never exceeds the capacity.\<close>

theorem lru_put_refines:
  assumes "lru_inv s"
  shows "lru_entries (snd (lru_put k v s)) =
      (if k \<in> fst ` set (lru_entries s) then (k, v) # filter (\<lambda>e. fst e \<noteq> k) (lru_entries s)
       else if lru_size s = lru_capacity s then (k, v) # butlast (lru_entries s)
       else (k, v) # lru_entries s)
    \<and> lru_inv (snd (lru_put k v s)) \<and> lru_size (snd (lru_put k v s)) \<le> lru_capacity s"
proof -
  have "lru_size s \<le> lru_capacity s"
    using lru.size_le_cap [OF assms] by (simp add: lru_size_entries [OF assms])
  moreover have inv': "lru_inv (snd (lru_put k v s))" using assms by (rule lru_put_inv)
  moreover have "lru_size (snd (lru_put k v s)) \<le> lru_capacity s"
    using lru.size_le_cap [OF inv'] by (simp add: lru_size_entries [OF inv'])
  ultimately show ?thesis
    by (auto simp: lru_put_entries [OF assms] recency_put_def lru_touch_def lru_size_entries [OF assms])
qed

theorem lru_put_refines_witness:
  "lru_entries (snd (lru_put 3 30 (lru_insert (2 :: nat) (20 :: nat) (lru_insert 7 70 (lru_new 2))))) =
     [(3, 30), (2, 20)]"
proof -
  let ?s = "lru_insert (2 :: nat) (20 :: nat) (lru_insert 7 70 (lru_new 2))"
  have inv: "lru_inv ?s" by (intro lru.inv_put lru_new_inv) simp
  have "lru_entries ?s = [(2, 20), (7, 70)]"
    by (simp add: lru.put_content lru.inv_put lru_new_inv lru.cap_put recency_put_def)
  then show ?thesis using lru_put_refines [OF inv, of 3 30]
    by (simp add: lru_size_entries [OF inv] lru.cap_put)
qed

text \<open>An entry just put is still returned by a later lookup after any sequence
  of puts of other keys that is shorter than the capacity: only genuinely
  least-recently-used entries are evicted.\<close>

theorem lru_recent_survives:
  assumes "lru_inv s" "k \<notin> fst ` set kvs" "length kvs < lru_capacity s"
  shows "fst (lru_lookup k (fold (\<lambda>(k, v). lru_insert k v) kvs (lru_insert k v s))) = Some v"
  using assms by (rule lru.put_then_survives)

theorem lru_recent_survives_witness:
  "fst (lru_lookup 7 (fold (\<lambda>(k, v). lru_insert k v) [(1 :: nat, 1 :: nat), (2, 2)]
     (lru_insert 7 70 (lru_new 3)))) = Some 70"
  by (rule lru_recent_survives) (simp_all add: lru_new_inv)

end
