(* ===== verification/Peer_Store.thy ===== *)
theory Peer_Store
  imports Addresses Lru_Cache
begin

section \<open>DHT peer store\<close>

text \<open>
  \<^verbatim>\<open>DhtPeerStore\<close> (\<^verbatim>\<open>dht_peer_store.h\<close>, \<^verbatim>\<open>dht_peer_store.cpp\<close>):
  an LRU cache of info hashes, each with an LRU cache of peers and the time
  each was last seen. Both levels are the cache of theory \<open>Lru_Cache\<close>; a
  \<^verbatim>\<open>HashBucket*\<close> is a node address of the outer one. The clock reading is
  the argument \<open>now\<close>.
\<close>

subsection \<open>State and operations\<close>

type_synonym hash_bucket = "(peer_address, time) lru"
type_synonym peer_store = "(info_hash, hash_bucket) lru"

definition PEER_ENTRY_TTL :: time where "PEER_ENTRY_TTL = minutes 30"
definition MAX_PEERS_PER_HASH :: nat where "MAX_PEERS_PER_HASH = 50"
definition MAX_INFO_HASHES :: nat where "MAX_INFO_HASHES = 10000"

definition new_bucket :: hash_bucket where
  "new_bucket = lru_new MAX_PEERS_PER_HASH"

definition new_store :: peer_store where
  "new_store = lru_new MAX_INFO_HASHES"

definition bucket_is_dead :: "time \<Rightarrow> hash_bucket \<Rightarrow> bool" where
  "bucket_is_dead now peers =
     (case lru_items peers of [] \<Rightarrow> True | (a, p, seen) # _ \<Rightarrow> now - seen \<ge> PEER_ENTRY_TTL)"

text \<open>
  The loop walks the recency list by iterator; the fuel, one unit per node
  present at its start, is enough because each round moves past one node.
\<close>

fun expire_loop :: "nat \<Rightarrow> time \<Rightarrow> addr option \<Rightarrow> peer_store \<Rightarrow> peer_store" where
  "expire_loop (Suc n) now (Some map_it) s =
     (case lru_deref s map_it of
        None \<Rightarrow> s
      | Some peers \<Rightarrow>
          if bucket_is_dead now peers then
            (let (map_it', s') = lru_erase_at map_it s in expire_loop n now map_it' s')
          else expire_loop n now (lru_next_node map_it s) s)"
| "expire_loop _ now _ s = s"

definition expire_stale :: "time \<Rightarrow> peer_store \<Rightarrow> peer_store" where
  "expire_stale now s = expire_loop (length (lru_items s)) now (lru_begin s) s"

definition ensure_bucket :: "info_hash \<Rightarrow> peer_store \<Rightarrow> peer_store" where
  "ensure_bucket h s =
     (case lru_get h s of
        (Some _, s1) \<Rightarrow> s1
      | (None, s1) \<Rightarrow> snd (lru_put h new_bucket s1))"

definition upsert :: "time \<Rightarrow> info_hash \<Rightarrow> peer_address \<Rightarrow> peer_store \<Rightarrow> peer_store" where
  "upsert now h pa s =
     (let (bucket, s1) =
        (case lru_get h s of
           (Some a, s1) \<Rightarrow> (a, s1)
         | (None, s1) \<Rightarrow> lru_put h new_bucket s1)
      in case lru_deref s1 bucket of
           None \<Rightarrow> s1
         | Some b \<Rightarrow> lru_assign bucket (snd (lru_put pa now b)) s1)"

definition live_peers :: "time \<Rightarrow> info_hash \<Rightarrow> peer_store \<Rightarrow> peer_address list \<times> peer_store" where
  "live_peers now h s =
     (case lru_get h s of
        (None, s1) \<Rightarrow> ([], s1)
      | (Some a, s1) \<Rightarrow>
          (case lru_deref s1 a of
             None \<Rightarrow> ([], s1)
           | Some b \<Rightarrow>
               (map fst (filter (\<lambda>(pa, last_seen). now - last_seen < PEER_ENTRY_TTL)
                  (map snd (lru_items b))), s1)))"

subsection \<open>Invariant\<close>

text \<open>
  Both levels satisfy the cache invariant at their capacities, and every
  bucket lists its peers from the latest seen to the earliest, none later than
  the last clock reading \<open>t\<close>.
\<close>

definition bucket_inv :: "time \<Rightarrow> hash_bucket \<Rightarrow> bool" where
  "bucket_inv t b \<longleftrightarrow>
     lru_inv b \<and> lru_capacity b = MAX_PEERS_PER_HASH \<and>
     sorted_wrt (\<ge>) (map snd (lru_entries b)) \<and> (\<forall>e\<in>set (lru_entries b). snd e \<le> t)"

definition store_inv :: "time \<Rightarrow> peer_store \<Rightarrow> bool" where
  "store_inv t s \<longleftrightarrow>
     lru_inv s \<and> lru_capacity s = MAX_INFO_HASHES \<and> (\<forall>e\<in>set (lru_entries s). bucket_inv t (snd e))"

definition store_peers :: "peer_store \<Rightarrow> info_hash \<Rightarrow> (peer_address \<times> time) list" where
  "store_peers s h = (case map_of (lru_entries s) h of None \<Rightarrow> [] | Some b \<Rightarrow> lru_entries b)"

lemma new_bucket_inv: "bucket_inv t new_bucket"
  by (simp add: bucket_inv_def new_bucket_def MAX_PEERS_PER_HASH_def lru_new_inv)

lemma new_store_inv: "store_inv t new_store"
  by (simp add: store_inv_def new_store_def MAX_INFO_HASHES_def lru_new_inv)

lemma recency_put_sorted:
  assumes "sorted_wrt (\<ge>) (map snd es)" "\<forall>e\<in>set es. snd e \<le> t" "t \<le> (now :: time)"
  shows "sorted_wrt (\<ge>) (map snd (recency_put c k now es))"
    "\<forall>e\<in>set (recency_put c k now es). snd e \<le> now"
proof -
  have "sorted_wrt (\<ge>) (map snd (filter P es))" "sorted_wrt (\<ge>) (map snd (butlast es))" for P
    using assms(1) by (auto simp: sorted_wrt_map sorted_wrt_filter butlast_conv_take sorted_wrt_take)
  moreover have le: "\<forall>e\<in>set es. snd e \<le> now" using assms(2,3) by force
  ultimately show "sorted_wrt (\<ge>) (map snd (recency_put c k now es))"
    using assms(1) by (auto simp: recency_put_def lru_touch_def dest: in_set_butlastD)
  show "\<forall>e\<in>set (recency_put c k now es). snd e \<le> now"
    using le by (auto simp: recency_put_def lru_touch_def dest: in_set_butlastD)
qed

lemma bucket_put_inv:
  "bucket_inv t b \<Longrightarrow> t \<le> now \<Longrightarrow> bucket_inv now (snd (lru_put pa now b))"
  using recency_put_sorted [of "lru_entries b" t now MAX_PEERS_PER_HASH pa]
  by (simp add: bucket_inv_def lru_put_inv lru_put_entries)

lemma bucket_inv_mono: "bucket_inv t b \<Longrightarrow> t \<le> now \<Longrightarrow> bucket_inv now b"
  by (force simp: bucket_inv_def)

subsection \<open>Operations on the abstract view\<close>

definition bucket_of :: "peer_store \<Rightarrow> info_hash \<Rightarrow> hash_bucket" where
  "bucket_of s h = (case map_of (lru_entries s) h of None \<Rightarrow> new_bucket | Some b \<Rightarrow> b)"

lemma bucket_of_inv: "store_inv t s \<Longrightarrow> bucket_inv t (bucket_of s h)"
  by (force simp: store_inv_def bucket_of_def new_bucket_inv split: option.split dest: map_of_SomeD)

lemma store_peers_bucket_of: "store_peers s h = lru_entries (bucket_of s h)"
  by (simp add: store_peers_def bucket_of_def new_bucket_def split: option.split)

lemma upsert_outer:
  fixes now :: time and h :: info_hash and pa :: peer_address
  assumes inv: "store_inv t s"
  defines "b \<equiv> snd (lru_put pa now (bucket_of s h))"
  shows "lru_entries (upsert now h pa s) = recency_put MAX_INFO_HASHES h b (lru_entries s)"
    "lru_inv (upsert now h pa s)" "lru_capacity (upsert now h pa s) = MAX_INFO_HASHES"
proof -
  have i: "lru_inv s" "lru_capacity s = MAX_INFO_HASHES" using inv by (auto simp: store_inv_def)
  obtain oa s1 where g: "lru_get h s = (oa, s1)" by fastforce
  have s1: "lru_inv s1" "lru_capacity s1 = MAX_INFO_HASHES"
    using lru_get_inv [OF i(1), of h] lru_get_capacity [of h s] i(2) g by auto
  have "lru_entries (upsert now h pa s) = recency_put MAX_INFO_HASHES h b (lru_entries s) \<and>
    lru_inv (upsert now h pa s) \<and> lru_capacity (upsert now h pa s) = MAX_INFO_HASHES"
  proof (cases oa)
    case None
    obtain a s2 where p: "lru_put h new_bucket s1 = (a, s2)" by fastforce
    have "s1 = s" using g None by (auto simp: lru_get_def split: option.splits)
    moreover have "map_of (lru_entries s) h = None"
      using lru_get_result [OF i(1), of h] g None by simp
    ultimately show ?thesis using lru_put_assign [OF s1(1) p] s1(2) g None p
      by (simp add: upsert_def b_def bucket_of_def)
  next
    case (Some a)
    have r: "lru_deref s1 a = map_of (lru_entries s) h"
      using lru_get_result [OF i(1), of h] g Some by simp
    have "map_of (lru_index s) h = Some a" using lru_get_addr [of h s] g Some by simp
    then have "h \<in> fst ` set (lru_entries s)" using lru_index_None [OF i(1), of h] by auto
    then obtain w where w: "map_of (lru_entries s) h = Some w"
      by (metis map_of_eq_None_iff not_Some_eq)
    show ?thesis
      using lru_get_assign_entries [OF i(1), of h a s1] s1 g Some r w \<open>h \<in> _\<close>
      by (simp add: upsert_def b_def bucket_of_def recency_put_def lru_assign_inv)
  qed
  then show "lru_entries (upsert now h pa s) = recency_put MAX_INFO_HASHES h b (lru_entries s)"
    "lru_inv (upsert now h pa s)" "lru_capacity (upsert now h pa s) = MAX_INFO_HASHES" by auto
qed

lemma set_recency_put: "e \<in> set (recency_put c k v es) \<Longrightarrow> e = (k, v) \<or> e \<in> set es"
  by (auto simp: recency_put_def lru_touch_def split: if_splits dest: in_set_butlastD)

lemma upsert_inv [wf_intros]:
  assumes inv: "store_inv t s" and now: "t \<le> now"
  shows "store_inv now (upsert now h pa s)"
proof -
  have "bucket_inv now (snd (lru_put pa now (bucket_of s h)))"
    using bucket_of_inv [OF inv] now by (rule bucket_put_inv)
  then show ?thesis
    using inv now unfolding store_inv_def upsert_outer [OF inv]
    by (auto simp: upsert_outer(2,3) [OF inv] dest!: set_recency_put intro: bucket_inv_mono)
qed

lemma upsert_peers:
  assumes "store_inv t s"
  shows "store_peers (upsert now h pa s) h = recency_put MAX_PEERS_PER_HASH pa now (store_peers s h)"
proof -
  have "store_peers (upsert now h pa s) h = lru_entries (snd (lru_put pa now (bucket_of s h)))"
    by (simp add: store_peers_def upsert_outer [OF assms] recency_put_def lru_touch_def)
  then show ?thesis
    using bucket_of_inv [OF assms, of h]
    by (simp add: bucket_inv_def lru_put_entries store_peers_bucket_of)
qed

lemma live_peers_result:
  assumes "store_inv t s"
  shows "fst (live_peers now h s) =
     map fst (filter (\<lambda>(pa, last_seen). now - last_seen < PEER_ENTRY_TTL) (store_peers s h))"
    "snd (live_peers now h s) = snd (lru_get h s)"
proof -
  have i: "lru_inv s" using assms by (simp add: store_inv_def)
  have r: "(case fst (lru_get h s) of None \<Rightarrow> None | Some a \<Rightarrow> lru_deref (snd (lru_get h s)) a) =
      map_of (lru_entries s) h" using i by (rule lru_get_result)
  show "fst (live_peers now h s) =
     map fst (filter (\<lambda>(pa, last_seen). now - last_seen < PEER_ENTRY_TTL) (store_peers s h))"
    using r by (auto simp: live_peers_def store_peers_def lru_entries_def split: prod.splits option.splits)
  show "snd (live_peers now h s) = snd (lru_get h s)"
    by (auto simp: live_peers_def split: prod.splits option.splits)
qed

lemma set_lru_touch: "map_of es k = Some v \<Longrightarrow> e \<in> set (lru_touch k v es) \<Longrightarrow> e \<in> set es"
  by (auto simp: lru_touch_def dest: map_of_SomeD)

lemma store_get_inv [wf_intros]:
  assumes "store_inv t s"
  shows "store_inv t (snd (lru_get h s))"
  using assms lru_get_inv [of s h] lru_get_entries [of s h]
  by (auto simp: store_inv_def split: option.splits dest: set_lru_touch)

lemma live_peers_inv [wf_intros]: "store_inv t s \<Longrightarrow> store_inv t (snd (live_peers now h s))"
  by (simp add: live_peers_result store_get_inv)

lemma ensure_bucket_inv [wf_intros]:
  assumes "store_inv t s"
  shows "store_inv t (ensure_bucket h s)"
proof -
  have g: "store_inv t (snd (lru_get h s))" using assms by (rule store_get_inv)
  moreover have "store_inv t (snd (lru_put h new_bucket s'))" if "store_inv t s'" for s'
    using that lru_put_inv [of s' h new_bucket] lru_put_entries [of s' h new_bucket] new_bucket_inv [of t]
    by (auto simp: store_inv_def dest!: set_recency_put)
  ultimately show ?thesis
    by (auto simp: ensure_bucket_def split: prod.splits option.splits)
qed

lemma ensure_bucket_present:
  assumes "store_inv t s"
  shows "h \<in> fst ` set (lru_entries (ensure_bucket h s))"
proof (cases "lru_get h s")
  case (Pair oa s1)
  have i: "lru_inv s" "lru_inv s1"
    using assms lru_get_inv [of s h] Pair by (auto simp: store_inv_def)
  show ?thesis
  proof (cases oa)
    case None
    then show ?thesis using Pair
      by (simp add: ensure_bucket_def lru_put_entries [OF i(2)] recency_put_def lru_touch_def)
  next
    case (Some a)
    then have "map_of (lru_index s1) h \<noteq> None"
      using Pair lru_get_addr [of h s] lru_get_index [of h s] by (metis fst_conv snd_conv option.distinct(1))
    then show ?thesis using Pair Some lru_index_None [OF i(2), of h]
      by (simp add: ensure_bucket_def)
  qed
qed

subsection \<open>Expiry\<close>

lemma expire_loop_items:
  assumes "lru_inv s" "lru_items s = xs @ ys" "length ys \<le> n"
    "it = (case ys of [] \<Rightarrow> None | y # _ \<Rightarrow> Some (fst y))"
  shows "lru_items (expire_loop n now it s) = xs @ filter (\<lambda>y. \<not> bucket_is_dead now (snd (snd y))) ys
    \<and> lru_inv (expire_loop n now it s) \<and> lru_capacity (expire_loop n now it s) = lru_capacity s"
  using assms
proof (induction ys arbitrary: n s xs it)
  case Nil
  then show ?case by (cases n) auto
next
  case (Cons y ys)
  obtain a k b where y: "y = (a, k, b)" by (cases y) auto
  obtain m where n: "n = Suc m" "length ys \<le> m" using Cons.prems(3) by (cases n) auto
  have w: "lru_items s = xs @ (a, k, b) # ys" using Cons.prems(2) y by simp
  note walk = lru_walk [OF Cons.prems(1) w]
  let ?s' = "snd (lru_erase_at a s)"
  have dead: "lru_items (expire_loop m now (fst (lru_erase_at a s)) ?s') =
      xs @ filter (\<lambda>y. \<not> bucket_is_dead now (snd (snd y))) ys
    \<and> lru_inv (expire_loop m now (fst (lru_erase_at a s)) ?s')
    \<and> lru_capacity (expire_loop m now (fst (lru_erase_at a s)) ?s') = lru_capacity s"
    using Cons.IH [of ?s' xs m] lru_erase_at_inv [OF Cons.prems(1)] walk n(2) by simp
  have alive: "lru_items (expire_loop m now (lru_next_node a s) s) =
      (xs @ [y]) @ filter (\<lambda>y. \<not> bucket_is_dead now (snd (snd y))) ys
    \<and> lru_inv (expire_loop m now (lru_next_node a s) s)
    \<and> lru_capacity (expire_loop m now (lru_next_node a s) s) = lru_capacity s"
    using Cons.IH [of s "xs @ [y]" m] Cons.prems(1) walk n(2) w y by simp
  show ?case using dead alive walk Cons.prems(4) y n(1) by (simp add: split_beta)
qed

lemma expire_stale_entries:
  assumes "lru_inv s"
  shows "lru_entries (expire_stale now s) = filter (\<lambda>e. \<not> bucket_is_dead now (snd e)) (lru_entries s)"
    "lru_inv (expire_stale now s)" "lru_capacity (expire_stale now s) = lru_capacity s"
  using expire_loop_items [OF assms, of "[]" "lru_items s" "length (lru_items s)" "lru_begin s" now]
  by (simp_all add: expire_stale_def lru_begin_def lru_entries_def filter_map comp_def)

lemma expire_stale_inv [wf_intros]: "store_inv t s \<Longrightarrow> store_inv t (expire_stale now s)"
  by (simp add: store_inv_def expire_stale_entries)

lemma bucket_is_dead_iff:
  assumes "bucket_inv t b"
  shows "bucket_is_dead now b \<longleftrightarrow> (\<forall>e\<in>set (lru_entries b). now - snd e \<ge> PEER_ENTRY_TTL)"
proof (cases "lru_items b")
  case Nil
  then show ?thesis by (simp add: bucket_is_dead_def lru_entries_def)
next
  case (Cons x xs)
  then have "\<forall>e\<in>set (map snd xs). snd e \<le> snd (snd x)"
    using assms by (auto simp: bucket_inv_def lru_entries_def)
  then show ?thesis using Cons
    by (auto simp: bucket_is_dead_def lru_entries_def split: prod.splits)
qed

subsection \<open>Runs of the store\<close>

text \<open>
  The store under any sequence of calls with a monotone clock: every reachable
  state satisfies the invariant at the time of the last reading.
\<close>

inductive store_run :: "time \<Rightarrow> peer_store \<Rightarrow> bool" where
  start: "store_run t new_store"
| upsert_step: "store_run t s \<Longrightarrow> t \<le> now \<Longrightarrow> store_run now (upsert now h pa s)"
| live_step: "store_run t s \<Longrightarrow> t \<le> now \<Longrightarrow> store_run now (snd (live_peers now h s))"
| ensure_step: "store_run t s \<Longrightarrow> store_run t (ensure_bucket h s)"
| expire_step: "store_run t s \<Longrightarrow> t \<le> now \<Longrightarrow> store_run now (expire_stale now s)"

lemma store_inv_mono: "store_inv t s \<Longrightarrow> t \<le> now \<Longrightarrow> store_inv now s"
  by (auto simp: store_inv_def intro: bucket_inv_mono)

lemma store_run_inv: "store_run t s \<Longrightarrow> store_inv t s"
  by (induction rule: store_run.induct)
    (auto intro: wf_intros store_inv_mono new_store_inv)

subsection \<open>Properties\<close>

text \<open>In every state the store can reach, each info hash holds at most 50
  peers with distinct addresses, ordered from the latest seen to the earliest,
  and there are at most 10,000 info hashes.\<close>

theorem store_run_bounded:
  assumes "store_run t s"
  shows "lru_size s \<le> 10000 \<and> length (store_peers s h) \<le> 50 \<and>
    distinct (map fst (store_peers s h)) \<and> sorted_wrt (\<ge>) (map snd (store_peers s h))"
proof -
  have inv: "store_inv t s" using assms by (rule store_run_inv)
  have i: "lru_inv s" using inv by (simp add: store_inv_def)
  have b: "bucket_inv t (bucket_of s h)" using inv by (rule bucket_of_inv)
  then have bi: "lru_inv (bucket_of s h)" by (simp add: bucket_inv_def)
  show ?thesis
    using lru.size_le_cap [OF i] lru.size_le_cap [OF bi] lru.keys_distinct [OF bi] inv b
    by (simp add: lru_size_entries [OF i] store_inv_def bucket_inv_def store_peers_bucket_of
        MAX_INFO_HASHES_def MAX_PEERS_PER_HASH_def)
qed

theorem store_run_bounded_witness:
  "length (store_peers (upsert 5 [1] (PeerAddress (str ''1.2.3.4'') 80) new_store) [1]) \<le> 50"
  using store_run_bounded [OF upsert_step [OF start], of 0 5 "[1]" "PeerAddress (str ''1.2.3.4'') 80" "[1]"]
  by simp

text \<open>A peer recorded by upsert is among the live peers reported for its info
  hash until the 30-minute lifetime has passed, and everything reported was
  seen within the lifetime.\<close>

theorem upsert_then_live:
  assumes "store_run t s" "t \<le> now" "now \<le> later" "later - now < PEER_ENTRY_TTL"
  shows "pa \<in> set (fst (live_peers later h (upsert now h pa s))) \<and>
    (\<forall>p\<in>set (fst (live_peers later h (upsert now h pa s))).
       \<exists>seen. (p, seen) \<in> set (store_peers (upsert now h pa s) h) \<and> later - seen < PEER_ENTRY_TTL)"
proof -
  have inv: "store_inv now (upsert now h pa s)"
    using store_run_inv [OF assms(1)] assms(2) by (rule upsert_inv)
  have "(pa, now) \<in> set (store_peers (upsert now h pa s) h)"
    by (simp add: upsert_peers [OF store_run_inv [OF assms(1)]] recency_put_def lru_touch_def)
  then show ?thesis using assms(4) by (force simp: live_peers_result [OF inv])
qed

theorem upsert_then_live_witness:
  "PeerAddress (str ''1.2.3.4'') 80 \<in>
     set (fst (live_peers (minutes 20) [1] (upsert 0 [1] (PeerAddress (str ''1.2.3.4'') 80) new_store)))"
  using upsert_then_live [OF start, of 0 0 "minutes 20" "PeerAddress (str ''1.2.3.4'') 80" "[1]"]
  by (simp add: PEER_ENTRY_TTL_def minutes_def)

text \<open>expire_stale looks only at the front entry of each bucket, yet in every
  reachable state it drops exactly the info hashes that have no live peer left
  and keeps the others, in order and unchanged.\<close>

theorem expire_stale_exact:
  assumes "store_run t s"
  shows "lru_entries (expire_stale now s) =
    filter (\<lambda>(h, b). \<exists>e\<in>set (lru_entries b). now - snd e < PEER_ENTRY_TTL) (lru_entries s)"
proof -
  have inv: "store_inv t s" using assms by (rule store_run_inv)
  have "bucket_is_dead now (snd e) \<longleftrightarrow> (\<forall>x\<in>set (lru_entries (snd e)). now - snd x \<ge> PEER_ENTRY_TTL)"
    if "e \<in> set (lru_entries s)" for e
    using that inv by (intro bucket_is_dead_iff [of t]) (simp add: store_inv_def)
  moreover have "lru_inv s" using inv by (simp add: store_inv_def)
  ultimately show ?thesis
    by (auto simp: expire_stale_entries not_le intro!: filter_cong) force+
qed

theorem expire_stale_exact_witness:
  "lru_entries (expire_stale (minutes 40) (upsert 0 [1] (PeerAddress (str ''1.2.3.4'') 80) new_store)) = []"
proof -
  let ?pa = "PeerAddress (str ''1.2.3.4'') 80"
  have e: "lru_entries new_store = []" "lru_entries new_bucket = []"
    by (simp_all add: new_store_def new_bucket_def)
  have "lru_inv new_bucket" using new_bucket_inv by (simp add: bucket_inv_def)
  then have "lru_entries (snd (lru_put ?pa 0 new_bucket)) = [(?pa, 0)]"
    by (simp add: lru_put_entries e recency_put_def)
  moreover have "lru_entries (upsert 0 [1] ?pa new_store) = [([1], snd (lru_put ?pa 0 new_bucket))]"
    by (simp add: upsert_outer(1) [OF new_store_inv] recency_put_def e bucket_of_def)
  moreover have "store_run 0 (upsert 0 [1] ?pa new_store)"
    by (rule upsert_step [OF start [of 0]]) simp
  ultimately show ?thesis using expire_stale_exact [of 0 "upsert 0 [1] ?pa new_store" "minutes 40"]
    by (simp add: PEER_ENTRY_TTL_def minutes_def)
qed

end
