(* ===== verification/Token_Rotator.thy ===== *)
theory Token_Rotator
  imports Prelude
begin

section \<open>Announce tokens\<close>

text \<open>
  \<^verbatim>\<open>TokenSecretRotator\<close> (\<^verbatim>\<open>token_secret_rotator.h/.cpp\<close>): tokens
  SHA1(secret + address bytes), a secret that rotates, and the previous secret
  kept valid for ten minutes. SHA-1 (OpenSSL) and the two \<^verbatim>\<open>inet_pton\<close>
  conversions are parameters; each fresh random secret is an argument of the
  rotation, and the clock reading is \<open>now\<close>.
\<close>

subsection \<open>State and operations\<close>

record token_rotator =
  tr_interval :: time
  tr_current :: bytes
  tr_prev :: bytes
  tr_last_rotation :: time
  tr_prev_expires :: time

definition DEFAULT_ROTATION_INTERVAL :: time where "DEFAULT_ROTATION_INTERVAL = minutes 5"
definition PREV_SECRET_TTL :: time where "PREV_SECRET_TTL = minutes 10"

definition ip_address_bytes ::
    "(bytes \<Rightarrow> bytes option) \<Rightarrow> (bytes \<Rightarrow> bytes option) \<Rightarrow> bytes \<Rightarrow> bytes" where
  "ip_address_bytes pton4 pton6 ip =
     (case pton4 ip of
        Some v4 \<Rightarrow> v4
      | None \<Rightarrow> (case pton6 ip of Some v6 \<Rightarrow> v6 | None \<Rightarrow> []))"

definition tr_new :: "time \<Rightarrow> bytes \<Rightarrow> time \<Rightarrow> token_rotator" where
  "tr_new interval secret now =
     \<lparr>tr_interval = interval, tr_current = secret, tr_prev = [], tr_last_rotation = now,
      tr_prev_expires = 0\<rparr>"

definition compute_token ::
    "(bytes \<Rightarrow> bytes) \<Rightarrow> (bytes \<Rightarrow> bytes) \<Rightarrow> bytes \<Rightarrow> bytes \<Rightarrow> bytes" where
  "compute_token sha1 ip_bytes secret ip = sha1 (secret @ ip_bytes ip)"

definition rotate_if_needed :: "time \<Rightarrow> bytes \<Rightarrow> token_rotator \<Rightarrow> token_rotator" where
  "rotate_if_needed now fresh s =
     (if now - tr_last_rotation s < tr_interval s then s
      else s\<lparr>tr_prev := tr_current s, tr_prev_expires := now + PREV_SECRET_TTL,
             tr_current := fresh, tr_last_rotation := now\<rparr>)"

definition issue_token ::
    "(bytes \<Rightarrow> bytes) \<Rightarrow> (bytes \<Rightarrow> bytes) \<Rightarrow> bytes \<Rightarrow> token_rotator \<Rightarrow> bytes" where
  "issue_token sha1 ip_bytes ip s = compute_token sha1 ip_bytes (tr_current s) ip"

definition verify_token ::
    "(bytes \<Rightarrow> bytes) \<Rightarrow> (bytes \<Rightarrow> bytes) \<Rightarrow> time \<Rightarrow> bytes \<Rightarrow> bytes \<Rightarrow> token_rotator \<Rightarrow> bool" where
  "verify_token sha1 ip_bytes now token ip s =
     (if token = compute_token sha1 ip_bytes (tr_current s) ip then True
      else if tr_prev s \<noteq> [] \<and> now < tr_prev_expires s \<and>
              token = compute_token sha1 ip_bytes (tr_prev s) ip then True
      else False)"

subsection \<open>Sequences of rotation calls\<close>

definition rotations :: "(time \<times> bytes) list \<Rightarrow> token_rotator \<Rightarrow> token_rotator" where
  "rotations calls s = fold (\<lambda>(now, fresh). rotate_if_needed now fresh) calls s"

text \<open>
  What holds of the state reached from one whose current secret was \<open>sec\<close> at
  time \<open>t\<close>: either that secret is still the current one, or it is the
  previous one, retired no earlier than \<open>t\<close>.
\<close>

definition retains :: "time \<Rightarrow> time \<Rightarrow> bytes \<Rightarrow> token_rotator \<Rightarrow> bool" where
  "retains t i sec s \<longleftrightarrow> tr_interval s = i \<and>
     (tr_current s = sec \<or>
      (tr_prev s = sec \<and> t \<le> tr_last_rotation s \<and> tr_prev_expires s = tr_last_rotation s + PREV_SECRET_TTL))"

lemma retains_rotate:
  "retains t i sec s \<Longrightarrow> t \<le> now \<Longrightarrow> now < t + i \<Longrightarrow> retains t i sec (rotate_if_needed now fresh s)"
  by (auto simp: retains_def rotate_if_needed_def)

lemma retains_rotations:
  "retains t i sec s \<Longrightarrow> \<forall>c\<in>set calls. t \<le> fst c \<and> fst c < t + i \<Longrightarrow>
   retains t i sec (rotations calls s)"
proof (induction calls arbitrary: s)
  case Nil
  then show ?case by (simp add: rotations_def)
next
  case (Cons c calls)
  then have "retains t i sec (rotate_if_needed (fst c) (snd c) s)" by (auto intro: retains_rotate)
  then have "retains t i sec (rotations calls (rotate_if_needed (fst c) (snd c) s))"
    using Cons by auto
  then show ?case by (simp add: rotations_def split_beta)
qed

subsection \<open>Properties\<close>

text \<open>A token issued to an address is accepted from that address for at least
  one whole rotation interval, whatever rotation calls happen in between and
  whatever fresh secrets they draw.\<close>

theorem token_valid_for_interval:
  assumes "tr_current s \<noteq> []" "tr_interval s \<le> PREV_SECRET_TTL"
    and "\<forall>c\<in>set calls. t \<le> fst c \<and> fst c \<le> now" "now < t + tr_interval s"
  shows "verify_token sha1 ip_bytes now (issue_token sha1 ip_bytes ip s) ip (rotations calls s)"
proof -
  have "retains t (tr_interval s) (tr_current s) (rotations calls s)"
    using assms by (intro retains_rotations) (auto simp: retains_def)
  then show ?thesis using assms
    by (auto simp: verify_token_def issue_token_def retains_def)
qed

theorem token_valid_for_interval_witness:
  "verify_token id id (minutes 4) (issue_token id id [1] (tr_new DEFAULT_ROTATION_INTERVAL [9] (- minutes 3))) [1]
     (rotations [(minutes 2, [8]), (minutes 3, [7])] (tr_new DEFAULT_ROTATION_INTERVAL [9] (- minutes 3)))"
  by (rule token_valid_for_interval [where t = 0])
    (simp_all add: tr_new_def DEFAULT_ROTATION_INTERVAL_def PREV_SECRET_TTL_def minutes_def)

text \<open>When SHA-1 has no collision among the strings compared, a token is accepted
  only from the address it was issued to and only while the secret it was made with is the current
  one or the unexpired previous one (secrets are 20 bytes).\<close>

theorem verify_token_only_live_secrets:
  assumes "inj_on sha1 {secret @ ip_bytes issued_to, tr_current s @ ip_bytes ip, tr_prev s @ ip_bytes ip}"
    and "length secret = 20" "length (tr_current s) = 20" "tr_prev s = [] \<or> length (tr_prev s) = 20"
    and "verify_token sha1 ip_bytes now (compute_token sha1 ip_bytes secret issued_to) ip s"
  shows "ip_bytes issued_to = ip_bytes ip \<and>
    (secret = tr_current s \<or> (secret = tr_prev s \<and> now < tr_prev_expires s))"
  using assms by (auto simp: verify_token_def compute_token_def split: if_splits)

theorem verify_token_only_live_secrets_witness:
  "\<not> verify_token id id 0 (compute_token id id (replicate 20 1) [7]) [8]
      (tr_new DEFAULT_ROTATION_INTERVAL (replicate 20 1) 0)"
proof
  assume "verify_token id id 0 (compute_token id id (replicate 20 1) [7]) [8]
      (tr_new DEFAULT_ROTATION_INTERVAL (replicate 20 1) 0)"
  then have "id [7 :: byte] = id [8 :: byte]"
    by (intro verify_token_only_live_secrets
          [of id "replicate 20 1" id "[7]" "tr_new DEFAULT_ROTATION_INTERVAL (replicate 20 1) 0" "[8]" 0,
            THEN conjunct1])
      (simp_all add: tr_new_def)
  then show False by simp
qed

end
