(* ===== verification/Announce_Coordinator.thy ===== *)
theory Announce_Coordinator
  imports Addresses
begin

section \<open>Announce coordinator\<close>

text \<open>
  \<^verbatim>\<open>AnnounceCoordinator\<close> (\<^verbatim>\<open>announce_coordinator.h/.cpp\<close>): the torrents
  announced on the DHT and the tokens remote nodes have handed out. The two
  hash maps are association lists with distinct keys; the order of a list
  stands for the map's iteration order. Tokens are kept per node address, not
  per info hash.
\<close>

record registered_torrent =
  rg_listen_port :: "16 word"
  rg_last_refresh :: time
  rg_initial_lookup_pending :: bool

record announce_request =
  aq_pa :: peer_address
  aq_info_hash :: info_hash
  aq_listen_port :: "16 word"
  aq_token :: bytes

record announce_coordinator =
  ac_registered :: "(info_hash \<times> registered_torrent) list"
  ac_tokens :: "(peer_address \<times> bytes) list"

definition kAnnounceRefreshInterval :: time where "kAnnounceRefreshInterval = minutes 12"

definition ac_new :: announce_coordinator where
  "ac_new = \<lparr>ac_registered = [], ac_tokens = []\<rparr>"

definition register_torrent ::
    "time \<Rightarrow> info_hash \<Rightarrow> 16 word \<Rightarrow> announce_coordinator \<Rightarrow> announce_coordinator" where
  "register_torrent now h p s =
     s\<lparr>ac_registered := AList.update h
        \<lparr>rg_listen_port = p, rg_last_refresh = now, rg_initial_lookup_pending = True\<rparr> (ac_registered s)\<rparr>"

definition unregister_torrent :: "info_hash \<Rightarrow> announce_coordinator \<Rightarrow> announce_coordinator" where
  "unregister_torrent h s = s\<lparr>ac_registered := AList.delete h (ac_registered s)\<rparr>"

definition ac_clear :: "announce_coordinator \<Rightarrow> announce_coordinator" where
  "ac_clear s = s\<lparr>ac_registered := [], ac_tokens := []\<rparr>"

definition on_get_peers_response ::
    "info_hash \<Rightarrow> peer_address \<Rightarrow> bytes \<Rightarrow> announce_coordinator \<Rightarrow> announce_request list
     \<Rightarrow> announce_coordinator \<times> announce_request list" where
  "on_get_peers_response h pa token s out =
     (if token = [] then (s, out)
      else
        let s1 = s\<lparr>ac_tokens := AList.update pa token (ac_tokens s)\<rparr> in
        case map_of (ac_registered s1) h of
          None \<Rightarrow> (s1, out)
        | Some r \<Rightarrow>
            (s1, out @ [\<lparr>aq_pa = pa, aq_info_hash = h, aq_listen_port = rg_listen_port r, aq_token = token\<rparr>]))"

definition collect_announce_all ::
    "info_hash \<Rightarrow> 16 word \<Rightarrow> announce_coordinator \<Rightarrow> announce_request list \<Rightarrow> announce_request list" where
  "collect_announce_all h p s out =
     out @ map (\<lambda>(pa, token). \<lparr>aq_pa = pa, aq_info_hash = h, aq_listen_port = p, aq_token = token\<rparr>) (ac_tokens s)"

definition torrents_needing_refresh :: "time \<Rightarrow> announce_coordinator \<Rightarrow> info_hash list" where
  "torrents_needing_refresh now s =
     map fst (filter (\<lambda>(h, r). now - rg_last_refresh r \<ge> kAnnounceRefreshInterval) (ac_registered s))"

definition mark_refreshed :: "info_hash \<Rightarrow> time \<Rightarrow> announce_coordinator \<Rightarrow> announce_coordinator" where
  "mark_refreshed h now s =
     (case map_of (ac_registered s) h of
        None \<Rightarrow> s
      | Some r \<Rightarrow> s\<lparr>ac_registered := AList.update h (r\<lparr>rg_last_refresh := now\<rparr>) (ac_registered s)\<rparr>)"

definition torrents_needing_initial_lookup :: "announce_coordinator \<Rightarrow> info_hash list" where
  "torrents_needing_initial_lookup s =
     map fst (filter (\<lambda>(h, r). rg_initial_lookup_pending r) (ac_registered s))"

definition mark_initial_lookup_started :: "info_hash \<Rightarrow> announce_coordinator \<Rightarrow> announce_coordinator" where
  "mark_initial_lookup_started h s =
     (case map_of (ac_registered s) h of
        None \<Rightarrow> s
      | Some r \<Rightarrow>
          s\<lparr>ac_registered := AList.update h (r\<lparr>rg_initial_lookup_pending := False\<rparr>) (ac_registered s)\<rparr>)"

subsection \<open>Invariant\<close>

definition ac_inv :: "announce_coordinator \<Rightarrow> bool" where
  "ac_inv s \<longleftrightarrow> distinct (map fst (ac_registered s)) \<and> distinct (map fst (ac_tokens s)) \<and>
     (\<forall>x\<in>set (ac_tokens s). snd x \<noteq> [])"

lemma set_update_snd: "x \<in> set (AList.update k v m) \<Longrightarrow> x = (k, v) \<or> x \<in> set m"
  by (induction m) (auto split: if_splits)

lemma ac_new_inv [wf_intros]: "ac_inv ac_new"
  by (simp add: ac_inv_def ac_new_def)

lemma ac_inv_preserved [wf_intros]:
  assumes "ac_inv s"
  shows "ac_inv (register_torrent now h p s)" "ac_inv (unregister_torrent h s)" "ac_inv (ac_clear s)"
    "ac_inv (fst (on_get_peers_response h pa token s out))" "ac_inv (mark_refreshed h now s)"
    "ac_inv (mark_initial_lookup_started h s)"
  using assms
  by (auto simp: ac_inv_def register_torrent_def unregister_torrent_def ac_clear_def
      on_get_peers_response_def mark_refreshed_def mark_initial_lookup_started_def
      distinct_update distinct_delete Let_def split: option.split dest!: set_update_snd)

lemma in_needing_refresh:
  assumes "ac_inv s"
  shows "h \<in> set (torrents_needing_refresh now s) \<longleftrightarrow>
    (\<exists>r. map_of (ac_registered s) h = Some r \<and> now - rg_last_refresh r \<ge> kAnnounceRefreshInterval)"
  using assms by (auto simp: torrents_needing_refresh_def ac_inv_def image_iff)

subsection \<open>Properties\<close>

text \<open>A get_peers response with a token from a node leads to exactly one announce
  to that node, with the registered port and the token just received, when the
  torrent is registered, and to none otherwise; an empty token changes nothing.\<close>

theorem response_announces_iff_registered:
  "snd (on_get_peers_response h pa token s out) =
     out @ (case map_of (ac_registered s) h of
              Some r \<Rightarrow> if token = [] then [] else
                [\<lparr>aq_pa = pa, aq_info_hash = h, aq_listen_port = rg_listen_port r, aq_token = token\<rparr>]
            | None \<Rightarrow> []) \<and>
   map_of (ac_tokens (fst (on_get_peers_response h pa token s out))) =
     (if token = [] then map_of (ac_tokens s) else (map_of (ac_tokens s))(pa \<mapsto> token))"
  by (simp add: on_get_peers_response_def Let_def update_conv' split: option.split)

text \<open>A registered torrent is due for a refresh exactly from 12 minutes after its
  registration or its last refresh on, and a refresh postpones it: right after
  mark_refreshed at a time it is not due until 12 minutes later.\<close>

theorem refresh_schedule:
  assumes "ac_inv s"
  shows "(h \<in> set (torrents_needing_refresh now (register_torrent t h p s)) \<longleftrightarrow> now - t \<ge> minutes 12) \<and>
    (h \<in> fst ` set (ac_registered s) \<longrightarrow>
       (h \<in> set (torrents_needing_refresh now (mark_refreshed h t s)) \<longleftrightarrow> now - t \<ge> minutes 12))"
proof
  have "ac_inv (register_torrent t h p s)" "ac_inv (mark_refreshed h t s)"
    using assms by (auto intro: wf_intros)
  note n = this [THEN in_needing_refresh]
  show "h \<in> set (torrents_needing_refresh now (register_torrent t h p s)) \<longleftrightarrow> now - t \<ge> minutes 12"
    unfolding n by (simp add: register_torrent_def update_conv' kAnnounceRefreshInterval_def)
  show "h \<in> fst ` set (ac_registered s) \<longrightarrow>
      (h \<in> set (torrents_needing_refresh now (mark_refreshed h t s)) \<longleftrightarrow> now - t \<ge> minutes 12)"
  proof
    assume "h \<in> fst ` set (ac_registered s)"
    then obtain r where "map_of (ac_registered s) h = Some r"
      by (metis map_of_eq_None_iff not_Some_eq)
    then show "h \<in> set (torrents_needing_refresh now (mark_refreshed h t s)) \<longleftrightarrow> now - t \<ge> minutes 12"
      unfolding n by (simp add: mark_refreshed_def update_conv' kAnnounceRefreshInterval_def)
  qed
qed

theorem refresh_schedule_witness:
  "[1] \<notin> set (torrents_needing_refresh (minutes 11) (register_torrent 0 [1] 6881 ac_new))"
  using refresh_schedule [OF ac_new_inv, of "[1]" "minutes 11" 0 6881] by (simp add: minutes_def)

end
