(* ===== verification/Dht_Client.thy ===== *)
theory Dht_Client
  imports Lookup_Manager Peer_Store Token_Rotator Announce_Coordinator
begin

section \<open>DHT client\<close>

text \<open>
  \<^verbatim>\<open>DhtClient\<close> (\<^verbatim>\<open>dht_client.h/.cpp\<close>): the state that combines the
  routing table, the lookup manager, the peer store, the token rotator and the
  announce coordinator, and the handlers that run when a datagram arrives, when
  a timer fires or when the torrent layer calls. A datagram handed to the UDP
  socket is appended to \<open>dc_sent\<close>, a call of the peer callback to
  \<open>dc_callbacks\<close>. What the code takes from its surroundings is the record
  \<open>dht_env\<close>: the random transaction identifiers, secrets and bits by number
  of draw, SHA-1, the address conversion, and the first IPv4 address DNS gives
  for a host. Each handler reads the clock once, as \<open>now\<close>. Threads
  and logging are left out, except where a log call changes state
  (\<^verbatim>\<open>log_get_peers_lookup_completed\<close>); starting and stopping with the persisted
  routing table are in \<open>Dht_Node\<close>.
\<close>

subsection \<open>State\<close>

record dht_env =
  en_txn :: "nat \<Rightarrow> bytes"
  en_secret :: "nat \<Rightarrow> bytes"
  en_bits :: "nat \<Rightarrow> nat \<Rightarrow> bool"
  en_sha1 :: "bytes \<Rightarrow> bytes"
  en_ip_bytes :: "bytes \<Rightarrow> bytes"
  en_dns :: "bytes \<Rightarrow> 16 word \<Rightarrow> bytes option"

record dht_client =
  dc_self :: node_id
  dc_table :: routing_table
  dc_lookups :: lookup_manager
  dc_peers :: peer_store
  dc_tokens :: token_rotator
  dc_announce :: announce_coordinator
  dc_running :: bool
  dc_socket_open :: bool
  dc_last_bootstrap :: time
  dc_last_lookup_tick :: time
  dc_bootstrap_start :: time
  dc_bootstrap_skipped :: bool
  dc_bootstrap_complete :: bool
  dc_bootstrap_latency :: time
  dc_bootstrap_on_start :: bool
  dc_refresh_cursor :: nat
  dc_secret_draws :: nat
  dc_bit_draws :: nat
  dc_sent :: "(bytes \<times> peer_address) list"
  dc_callbacks :: "(bytes \<times> peer_address) list"

definition MAX_BUCKETS_REFRESH_PER_TICK :: nat where "MAX_BUCKETS_REFRESH_PER_TICK = 3"
definition LOOKUP_TICK_INTERVAL :: time where "LOOKUP_TICK_INTERVAL = seconds 5"
definition BOOTSTRAP_RETRY_INTERVAL :: time where "BOOTSTRAP_RETRY_INTERVAL = minutes 2"

definition BOOTSTRAP_NODES :: "(bytes \<times> 16 word) list" where
  "BOOTSTRAP_NODES =
     [(str ''dht.libtorrent.org'', 25401), (str ''dht.libtorrent.org'', 6881),
      (str ''dht.transmissionbt.com'', 6881), (str ''router.bittorrent.com'', 6881),
      (str ''router.utorrent.com'', 6881)]"

text \<open>The state of a constructed client, before \<^verbatim>\<open>start\<close>.\<close>

definition dc_new :: "dht_env \<Rightarrow> time \<Rightarrow> node_id \<Rightarrow> dht_client" where
  "dc_new en now self_id =
     \<lparr>dc_self = self_id, dc_table = rt_new self_id, dc_lookups = lm_new self_id, dc_peers = new_store,
      dc_tokens = tr_new DEFAULT_ROTATION_INTERVAL (en_secret en 0) now, dc_announce = ac_new,
      dc_running = False, dc_socket_open = False, dc_last_bootstrap = 0, dc_last_lookup_tick = 0,
      dc_bootstrap_start = 0, dc_bootstrap_skipped = False, dc_bootstrap_complete = False,
      dc_bootstrap_latency = - seconds 1, dc_bootstrap_on_start = True, dc_refresh_cursor = 0,
      dc_secret_draws = 1, dc_bit_draws = 0, dc_sent = [], dc_callbacks = []\<rparr>"

subsection \<open>Sending and small helpers\<close>

definition send_krpc :: "bytes \<Rightarrow> peer_address \<Rightarrow> dht_client \<Rightarrow> dht_client" where
  "send_krpc msg pa c =
     (if \<not> dc_socket_open c then c else c\<lparr>dc_sent := dc_sent c @ [(msg, pa)]\<rparr>)"

definition send_all :: "outbound_krpc list \<Rightarrow> dht_client \<Rightarrow> dht_client" where
  "send_all os c = fold (\<lambda>(msg, pa). send_krpc msg pa) os c"

definition draw_txn :: "dht_env \<Rightarrow> dht_client \<Rightarrow> bytes \<times> dht_client" where
  "draw_txn en c =
     (en_txn en (lm_draws (dc_lookups c)),
      c\<lparr>dc_lookups := (dc_lookups c)\<lparr>lm_draws := Suc (lm_draws (dc_lookups c))\<rparr>\<rparr>)"

definition invoke_peer_callback :: "bytes \<Rightarrow> peer_address \<Rightarrow> dht_client \<Rightarrow> dht_client" where
  "invoke_peer_callback h pa c = c\<lparr>dc_callbacks := dc_callbacks c @ [(h, pa)]\<rparr>"

definition count_good_routing_entries :: "time \<Rightarrow> dht_client \<Rightarrow> nat" where
  "count_good_routing_entries now c = length (filter (is_good now) (rt_all (dc_table c)))"

definition maybe_mark_bootstrap_complete :: "time \<Rightarrow> dht_client \<Rightarrow> dht_client" where
  "maybe_mark_bootstrap_complete now c =
     (if dc_bootstrap_complete c then c
      else if count_good_routing_entries now c = 0 then c
      else
        let c1 = c\<lparr>dc_bootstrap_complete := True\<rparr> in
        if dc_bootstrap_skipped c1 then c1\<lparr>dc_bootstrap_latency := 0\<rparr>
        else if dc_bootstrap_start c1 \<noteq> 0 then c1\<lparr>dc_bootstrap_latency := now - dc_bootstrap_start c1\<rparr>
        else c1\<lparr>dc_bootstrap_latency := 0\<rparr>)"

definition rotate_tokens :: "dht_env \<Rightarrow> time \<Rightarrow> dht_client \<Rightarrow> dht_client" where
  "rotate_tokens en now c =
     c\<lparr>dc_tokens := rotate_if_needed now (en_secret en (dc_secret_draws c)) (dc_tokens c),
       dc_secret_draws := (if now - tr_last_rotation (dc_tokens c) < tr_interval (dc_tokens c)
                           then dc_secret_draws c else Suc (dc_secret_draws c))\<rparr>"

definition log_get_peers_lookup_completed :: "time \<Rightarrow> info_hash \<Rightarrow> dht_client \<Rightarrow> dht_client" where
  "log_get_peers_lookup_completed now h c = c\<lparr>dc_peers := snd (live_peers now h (dc_peers c))\<rparr>"

definition add_node :: "time \<Rightarrow> routing_entry \<Rightarrow> dht_client \<Rightarrow> dht_client" where
  "add_node now e c = c\<lparr>dc_table := rt_add now e True (dc_table c)\<rparr>"

subsection \<open>Public API\<close>

definition get_peers :: "dht_env \<Rightarrow> time \<Rightarrow> info_hash \<Rightarrow> dht_client \<Rightarrow> dht_client" where
  "get_peers en now h c =
     (let c1 = c\<lparr>dc_peers := ensure_bucket h (dc_peers c)\<rparr>;
          (res, lm) = start_or_advance now (en_txn en) (dc_table c1) h (dc_lookups c1);
          c2 = c1\<lparr>dc_lookups := lm\<rparr>
      in if sr_no_candidates res then c2
         else
           let c3 = c2\<lparr>dc_announce := mark_initial_lookup_started h (dc_announce c2)\<rparr>;
               c4 = send_all (sr_outbound res) c3
           in if sr_lookup_completed res then log_get_peers_lookup_completed now h c4 else c4)"

definition dht_register_torrent :: "dht_env \<Rightarrow> time \<Rightarrow> info_hash \<Rightarrow> 16 word \<Rightarrow> dht_client \<Rightarrow> dht_client" where
  "dht_register_torrent en now h p c =
     (let c1 = c\<lparr>dc_announce := register_torrent now h p (dc_announce c)\<rparr>
      in if dc_running c1 then get_peers en now h c1 else c1)"

definition dht_unregister_torrent :: "info_hash \<Rightarrow> dht_client \<Rightarrow> dht_client" where
  "dht_unregister_torrent h c = c\<lparr>dc_announce := unregister_torrent h (dc_announce c)\<rparr>"

definition dht_ping :: "dht_env \<Rightarrow> peer_address \<Rightarrow> dht_client \<Rightarrow> dht_client" where
  "dht_ping en pa c = (let (txn, c1) = draw_txn en c in send_krpc (make_ping txn (dc_self c1)) pa c1)"

fun send_announce_requests :: "dht_env \<Rightarrow> announce_request list \<Rightarrow> dht_client \<Rightarrow> dht_client" where
  "send_announce_requests en [] c = c"
| "send_announce_requests en (req # reqs) c =
     (if aq_token req = [] then send_announce_requests en reqs c
      else
        let (txn, c1) = draw_txn en c in
        send_announce_requests en reqs
          (send_krpc (make_announce_peer txn (dc_self c1) (aq_info_hash req) (aq_listen_port req)
             (aq_token req) True) (aq_pa req) c1))"

definition dht_announce :: "dht_env \<Rightarrow> info_hash \<Rightarrow> 16 word \<Rightarrow> dht_client \<Rightarrow> dht_client" where
  "dht_announce en h p c = send_announce_requests en (collect_announce_all h p (dc_announce c) []) c"

definition dht_stop :: "dht_client \<Rightarrow> dht_client" where
  "dht_stop c =
     (if \<not> dc_running c then c
      else c\<lparr>dc_running := False, dc_socket_open := False, dc_announce := ac_clear (dc_announce c)\<rparr>)"

subsection \<open>Query handlers\<close>

definition on_ping :: "krpc_message \<Rightarrow> peer_address \<Rightarrow> dht_client \<Rightarrow> dht_client" where
  "on_ping msg pa c = send_krpc (make_response (km_txn msg) (dc_self c)) pa c"

definition on_find_node :: "krpc_message \<Rightarrow> peer_address \<Rightarrow> dht_client \<Rightarrow> dht_client" where
  "on_find_node msg pa c =
     (let closest = rt_closest (km_target msg) 8 (dc_table c)
      in send_krpc (make_nodes_response (km_txn msg) (dc_self c) closest) pa c)"

definition on_get_peers :: "dht_env \<Rightarrow> time \<Rightarrow> krpc_message \<Rightarrow> peer_address \<Rightarrow> dht_client \<Rightarrow> dht_client" where
  "on_get_peers en now msg pa c =
     (case km_info_hash msg of
        None \<Rightarrow> c
      | Some h \<Rightarrow>
          let c1 = rotate_tokens en now c;
              token = issue_token (en_sha1 en) (en_ip_bytes en) (ip pa) (dc_tokens c1);
              (known_peers, ps) = live_peers now h (expire_stale now (dc_peers c1));
              c2 = c1\<lparr>dc_peers := ps\<rparr>
          in if known_peers \<noteq> [] then
               send_krpc (make_peers_response (km_txn msg) (dc_self c2) token known_peers) pa c2
             else
               let closest = rt_closest (id_from_info_hash h) 8 (dc_table c2)
               in send_krpc (make_nodes_response_gp (km_txn msg) (dc_self c2) token closest) pa c2)"

definition on_announce_peer :: "dht_env \<Rightarrow> time \<Rightarrow> krpc_message \<Rightarrow> peer_address \<Rightarrow> dht_client \<Rightarrow> dht_client" where
  "on_announce_peer en now msg pa c =
     (case km_info_hash msg of
        None \<Rightarrow> c
      | Some h \<Rightarrow>
          let c1 = rotate_tokens en now c in
          if \<not> verify_token (en_sha1 en) (en_ip_bytes en) now (km_token msg) (ip pa) (dc_tokens c1) then
            send_krpc (make_error (km_txn msg) 203 (str ''Bad token'')) pa c1
          else
            let pa1 = (if \<not> km_implied_port msg then PeerAddress (ip pa) (km_peer_port msg) else pa);
                c2 = c1\<lparr>dc_peers := upsert now h pa1 (dc_peers c1)\<rparr>;
                c3 = invoke_peer_callback (to_hex h) pa1 c2
            in send_krpc (make_response (km_txn msg) (dc_self c3)) pa1 c3)"

subsection \<open>Response handler\<close>

definition try_pending_initial_lookups :: "dht_env \<Rightarrow> time \<Rightarrow> dht_client \<Rightarrow> dht_client" where
  "try_pending_initial_lookups en now c =
     (if rt_size (dc_table c) = 0 then c
      else fold (\<lambda>h c. if has_pending_lookup h (dc_lookups c) then c else get_peers en now h c)
             (torrents_needing_initial_lookup (dc_announce c)) c)"

text \<open>The loop over the compact peers of a get_peers response.\<close>

definition store_values :: "time \<Rightarrow> info_hash \<Rightarrow> bytes list \<Rightarrow> dht_client \<Rightarrow> dht_client" where
  "store_values now h vs c =
     fold (\<lambda>v c. case compact_to_peer v 0 of
                   None \<Rightarrow> c
                 | Some (peer_ip, peer_port) \<Rightarrow>
                     invoke_peer_callback (to_hex h) (PeerAddress peer_ip peer_port)
                       (c\<lparr>dc_peers := upsert now h (PeerAddress peer_ip peer_port) (dc_peers c)\<rparr>))
       vs c"

definition dht_on_response :: "dht_env \<Rightarrow> time \<Rightarrow> krpc_message \<Rightarrow> peer_address \<Rightarrow> dht_client \<Rightarrow> dht_client" where
  "dht_on_response en now msg pa c =
     (let c1 = fold (add_node now) (km_nodes msg) c;
          c2 = (if km_nodes msg \<noteq> [] then maybe_mark_bootstrap_complete now c1 else c1);
          (ac, requests) =
            (if km_token msg \<noteq> [] then
               (case info_hash_for_txn (km_txn msg) (dc_lookups c2) of
                  Some h \<Rightarrow> on_get_peers_response h pa (km_token msg) (dc_announce c2) []
                | None \<Rightarrow> (dc_announce c2, []))
             else (dc_announce c2, []));
          c3 = c2\<lparr>dc_announce := ac\<rparr>;
          (res, lm) = on_response now (en_txn en) (dc_table c3) msg (dc_lookups c3);
          c4 = c3\<lparr>dc_lookups := lm\<rparr>
      in if \<not> rr_txn_known res then send_announce_requests en requests c4
         else
           let c5 = (case rr_info_hash res of Some h \<Rightarrow> store_values now h (km_values msg) c4 | None \<Rightarrow> c4);
               c6 = send_all (rr_outbound res) c5;
               c7 = (case rr_info_hash res of
                       Some h \<Rightarrow> if rr_lookup_completed res then log_get_peers_lookup_completed now h c6 else c6
                     | None \<Rightarrow> c6);
               c8 = send_announce_requests en requests c7
           in try_pending_initial_lookups en now c8)"

subsection \<open>Dispatch and the receive loop\<close>

definition handle_message :: "dht_env \<Rightarrow> time \<Rightarrow> krpc_message \<Rightarrow> peer_address \<Rightarrow> dht_client \<Rightarrow> dht_client" where
  "handle_message en now msg pa c =
     (let c1 = (if \<not> is_zero (km_sender msg) then
                  maybe_mark_bootstrap_complete now
                    (add_node now \<lparr>re_id = km_sender msg, re_pa = pa, re_last_seen = now\<rparr> c)
                else c)
      in case km_type msg of
           Query \<Rightarrow>
             (case km_query msg of
                None \<Rightarrow> c1
              | Some Ping \<Rightarrow> on_ping msg pa c1
              | Some FindNode \<Rightarrow> on_find_node msg pa c1
              | Some GetPeers \<Rightarrow> on_get_peers en now msg pa c1
              | Some AnnouncePeer \<Rightarrow> on_announce_peer en now msg pa c1)
         | Response \<Rightarrow> dht_on_response en now msg pa c1
         | Error \<Rightarrow> c1)"

definition lookup_tick :: "dht_env \<Rightarrow> time \<Rightarrow> dht_client \<Rightarrow> dht_client" where
  "lookup_tick en now c =
     (let (os, lm) = tick now (en_txn en) (dc_table c) (dc_lookups c)
      in send_all os (c\<lparr>dc_lookups := lm\<rparr>))"

text \<open>
  One round of \<^verbatim>\<open>recv_loop\<close>: a datagram from an IPv4 source, or none after
  a timeout. A datagram that does not parse ends the round early, as the
  \<^verbatim>\<open>continue\<close> of the source does.
\<close>

definition recv_round :: "dht_env \<Rightarrow> time \<Rightarrow> (bytes \<times> peer_address) option \<Rightarrow> dht_client \<Rightarrow> dht_client" where
  "recv_round en now input c =
     (let timer = (\<lambda>c. if now - dc_last_lookup_tick c \<ge> LOOKUP_TICK_INTERVAL
                       then lookup_tick en now (c\<lparr>dc_last_lookup_tick := now\<rparr>) else c)
      in case input of
           None \<Rightarrow> timer c
         | Some (d, pa) \<Rightarrow>
             (case parse_krpc now d of
                None \<Rightarrow> c
              | Some msg \<Rightarrow> timer (handle_message en now msg pa c)))"

subsection \<open>Bootstrap and maintenance\<close>

definition ping_bootstrap :: "dht_env \<Rightarrow> bytes \<Rightarrow> 16 word \<Rightarrow> dht_client \<Rightarrow> dht_client" where
  "ping_bootstrap en host p c =
     (case en_dns en host p of
        None \<Rightarrow> c
      | Some i \<Rightarrow>
          let (txn, c1) = draw_txn en c;
              c2 = send_krpc (make_ping txn (dc_self c1)) (PeerAddress i p) c1;
              (txn2, c3) = draw_txn en c2
          in send_krpc (make_find_node txn2 (dc_self c3) (dc_self c3)) (PeerAddress i p) c3)"

definition bootstrap :: "dht_env \<Rightarrow> time \<Rightarrow> dht_client \<Rightarrow> dht_client" where
  "bootstrap en now c =
     fold (\<lambda>(host, p). ping_bootstrap en host p) BOOTSTRAP_NODES
       (c\<lparr>dc_last_bootstrap := now, dc_bootstrap_start := now\<rparr>)"

definition maintain_registered_torrents :: "dht_env \<Rightarrow> time \<Rightarrow> dht_client \<Rightarrow> dht_client" where
  "maintain_registered_torrents en now c =
     (let c1 = try_pending_initial_lookups en now c
      in fold (\<lambda>h c. if has_pending_lookup h (dc_lookups c) then c
                     else let c' = get_peers en now h c
                          in c'\<lparr>dc_announce := mark_refreshed h now (dc_announce c')\<rparr>)
           (torrents_needing_refresh now (dc_announce c1)) c1)"

definition refresh_bucket :: "dht_env \<Rightarrow> nat \<Rightarrow> dht_client \<Rightarrow> dht_client" where
  "refresh_bucket en b c =
     (let target = random_id_in_bucket (en_bits en (dc_bit_draws c)) (dc_self c) b;
          c1 = c\<lparr>dc_bit_draws := Suc (dc_bit_draws c)\<rparr>;
          closest = rt_closest target K (dc_table c1)
      in fold (\<lambda>node c. let (txn, c') = draw_txn en c
                        in send_krpc (make_find_node txn (dc_self c') target) (re_pa node) c')
           (take 3 closest) c1)"

definition refresh_buckets :: "dht_env \<Rightarrow> time \<Rightarrow> dht_client \<Rightarrow> dht_client" where
  "refresh_buckets en now c =
     (let buckets = buckets_needing_refresh now (minutes 15) (dc_table c) in
      if buckets = [] then c
      else
        let bucket_count = length buckets;
            start = dc_refresh_cursor c mod bucket_count;
            to_refresh = min MAX_BUCKETS_REFRESH_PER_TICK bucket_count;
            c1 = fold (\<lambda>i. refresh_bucket en (buckets ! ((start + i) mod bucket_count))) [0..<to_refresh] c
        in c1\<lparr>dc_refresh_cursor := (start + to_refresh) mod bucket_count\<rparr>)"

text \<open>One round of \<^verbatim>\<open>maintenance_loop\<close>, less the periodic save to disk.\<close>

definition maintenance_round :: "dht_env \<Rightarrow> time \<Rightarrow> dht_client \<Rightarrow> dht_client" where
  "maintenance_round en now c =
     (let c1 = rotate_tokens en now c;
          c2 = c1\<lparr>dc_lookups := expire_active_lookups now (dc_lookups c1)\<rparr>;
          c3 = lookup_tick en now c2;
          c4 = c3\<lparr>dc_peers := expire_stale now (dc_peers c3)\<rparr>;
          c5 = refresh_buckets en now c4;
          c6 = maintain_registered_torrents en now c5
      in if dc_bootstrap_on_start c6 \<and> count_good_routing_entries now c6 = 0 \<and>
            now - dc_last_bootstrap c6 \<ge> BOOTSTRAP_RETRY_INTERVAL
         then bootstrap en now c6 else c6)"

subsection \<open>Invariant\<close>

definition dc_inv :: "time \<Rightarrow> dht_client \<Rightarrow> bool" where
  "dc_inv t c \<longleftrightarrow>
     valid_id (dc_self c) \<and> rt_inv (dc_table c) \<and> rt_self (dc_table c) = dc_self c \<and>
     lm_inv (dc_lookups c) \<and> store_inv t (dc_peers c) \<and> ac_inv (dc_announce c)"

lemma dc_new_inv: "valid_id self_id \<Longrightarrow> dc_inv t (dc_new en now self_id)"
  by (simp add: dc_inv_def dc_new_def rt_new_inv lm_new_inv new_store_inv ac_new_inv)
    (simp add: rt_new_def)

lemma dc_inv_mono: "dc_inv t c \<Longrightarrow> t \<le> now \<Longrightarrow> dc_inv now c"
  by (auto simp: dc_inv_def intro: store_inv_mono)

lemma lm_inv_draws [simp]: "lm_inv (m\<lparr>lm_draws := n\<rparr>) = lm_inv m"
  by (simp add: lm_inv_def)

text \<open>Operations that touch none of the components the invariant speaks of.\<close>

lemma dc_inv_send [simp]: "dc_inv t (send_krpc m pa c) = dc_inv t c"
  by (simp add: dc_inv_def send_krpc_def)

lemma dc_inv_send_all [simp]: "dc_inv t (send_all os c) = dc_inv t c"
  unfolding send_all_def by (induction os arbitrary: c) (simp_all add: split_beta)

lemma dc_inv_draw [simp]: "dc_inv t (snd (draw_txn en c)) = dc_inv t c"
  by (simp add: dc_inv_def draw_txn_def)

lemma dc_inv_callback [simp]: "dc_inv t (invoke_peer_callback h pa c) = dc_inv t c"
  by (simp add: dc_inv_def invoke_peer_callback_def)

lemma dc_inv_rotate [simp]: "dc_inv t (rotate_tokens en now c) = dc_inv t c"
  by (simp add: dc_inv_def rotate_tokens_def)

lemma maybe_mark_fields [simp]:
  "dc_self (maybe_mark_bootstrap_complete now c) = dc_self c"
  "dc_table (maybe_mark_bootstrap_complete now c) = dc_table c"
  "dc_lookups (maybe_mark_bootstrap_complete now c) = dc_lookups c"
  "dc_peers (maybe_mark_bootstrap_complete now c) = dc_peers c"
  "dc_tokens (maybe_mark_bootstrap_complete now c) = dc_tokens c"
  "dc_announce (maybe_mark_bootstrap_complete now c) = dc_announce c"
  "dc_sent (maybe_mark_bootstrap_complete now c) = dc_sent c"
  "dc_callbacks (maybe_mark_bootstrap_complete now c) = dc_callbacks c"
  "dc_socket_open (maybe_mark_bootstrap_complete now c) = dc_socket_open c"
  by (simp_all add: maybe_mark_bootstrap_complete_def Let_def)

lemma dc_inv_mark [simp]: "dc_inv t (maybe_mark_bootstrap_complete now c) = dc_inv t c"
  by (simp add: dc_inv_def)

lemma dc_inv_fields [simp]:
  "dc_inv t (c\<lparr>dc_last_bootstrap := a, dc_bootstrap_start := b\<rparr>) = dc_inv t c"
  "dc_inv t (c\<lparr>dc_last_lookup_tick := a\<rparr>) = dc_inv t c" "dc_inv t (c\<lparr>dc_bit_draws := n\<rparr>) = dc_inv t c"
  "dc_inv t (c\<lparr>dc_refresh_cursor := n\<rparr>) = dc_inv t c"
  by (simp_all add: dc_inv_def)

text \<open>Operations that replace one component.\<close>

lemma dc_inv_peers: "dc_inv t c \<Longrightarrow> store_inv t ps \<Longrightarrow> dc_inv t (c\<lparr>dc_peers := ps\<rparr>)"
  by (simp add: dc_inv_def)

lemma dc_inv_lookups: "dc_inv t c \<Longrightarrow> lm_inv m \<Longrightarrow> dc_inv t (c\<lparr>dc_lookups := m\<rparr>)"
  by (simp add: dc_inv_def)

lemma dc_inv_announce: "dc_inv t c \<Longrightarrow> ac_inv a \<Longrightarrow> dc_inv t (c\<lparr>dc_announce := a\<rparr>)"
  by (simp add: dc_inv_def)

lemma dc_invD:
  assumes "dc_inv t c"
  shows "valid_id (dc_self c)" "rt_inv (dc_table c)" "lm_inv (dc_lookups c)" "store_inv t (dc_peers c)"
    "ac_inv (dc_announce c)"
  using assms by (auto simp: dc_inv_def)

lemma dc_inv_add_node: "dc_inv t c \<Longrightarrow> valid_id (re_id e) \<Longrightarrow> dc_inv t (add_node now e c)"
  by (simp add: dc_inv_def add_node_def rt.inv_add rt.self_add)

lemma dc_inv_fold:
  "(\<And>x c. x \<in> set xs \<Longrightarrow> dc_inv t c \<Longrightarrow> dc_inv t (g x c)) \<Longrightarrow> dc_inv t c \<Longrightarrow> dc_inv t (fold g xs c)"
  by (induction xs arbitrary: c) simp_all

lemma dc_inv_add_nodes:
  "dc_inv t c \<Longrightarrow> \<forall>e\<in>set es. valid_id (re_id e) \<Longrightarrow> dc_inv t (fold (add_node now) es c)"
  by (rule dc_inv_fold) (simp_all add: dc_inv_add_node)

lemma dc_inv_log_completed: "dc_inv t c \<Longrightarrow> dc_inv t (log_get_peers_lookup_completed now h c)"
  by (auto simp: log_get_peers_lookup_completed_def intro!: dc_inv_peers live_peers_inv dest: dc_invD)

lemma dc_inv_get_peers:
  assumes inv: "dc_inv t c"
  shows "dc_inv t (get_peers en now h c)"
proof -
  let ?c1 = "c\<lparr>dc_peers := ensure_bucket h (dc_peers c)\<rparr>"
  obtain res lm where s: "start_or_advance now (en_txn en) (dc_table ?c1) h (dc_lookups ?c1) = (res, lm)"
    by fastforce
  have i1: "dc_inv t ?c1" using inv by (intro dc_inv_peers ensure_bucket_inv) (auto dest: dc_invD)
  have "lm_inv lm" using start_or_advance_inv [OF dc_invD(3) [OF i1], of now "en_txn en" "dc_table ?c1" h] s by simp
  then have i2: "dc_inv t (?c1\<lparr>dc_lookups := lm\<rparr>)" using i1 by (intro dc_inv_lookups)
  then have "dc_inv t (?c1\<lparr>dc_lookups := lm, dc_announce := mark_initial_lookup_started h (dc_announce c)\<rparr>)"
    using dc_inv_announce [OF i2 ac_inv_preserved(6)] dc_invD(5) [OF inv] by simp
  then show ?thesis using s i2 by (simp add: get_peers_def Let_def dc_inv_log_completed)
qed

lemma dc_inv_announce_requests: "dc_inv t c \<Longrightarrow> dc_inv t (send_announce_requests en reqs c)"
proof (induction reqs arbitrary: c)
  case (Cons r rs)
  then show ?case using dc_inv_draw [of t en c] by (auto simp: split_beta)
qed simp

lemma dc_inv_try_pending: "dc_inv t c \<Longrightarrow> dc_inv t (try_pending_initial_lookups en now c)"
  unfolding try_pending_initial_lookups_def by (simp add: dc_inv_fold dc_inv_get_peers)

lemma dc_inv_store_values: "dc_inv now c \<Longrightarrow> dc_inv now (store_values now h vs c)"
  unfolding store_values_def
proof (rule dc_inv_fold)
  fix v c
  assume i: "dc_inv now c"
  have "dc_inv now (c\<lparr>dc_peers := upsert now h pa (dc_peers c)\<rparr>)" for pa
    using i dc_invD(4) [OF i] by (intro dc_inv_peers upsert_inv [of now]) auto
  then show "dc_inv now (case compact_to_peer v 0 of None \<Rightarrow> c
      | Some (peer_ip, peer_port) \<Rightarrow> invoke_peer_callback (to_hex h) (PeerAddress peer_ip peer_port)
          (c\<lparr>dc_peers := upsert now h (PeerAddress peer_ip peer_port) (dc_peers c)\<rparr>))"
    using i by (simp split: option.split prod.split)
qed

lemma dc_inv_on_get_peers: "dc_inv now c \<Longrightarrow> dc_inv now (on_get_peers en now msg pa c)"
proof -
  assume "dc_inv now c"
  then have i: "dc_inv now (rotate_tokens en now c)" by simp
  have "store_inv now (snd (live_peers now h (expire_stale now (dc_peers (rotate_tokens en now c)))))" for h
    using dc_invD(4) [OF i] by (intro live_peers_inv expire_stale_inv)
  then have "dc_inv now ((rotate_tokens en now c)\<lparr>dc_peers :=
      snd (live_peers now h (expire_stale now (dc_peers (rotate_tokens en now c))))\<rparr>)" for h
    using i by (intro dc_inv_peers)
  then show ?thesis using \<open>dc_inv now c\<close>
    by (simp add: on_get_peers_def Let_def split_beta split: option.split)
qed

lemma dc_inv_on_announce_peer:
  assumes "dc_inv now c"
  shows "dc_inv now (on_announce_peer en now msg pa c)"
proof -
  let ?c1 = "rotate_tokens en now c"
  have i: "dc_inv now ?c1" using assms by simp
  have "dc_inv now (?c1\<lparr>dc_peers := upsert now h pa' (dc_peers ?c1)\<rparr>)" for h pa'
    using i dc_invD(4) [OF i] by (intro dc_inv_peers upsert_inv [of now]) auto
  then show ?thesis using assms
    by (simp add: on_announce_peer_def Let_def split: option.split)
qed

lemma dc_inv_on_response:
  assumes inv: "dc_inv now c" and ok: "message_ok msg"
  shows "dc_inv now (dht_on_response en now msg pa c)"
proof -
  define c1 where "c1 = fold (add_node now) (km_nodes msg) c"
  define c2 where "c2 = (if km_nodes msg \<noteq> [] then maybe_mark_bootstrap_complete now c1 else c1)"
  define ar where "ar = (if km_token msg \<noteq> [] then
      (case info_hash_for_txn (km_txn msg) (dc_lookups c2) of
         Some h \<Rightarrow> on_get_peers_response h pa (km_token msg) (dc_announce c2) []
       | None \<Rightarrow> (dc_announce c2, []))
    else (dc_announce c2, []))"
  define c3 where "c3 = c2\<lparr>dc_announce := fst ar\<rparr>"
  define lr where "lr = on_response now (en_txn en) (dc_table c3) msg (dc_lookups c3)"
  define c4 where "c4 = c3\<lparr>dc_lookups := snd lr\<rparr>"
  have "dc_inv now c1" unfolding c1_def using inv ok by (intro dc_inv_add_nodes) (simp_all add: message_ok_def)
  then have i2: "dc_inv now c2" by (simp add: c2_def)
  have "ac_inv (fst ar)" using dc_invD(5) [OF i2] by (auto simp: ar_def intro: ac_inv_preserved split: option.split)
  then have i3: "dc_inv now c3" unfolding c3_def using i2 by (intro dc_inv_announce)
  have "lm_inv (snd lr)" unfolding lr_def using dc_invD(3) [OF i3] by (rule on_response_inv)
  then have i4: "dc_inv now c4" unfolding c4_def using i3 by (intro dc_inv_lookups)
  define c5 where "c5 = (case rr_info_hash (fst lr) of Some h \<Rightarrow> store_values now h (km_values msg) c4 | None \<Rightarrow> c4)"
  define c6 where "c6 = send_all (rr_outbound (fst lr)) c5"
  define c7 where "c7 = (case rr_info_hash (fst lr) of
      Some h \<Rightarrow> if rr_lookup_completed (fst lr) then log_get_peers_lookup_completed now h c6 else c6 | None \<Rightarrow> c6)"
  have "dc_inv now c5" using i4 by (simp add: c5_def dc_inv_store_values split: option.split)
  then have "dc_inv now c6" by (simp add: c6_def)
  then have "dc_inv now c7" by (simp add: c7_def dc_inv_log_completed split: option.split)
  then have i8: "dc_inv now (try_pending_initial_lookups en now (send_announce_requests en (snd ar) c7))"
    by (intro dc_inv_try_pending dc_inv_announce_requests)
  have "dht_on_response en now msg pa c =
      (if \<not> rr_txn_known (fst lr) then send_announce_requests en (snd ar) c4
       else try_pending_initial_lookups en now (send_announce_requests en (snd ar) c7))"
    unfolding dht_on_response_def Let_def split_beta
      c1_def [symmetric] c2_def [symmetric] ar_def [symmetric] c3_def [symmetric] lr_def [symmetric]
      c4_def [symmetric] c5_def [symmetric] c6_def [symmetric] c7_def [symmetric] ..
  then show ?thesis using i8 dc_inv_announce_requests [OF i4] by simp
qed

lemma dc_inv_handle_message:
  assumes "dc_inv now c" "message_ok msg"
  shows "dc_inv now (handle_message en now msg pa c)"
proof -
  define c1 where "c1 = (if \<not> is_zero (km_sender msg) then
      maybe_mark_bootstrap_complete now
        (add_node now \<lparr>re_id = km_sender msg, re_pa = pa, re_last_seen = now\<rparr> c) else c)"
  have "dc_inv now c1" using assms by (simp add: c1_def dc_inv_add_node message_ok_def)
  then show ?thesis using assms(2)
    unfolding handle_message_def c1_def [symmetric] Let_def
    by (simp add: on_ping_def on_find_node_def dc_inv_on_get_peers
        dc_inv_on_announce_peer dc_inv_on_response
        split: krpc_type.split option.split krpc_query.split)
qed

lemma dc_inv_lookup_tick: "dc_inv t c \<Longrightarrow> dc_inv t (lookup_tick en now c)"
proof -
  assume inv: "dc_inv t c"
  have "lm_inv (snd (tick now (en_txn en) (dc_table c) (dc_lookups c)))"
    using dc_invD(3) [OF inv] by (rule tick_inv)
  then show ?thesis using inv by (simp add: lookup_tick_def split_beta Let_def dc_inv_lookups)
qed

lemma dc_inv_recv_round: "dc_inv now c \<Longrightarrow> dc_inv now (recv_round en now input c)"
  by (auto simp: recv_round_def Let_def dc_inv_lookup_tick
      intro!: dc_inv_lookup_tick dc_inv_handle_message dest: parse_krpc_message_ok split: option.split)

lemma dc_inv_bootstrap: "dc_inv t c \<Longrightarrow> dc_inv t (bootstrap en now c)"
proof -
  have "dc_inv t (ping_bootstrap en host p c)" if "dc_inv t c" for host p c
    using that dc_inv_draw [of t en] by (simp add: ping_bootstrap_def split_beta Let_def split: option.split)
  then show "dc_inv t c \<Longrightarrow> dc_inv t (bootstrap en now c)"
    unfolding bootstrap_def by (intro dc_inv_fold) (auto simp: split_beta)
qed

lemma dc_inv_maintain: "dc_inv t c \<Longrightarrow> dc_inv t (maintain_registered_torrents en now c)"
proof -
  have "dc_inv t (c\<lparr>dc_announce := mark_refreshed h now (dc_announce c)\<rparr>)" if "dc_inv t c" for c h
    using that dc_invD(5) [OF that] by (intro dc_inv_announce ac_inv_preserved)
  then show "dc_inv t c \<Longrightarrow> dc_inv t (maintain_registered_torrents en now c)"
    unfolding maintain_registered_torrents_def Let_def
    by (intro dc_inv_fold dc_inv_try_pending) (simp_all add: dc_inv_get_peers)
qed

lemma dc_inv_refresh_bucket: "dc_inv t c \<Longrightarrow> dc_inv t (refresh_bucket en b c)"
  unfolding refresh_bucket_def Let_def
  by (rule dc_inv_fold) (simp_all add: split_beta)

lemma dc_inv_refresh_buckets: "dc_inv t c \<Longrightarrow> dc_inv t (refresh_buckets en now c)"
  by (simp add: refresh_buckets_def Let_def dc_inv_fold dc_inv_refresh_bucket)

lemma dc_inv_maintenance_round:
  assumes "dc_inv now c"
  shows "dc_inv now (maintenance_round en now c)"
proof -
  define c1 where "c1 = rotate_tokens en now c"
  define c2 where "c2 = c1\<lparr>dc_lookups := expire_active_lookups now (dc_lookups c1)\<rparr>"
  define c3 where "c3 = lookup_tick en now c2"
  define c4 where "c4 = c3\<lparr>dc_peers := expire_stale now (dc_peers c3)\<rparr>"
  have i1: "dc_inv now c1" using assms by (simp add: c1_def)
  have "dc_inv now c2" unfolding c2_def using i1 dc_invD(3) [OF i1] by (intro dc_inv_lookups expire_active_inv)
  then have i3: "dc_inv now c3" unfolding c3_def by (rule dc_inv_lookup_tick)
  then have "dc_inv now c4" unfolding c4_def using dc_invD(4) [OF i3] by (intro dc_inv_peers expire_stale_inv)
  then have i6: "dc_inv now (maintain_registered_torrents en now (refresh_buckets en now c4))"
    by (intro dc_inv_maintain dc_inv_refresh_buckets)
  then show ?thesis
    unfolding maintenance_round_def Let_def c1_def [symmetric] c2_def [symmetric] c3_def [symmetric] c4_def [symmetric]
    by (simp add: dc_inv_bootstrap)
qed

subsection \<open>Runs of the client\<close>

text \<open>
  Any interleaving of received datagrams, receive timeouts, maintenance rounds
  and API calls, with a monotone clock.
\<close>

inductive dht_run :: "dht_env \<Rightarrow> time \<Rightarrow> dht_client \<Rightarrow> bool" for en where
  dht_constructed: "valid_id self_id \<Longrightarrow> dht_run en now (dc_new en now self_id)"
| dht_started: "dht_run en t c \<Longrightarrow> t \<le> now \<Longrightarrow>
    dht_run en now (c\<lparr>dc_running := True, dc_socket_open := True, dc_last_lookup_tick := now\<rparr>)"
| dht_recv: "dht_run en t c \<Longrightarrow> t \<le> now \<Longrightarrow> dht_run en now (recv_round en now input c)"
| dht_maintain: "dht_run en t c \<Longrightarrow> t \<le> now \<Longrightarrow> dht_run en now (maintenance_round en now c)"
| dht_bootstrap: "dht_run en t c \<Longrightarrow> t \<le> now \<Longrightarrow> dht_run en now (bootstrap en now c)"
| dht_register: "dht_run en t c \<Longrightarrow> t \<le> now \<Longrightarrow> dht_run en now (dht_register_torrent en now h p c)"
| dht_unregister: "dht_run en t c \<Longrightarrow> dht_run en t (dht_unregister_torrent h c)"
| dht_lookup: "dht_run en t c \<Longrightarrow> t \<le> now \<Longrightarrow> dht_run en now (get_peers en now h c)"
| dht_announced: "dht_run en t c \<Longrightarrow> dht_run en t (dht_announce en h p c)"
| dht_pinged: "dht_run en t c \<Longrightarrow> dht_run en t (dht_ping en pa c)"
| dht_stopped: "dht_run en t c \<Longrightarrow> dht_run en t (dht_stop c)"

lemma dht_run_dc_inv: "dht_run en t c \<Longrightarrow> dc_inv t c"
proof (induction rule: dht_run.induct)
  case (dht_constructed self_id now)
  then show ?case by (rule dc_new_inv)
next
  case (dht_started t c now)
  then have "dc_inv now c" by (blast intro: dc_inv_mono)
  then show ?case by (simp add: dc_inv_def)
next
  case (dht_recv t c now input)
  then show ?case by (blast intro: dc_inv_mono dc_inv_recv_round)
next
  case (dht_maintain t c now)
  then show ?case by (blast intro: dc_inv_mono dc_inv_maintenance_round)
next
  case (dht_bootstrap t c now)
  then show ?case by (blast intro: dc_inv_mono dc_inv_bootstrap)
next
  case (dht_register t c now h p)
  then have i: "dc_inv now c" by (blast intro: dc_inv_mono)
  then have "dc_inv now (c\<lparr>dc_announce := register_torrent now h p (dc_announce c)\<rparr>)"
    using dc_invD(5) [OF i] by (intro dc_inv_announce ac_inv_preserved)
  then show ?case by (simp add: dht_register_torrent_def Let_def dc_inv_get_peers)
next
  case (dht_unregister t c h)
  then show ?case unfolding dht_unregister_torrent_def
    using dc_invD(5) by (intro dc_inv_announce ac_inv_preserved)
next
  case (dht_lookup t c now h)
  then show ?case by (blast intro: dc_inv_mono dc_inv_get_peers)
next
  case (dht_announced t c h p)
  then show ?case by (simp add: dht_announce_def dc_inv_announce_requests)
next
  case (dht_pinged t c pa)
  then show ?case by (simp add: dht_ping_def split_beta)
next
  case (dht_stopped t c)
  then have "dc_inv t (c\<lparr>dc_announce := ac_clear (dc_announce c)\<rparr>)"
    using dc_invD(5) [OF dht_stopped.IH] by (intro dc_inv_announce ac_inv_preserved)
  then show ?case using dht_stopped.IH by (simp add: dht_stop_def dc_inv_def)
qed

subsection \<open>Callbacks\<close>

lemma callbacks_send [simp]:
  "dc_callbacks (send_krpc m pa c) = dc_callbacks c" "dc_callbacks (snd (draw_txn en c)) = dc_callbacks c"
  "dc_callbacks (log_get_peers_lookup_completed now h c) = dc_callbacks c"
  "dc_callbacks (add_node now e c) = dc_callbacks c" "dc_callbacks (rotate_tokens en now c) = dc_callbacks c"
  by (simp_all add: send_krpc_def draw_txn_def log_get_peers_lookup_completed_def add_node_def rotate_tokens_def)

lemma callbacks_fold:
  "(\<And>x c. dc_callbacks (g x c) = dc_callbacks c) \<Longrightarrow> dc_callbacks (fold g xs c) = dc_callbacks c"
  by (induction xs arbitrary: c) simp_all

lemma callbacks_send_all [simp]: "dc_callbacks (send_all os c) = dc_callbacks c"
  unfolding send_all_def by (rule callbacks_fold) (simp add: split_beta)

lemma callbacks_get_peers [simp]: "dc_callbacks (get_peers en now h c) = dc_callbacks c"
  by (simp add: get_peers_def Let_def split_beta)

lemma callbacks_try_pending [simp]: "dc_callbacks (try_pending_initial_lookups en now c) = dc_callbacks c"
  unfolding try_pending_initial_lookups_def by (simp add: callbacks_fold)

lemma callbacks_announce_requests [simp]: "dc_callbacks (send_announce_requests en rs c) = dc_callbacks c"
proof (induction rs arbitrary: c)
  case (Cons r rs)
  then show ?case by (simp add: split_beta Let_def)
qed simp

lemma callbacks_store_values:
  assumes "\<forall>v\<in>set vs. length v = 6"
  shows "dc_callbacks (store_values now h vs c) =
    dc_callbacks c @ map (\<lambda>v. (to_hex h, PeerAddress (inet_ntoa (take 4 v)) (read_be16 v 4))) vs"
  using assms unfolding store_values_def
  by (induction vs arbitrary: c) (simp_all add: compact_to_peer_def invoke_peer_callback_def)

subsection \<open>Properties\<close>

lemma send_krpc_open: "dc_socket_open c \<Longrightarrow> dc_sent (send_krpc m pa c) = dc_sent c @ [(m, pa)]"
  by (simp add: send_krpc_def)

lemma rotate_tokens_fields [simp]:
  "dc_socket_open (rotate_tokens en now c) = dc_socket_open c" "dc_sent (rotate_tokens en now c) = dc_sent c"
  "dc_self (rotate_tokens en now c) = dc_self c" "dc_peers (rotate_tokens en now c) = dc_peers c"
  "dc_table (rotate_tokens en now c) = dc_table c" "dc_lookups (rotate_tokens en now c) = dc_lookups c"
  "dc_tokens (rotate_tokens en now c) =
     rotate_if_needed now (en_secret en (dc_secret_draws c)) (dc_tokens c)"
  by (simp_all add: rotate_tokens_def)

text \<open>A concrete environment and client for the witnesses.\<close>

definition sample_env :: dht_env where
  "sample_env = \<lparr>en_txn = (\<lambda>n. be16 (word_of_nat n)), en_secret = (\<lambda>n. replicate 20 (word_of_nat n)),
     en_bits = (\<lambda>_ _. False), en_sha1 = id, en_ip_bytes = id, en_dns = (\<lambda>_ _. None)\<rparr>"

definition sample_client :: dht_client where
  "sample_client = (dc_new sample_env 0 (replicate 20 7))\<lparr>dc_socket_open := True\<rparr>"

lemma sample_client_tokens:
  "dc_socket_open sample_client" "tr_current (dc_tokens sample_client) = replicate 20 0"
  "tr_interval (dc_tokens sample_client) = DEFAULT_ROTATION_INTERVAL" "tr_prev (dc_tokens sample_client) = []"
  "tr_last_rotation (dc_tokens sample_client) = 0"
  by (simp_all add: sample_client_def dc_new_def tr_new_def sample_env_def)

text \<open>C15: In every state the client reaches, whatever datagrams arrive and in whatever
  order datagrams, timers and API calls interleave, all components satisfy
  their invariants: a well-formed routing table, bounded lookups, a bounded and
  ordered peer store, and consistent announce state.\<close>

theorem dht_run_invariant:
  assumes "dht_run en t c"
  shows "rt_inv (dc_table c) \<and> rt_self (dc_table c) = dc_self c \<and> lm_inv (dc_lookups c) \<and>
    store_inv t (dc_peers c) \<and> ac_inv (dc_announce c)"
  using dht_run_dc_inv [OF assms] by (simp add: dc_inv_def)

theorem dht_run_invariant_witness:
  "rt_inv (dc_table (recv_round sample_env 5 (Some (str ''garbage'', PeerAddress [] 1)) (dc_new sample_env 0 (replicate 20 7))))"
proof -
  have "dht_run sample_env 0 (dc_new sample_env 0 (replicate 20 7))" by (rule dht_constructed) (simp add: valid_id_def)
  then have "dht_run sample_env 5 (recv_round sample_env 5 (Some (str ''garbage'', PeerAddress [] 1)) (dc_new sample_env 0 (replicate 20 7)))"
    by (rule dht_recv) simp
  from dht_run_invariant [OF this] show ?thesis by blast
qed

text \<open>C17: An announce with a token that does not verify stores nothing and notifies
  nobody: it is answered with error 203 to the sender, and that is all.\<close>

theorem bad_token_rejected:
  assumes "dc_socket_open c" "km_info_hash msg = Some h"
    and "\<not> verify_token (en_sha1 en) (en_ip_bytes en) now (km_token msg) (ip pa) (dc_tokens (rotate_tokens en now c))"
  shows "dc_peers (on_announce_peer en now msg pa c) = dc_peers c \<and>
    dc_callbacks (on_announce_peer en now msg pa c) = dc_callbacks c \<and>
    dc_sent (on_announce_peer en now msg pa c) =
      dc_sent c @ [(make_error (km_txn msg) 203 (str ''Bad token''), pa)]"
  using assms by (simp add: on_announce_peer_def Let_def send_krpc_def)

theorem bad_token_rejected_witness:
  "dc_sent (on_announce_peer sample_env 0 (empty_message\<lparr>km_info_hash := Some [1], km_token := [5]\<rparr>)
     (PeerAddress (str ''9.9.9.9'') 80) sample_client) =
   dc_sent sample_client @ [(make_error [] 203 (str ''Bad token''), PeerAddress (str ''9.9.9.9'') 80)]"
proof -
  have "\<not> verify_token (en_sha1 sample_env) (en_ip_bytes sample_env) 0 [5] (str ''9.9.9.9'')
      (dc_tokens (rotate_tokens sample_env 0 sample_client))"
    by (simp add: verify_token_def compute_token_def rotate_if_needed_def sample_client_tokens
        DEFAULT_ROTATION_INTERVAL_def minutes_def sample_env_def Cons_replicate_eq)
  then show ?thesis
    using bad_token_rejected [of sample_client "empty_message\<lparr>km_info_hash := Some [1], km_token := [5]\<rparr>" "[1]"
        sample_env 0 "PeerAddress (str ''9.9.9.9'') 80"]
    by (simp add: sample_client_tokens empty_message_def)
qed

lemma on_get_peers_tokens:
  "dc_tokens (on_get_peers en now msg pa c) =
     (case km_info_hash msg of None \<Rightarrow> dc_tokens c | Some _ \<Rightarrow> dc_tokens (rotate_tokens en now c))"
  by (simp add: on_get_peers_def Let_def split_beta send_krpc_def split: option.split)

lemma on_get_peers_reply:
  fixes en :: dht_env and pa :: peer_address and now :: time
  assumes "dc_socket_open c" "km_info_hash msg = Some h" "valid_id (dc_self c)"
  defines "token \<equiv> issue_token (en_sha1 en) (en_ip_bytes en) (ip pa) (dc_tokens (rotate_tokens en now c))"
  shows "\<exists>m. dc_sent (on_get_peers en now msg pa c) = dc_sent c @ [(m, pa)] \<and>
    (length m < 2 ^ 64 \<longrightarrow> (\<exists>r. parse_krpc now m = Some r \<and> km_token r = token \<and> km_txn r = km_txn msg))"
proof -
  let ?lp = "live_peers now h (expire_stale now (dc_peers c))"
  let ?pm = "make_peers_response (km_txn msg) (dc_self c) token (fst ?lp)"
  let ?nm = "make_nodes_response_gp (km_txn msg) (dc_self c) token (rt_closest (id_from_info_hash h) 8 (dc_table c))"
  have sent: "dc_sent (on_get_peers en now msg pa c) = dc_sent c @ [(if fst ?lp \<noteq> [] then ?pm else ?nm, pa)]"
    using assms(1,2) by (simp add: on_get_peers_def Let_def split_beta send_krpc_def token_def)
  have "\<exists>r. parse_krpc now ?pm = Some r \<and> km_token r = token \<and> km_txn r = km_txn msg" if "length ?pm < 2 ^ 64"
    using that unfolding make_peers_response_encode
    by (subst parse_krpc_response)
      (auto simp: parse_response_def response_dict_def field_defs Let_def split_beta)
  moreover have "\<exists>r. parse_krpc now ?nm = Some r \<and> km_token r = token \<and> km_txn r = km_txn msg"
    if "length ?nm < 2 ^ 64"
    using that unfolding make_nodes_response_gp_encode
    by (subst parse_krpc_response)
      (auto simp: parse_response_def response_dict_def field_defs Let_def split_beta)
  ultimately show ?thesis using sent by auto
qed

text \<open>C16: The token handshake works end to end: a get_peers query is answered with a
  single datagram whose token the querier can read, and an announce that
  carries this token from the same IP address within the next five minutes is
  accepted: the announced endpoint is reported among the live peers of the info
  hash and passed to the callback.\<close>

theorem announce_handshake:
  fixes c c' c'' :: dht_client
  assumes "dc_inv t c" "t \<le> now" "now \<le> later" "later < now + DEFAULT_ROTATION_INTERVAL" "dc_socket_open c"
    and "tr_current (dc_tokens c) \<noteq> []" "en_secret en (dc_secret_draws c) \<noteq> []"
    and "tr_interval (dc_tokens c) = DEFAULT_ROTATION_INTERVAL"
    and "km_info_hash q = Some h" "c' = on_get_peers en now q pa c"
    and "km_info_hash a = Some h'" "ip pa' = ip pa" "c'' = on_announce_peer en later a pa' c'"
    and "endpoint = (if km_implied_port a then pa' else PeerAddress (ip pa') (km_peer_port a))"
    and "\<forall>x\<in>set (dc_sent c'). length (fst x) < 2 ^ 64"
  shows "\<exists>m r. dc_sent c' = dc_sent c @ [(m, pa)] \<and> parse_krpc now m = Some r \<and> km_txn r = km_txn q \<and>
    (km_token a = km_token r \<longrightarrow>
       endpoint \<in> set (fst (live_peers later h' (dc_peers c''))) \<and>
       dc_callbacks c'' = dc_callbacks c' @ [(to_hex h', endpoint)])"
proof -
  let ?tok = "issue_token (en_sha1 en) (en_ip_bytes en) (ip pa) (dc_tokens (rotate_tokens en now c))"
  have i': "dc_inv now c'" using assms(1,2,10) by (auto intro: dc_inv_mono dc_inv_on_get_peers)
  have tok': "dc_tokens c' = dc_tokens (rotate_tokens en now c)" using assms(9,10) by (simp add: on_get_peers_tokens)
  define s where "s = dc_tokens c'"
  have s: "tr_current s \<noteq> []" "tr_interval s = DEFAULT_ROTATION_INTERVAL"
    using assms(6-8) tok' by (auto simp: s_def rotate_if_needed_def)
  have "retains now (tr_interval s) (tr_current s) (rotations [(later, en_secret en (dc_secret_draws c'))] s)"
    using assms(3,4) s by (intro retains_rotations) (auto simp: retains_def)
  then have ok: "verify_token (en_sha1 en) (en_ip_bytes en) later ?tok (ip pa') (dc_tokens (rotate_tokens en later c'))"
    using s assms(3,4,12) tok'
    by (auto simp: verify_token_def issue_token_def retains_def rotations_def s_def
        DEFAULT_ROTATION_INTERVAL_def PREV_SECRET_TTL_def minutes_def)
  have ir: "store_inv now (dc_peers c')" using dc_invD(4) [OF i'] .
  have live: "endpoint \<in> set (fst (live_peers later h' (upsert later h' endpoint (dc_peers c'))))"
    by (subst live_peers_result [OF upsert_inv [OF ir assms(3)]])
      (force simp: upsert_peers [OF ir] recency_put_def lru_touch_def PEER_ENTRY_TTL_def minutes_def)
  have "endpoint \<in> set (fst (live_peers later h' (dc_peers c''))) \<and>
      dc_callbacks c'' = dc_callbacks c' @ [(to_hex h', endpoint)]" if "km_token a = ?tok"
    using that ok live assms(11,13,14)
    by (auto simp: on_announce_peer_def Let_def send_krpc_def invoke_peer_callback_def)
  moreover obtain m where m: "dc_sent c' = dc_sent c @ [(m, pa)]"
    "length m < 2 ^ 64 \<longrightarrow> (\<exists>r. parse_krpc now m = Some r \<and> km_token r = ?tok \<and> km_txn r = km_txn q)"
    using on_get_peers_reply [OF assms(5,9) dc_invD(1) [OF assms(1)], of en now pa] assms(10) by blast
  moreover have "length m < 2 ^ 64" using assms(15) m(1) by simp
  ultimately show ?thesis by metis
qed

theorem announce_handshake_witness:
  "\<exists>m r. dc_sent (on_get_peers sample_env 0 (empty_message\<lparr>km_info_hash := Some (replicate 20 1)\<rparr>)
       (PeerAddress (str ''9.9.9.9'') 80) sample_client) = dc_sent sample_client @ [(m, PeerAddress (str ''9.9.9.9'') 80)] \<and>
     parse_krpc 0 m = Some r \<and> km_txn r = []"
proof -
  let ?pa = "PeerAddress (str ''9.9.9.9'') 80" and ?q = "empty_message\<lparr>km_info_hash := Some (replicate 20 1)\<rparr>"
  let ?c' = "on_get_peers sample_env 0 ?q ?pa sample_client"
  have inv: "dc_inv 0 sample_client"
    using dc_new_inv [of "replicate 20 7" 0 sample_env 0] by (simp add: sample_client_def dc_inv_def valid_id_def)
  have "rt_all (rt_new (replicate 20 7)) = []"
    by (simp add: rt_all_def rt_new_def concat_eq_Nil_conv)
  then have "rt_closest x k (dc_table sample_client) = []" for x k
    by (simp add: rt_closest_def sample_client_def dc_new_def)
  moreover have "fst (live_peers 0 h (expire_stale 0 (dc_peers sample_client))) = []" for h
    by (subst live_peers_result [OF expire_stale_inv [OF dc_invD(4) [OF inv]]])
      (simp add: store_peers_def expire_stale_entries new_store_def lru_new_inv MAX_INFO_HASHES_def
        sample_client_def dc_new_def)
  ultimately have "dc_sent ?c' = [(make_nodes_response_gp [] (replicate 20 7)
      (issue_token id id (str ''9.9.9.9'') (dc_tokens (rotate_tokens sample_env 0 sample_client))) [], ?pa)]"
    by (simp add: on_get_peers_def empty_message_def Let_def split_beta send_krpc_def sample_client_tokens)
      (simp add: sample_client_def dc_new_def sample_env_def)
  then have len: "\<forall>x\<in>set (dc_sent ?c'). length (fst x) < 2 ^ 64"
    by (simp add: issue_token_def compute_token_def rotate_if_needed_def sample_client_tokens
        DEFAULT_ROTATION_INTERVAL_def minutes_def make_nodes_response_gp_encode response_dict_def
        bencode_dict_def bencode_string_def dec.simps nodes_to_compact_def)
  show ?thesis
    using announce_handshake [OF inv _ _ _ _ _ _ _ _ refl _ _ refl refl len, of 0 "replicate 20 1"
        "empty_message\<lparr>km_info_hash := Some [2]\<rparr>" "[2]" ?pa] sample_client_tokens
    by (auto simp: DEFAULT_ROTATION_INTERVAL_def minutes_def empty_message_def sample_env_def)
qed



text \<open>
  The reply to an accepted announce without implied_port goes to the announced
  port, not to the port the query came from.
\<close>

lemma announce_reply_to_announced_port:
  assumes "dc_socket_open c" "km_info_hash msg = Some h" "\<not> km_implied_port msg"
    and "verify_token (en_sha1 en) (en_ip_bytes en) now (km_token msg) (ip pa) (dc_tokens (rotate_tokens en now c))"
  shows "dc_sent (on_announce_peer en now msg pa c) =
    dc_sent c @ [(make_response (km_txn msg) (dc_self c), PeerAddress (ip pa) (km_peer_port msg))]"
  using assms by (simp add: on_announce_peer_def Let_def send_krpc_def invoke_peer_callback_def)

lemma callbacks_on_response:
  assumes "message_ok msg"
  shows "dc_callbacks (dht_on_response en now msg pa c) =
    dc_callbacks c @ (case map_of (lm_pending (dc_lookups c)) (km_txn msg) of
      None \<Rightarrow> []
    | Some (h, _) \<Rightarrow> map (\<lambda>v. (to_hex h, PeerAddress (inet_ntoa (take 4 v)) (read_be16 v 4))) (km_values msg))"
proof -
  define c1 where "c1 = fold (add_node now) (km_nodes msg) c"
  define c2 where "c2 = (if km_nodes msg \<noteq> [] then maybe_mark_bootstrap_complete now c1 else c1)"
  define ar where "ar = (if km_token msg \<noteq> [] then
      (case info_hash_for_txn (km_txn msg) (dc_lookups c2) of
         Some h \<Rightarrow> on_get_peers_response h pa (km_token msg) (dc_announce c2) []
       | None \<Rightarrow> (dc_announce c2, []))
    else (dc_announce c2, []))"
  define c3 where "c3 = c2\<lparr>dc_announce := fst ar\<rparr>"
  define lr where "lr = on_response now (en_txn en) (dc_table c3) msg (dc_lookups c3)"
  define c4 where "c4 = c3\<lparr>dc_lookups := snd lr\<rparr>"
  define c5 where "c5 = (case rr_info_hash (fst lr) of Some h \<Rightarrow> store_values now h (km_values msg) c4 | None \<Rightarrow> c4)"
  define c6 where "c6 = send_all (rr_outbound (fst lr)) c5"
  define c7 where "c7 = (case rr_info_hash (fst lr) of
      Some h \<Rightarrow> if rr_lookup_completed (fst lr) then log_get_peers_lookup_completed now h c6 else c6 | None \<Rightarrow> c6)"
  have res: "dht_on_response en now msg pa c =
      (if \<not> rr_txn_known (fst lr) then send_announce_requests en (snd ar) c4
       else try_pending_initial_lookups en now (send_announce_requests en (snd ar) c7))"
    unfolding dht_on_response_def Let_def split_beta
      c1_def [symmetric] c2_def [symmetric] ar_def [symmetric] c3_def [symmetric] lr_def [symmetric]
      c4_def [symmetric] c5_def [symmetric] c6_def [symmetric] c7_def [symmetric] ..
  have look: "dc_lookups (fold (add_node now) es c) = dc_lookups c" for es
    by (induction es arbitrary: c) (simp_all add: add_node_def)
  have c4: "dc_callbacks c4 = dc_callbacks c" by (simp add: c4_def c3_def c2_def c1_def callbacks_fold)
  have c3: "dc_lookups c3 = dc_lookups c" by (simp add: c3_def c2_def c1_def look)
  have lr: "rr_txn_known (fst lr) \<longleftrightarrow> map_of (lm_pending (dc_lookups c)) (km_txn msg) \<noteq> None"
    "rr_info_hash (fst lr) = map_option fst (map_of (lm_pending (dc_lookups c)) (km_txn msg))"
    by (auto simp: lr_def c3 on_response_def Let_def split_beta split: option.split)
  have vals: "\<forall>v\<in>set (km_values msg). length v = 6" using assms by (simp add: message_ok_def)
  have "dc_callbacks c7 = dc_callbacks c5" by (simp add: c7_def c6_def split: option.split)
  then show ?thesis using lr c4 callbacks_store_values [OF vals]
    by (cases "map_of (lm_pending (dc_lookups c)) (km_txn msg)") (auto simp: res c5_def)
qed

text \<open>A response reports peers to the torrent layer exactly when its transaction
  identifier belongs to a query in flight: each 6-byte value becomes one
  callback for that query's info hash, in order; a response with an unknown
  transaction identifier reports nothing.\<close>

theorem response_reports_values:
  assumes "message_ok msg"
  shows "dc_callbacks (dht_on_response en now msg pa c) =
    dc_callbacks c @ (case map_of (lm_pending (dc_lookups c)) (km_txn msg) of
      None \<Rightarrow> []
    | Some (h, _) \<Rightarrow> map (\<lambda>v. (to_hex h, PeerAddress (inet_ntoa (take 4 v)) (read_be16 v 4))) (km_values msg))"
  using assms by (rule callbacks_on_response)

theorem response_reports_values_witness:
  "dc_callbacks (dht_on_response sample_env 0 (empty_message\<lparr>km_txn := [1, 2], km_values := [[10, 0, 0, 1, 0, 80]]\<rparr>)
      (PeerAddress (str ''9.9.9.9'') 80)
      (sample_client\<lparr>dc_lookups := (lm_new (replicate 20 7))\<lparr>lm_pending := [([1, 2], replicate 20 1, 0)]\<rparr>\<rparr>)) =
   [(to_hex (replicate 20 1), PeerAddress (inet_ntoa [10, 0, 0, 1]) (read_be16 [10, 0, 0, 1, 0, 80] 4))]"
  by (subst response_reports_values)
    (simp_all add: message_ok_def empty_message_def sample_client_def dc_new_def)

end
