(* ===== verification/Routing_Table_Store.thy ===== *)
theory Routing_Table_Store
  imports Routing_Table
begin

section \<open>The routing table file\<close>

text \<open>
  \<^verbatim>\<open>RoutingTableStore\<close> (\<^verbatim>\<open>src/dht/routing_table_store.cpp\<close>): the text file
  that keeps the routing table between runs. \<open>load\<close> reads the lines of a file,
  each of which may stop it with an error result or, where \<^verbatim>\<open>std::stoul\<close> throws,
  with an exception; \<open>save\<close> writes all entries. The file system is a map from
  paths to contents with the directories that exist and what the process may
  create, open and remove; a file that could be opened for writing takes the
  whole text.
\<close>

record store_fs =
  sf_files :: "bytes \<rightharpoonup> bytes"
  sf_dirs :: "bytes \<Rightarrow> bool"
  sf_may_mkdir :: "bytes \<Rightarrow> bool"
  sf_may_write :: "bytes \<Rightarrow> bool"
  sf_may_remove :: "bytes \<Rightarrow> bool"

record snapshot =
  sn_self_id :: node_id
  sn_entries :: "routing_entry list"

datatype load_error = FileNotFound | UnsupportedVersion | MalformedEntry | NoEntries

datatype load_outcome = Threw | Failed load_error | Loaded snapshot

subsection \<open>Reading\<close>

text \<open>
  \<^verbatim>\<open>std::stoul\<close> in base 16 on at most two characters: white space and a sign may
  come first, then the hexadecimal digits there are; no digit is an exception. A
  prefix \<^verbatim>\<open>0x\<close> needs a third character and reads as the digit 0 here.
\<close>

definition stoul16 :: "bytes \<Rightarrow> nat option" where
  "stoul16 s =
     (let s = dropWhile is_space s;
          neg = (s \<noteq> [] \<and> hd s = 45);
          s = (if s \<noteq> [] \<and> (hd s = 45 \<or> hd s = 43) then tl s else s);
          ds = takeWhile is_xdigit s
      in if ds = [] then None
         else Some (if neg then u64_sub 0 (base_val 16 ds) else base_val 16 ds))"

fun hex_bytes :: "nat \<Rightarrow> bytes \<Rightarrow> bytes option" where
  "hex_bytes 0 hex = Some []"
| "hex_bytes (Suc n) hex =
     (case stoul16 (take 2 hex) of
        None \<Rightarrow> None
      | Some v \<Rightarrow> (case hex_bytes n (drop 2 hex) of None \<Rightarrow> None | Some bs \<Rightarrow> Some (of_nat v # bs)))"

text \<open>\<open>None\<close> is the exception, \<open>Some None\<close> the result false.\<close>

definition node_id_from_hex :: "bytes \<Rightarrow> node_id option option" where
  "node_id_from_hex hex =
     (if length hex \<noteq> 40 then Some None
      else case hex_bytes 20 hex of None \<Rightarrow> None | Some i \<Rightarrow> Some (Some i))"

text \<open>Extraction of a word and of a \<^verbatim>\<open>uint16_t\<close> from a stream.\<close>

definition read_word :: "bytes \<Rightarrow> (bytes \<times> bytes) option" where
  "read_word s =
     (let s = dropWhile is_space s;
          w = takeWhile (\<lambda>b. \<not> is_space b) s
      in if w = [] then None else Some (w, dropWhile (\<lambda>b. \<not> is_space b) s))"

definition read_u16 :: "bytes \<Rightarrow> 16 word option" where
  "read_u16 s =
     (let s = dropWhile is_space s;
          neg = (s \<noteq> [] \<and> hd s = 45);
          s = (if s \<noteq> [] \<and> (hd s = 45 \<or> hd s = 43) then tl s else s);
          ds = takeWhile is_digit s
      in if ds = [] \<or> 65535 < digits_val ds then None
         else Some (if neg then - of_nat (digits_val ds) else of_nat (digits_val ds)))"

definition parse_entry_line :: "bytes \<Rightarrow> routing_entry option option" where
  "parse_entry_line line =
     (if length line < 6 \<or> take 6 line \<noteq> str ''entry='' then Some None
      else case read_word (drop 6 line) of
             None \<Rightarrow> Some None
           | Some (hex, r) \<Rightarrow>
               (case read_word r of
                  None \<Rightarrow> Some None
                | Some (a, r) \<Rightarrow>
                    (case read_u16 r of
                       None \<Rightarrow> Some None
                     | Some p \<Rightarrow>
                         (case node_id_from_hex hex of
                            None \<Rightarrow> None
                          | Some None \<Rightarrow> Some None
                          | Some (Some i) \<Rightarrow>
                              Some (Some \<lparr>re_id = i, re_pa = PeerAddress a p, re_last_seen = 0\<rparr>)))))"

text \<open>The lines \<^verbatim>\<open>std::getline\<close> yields.\<close>

fun text_lines :: "bytes \<Rightarrow> bytes list" where
  "text_lines [] = []"
| "text_lines (b # bs) =
     (if b = 10 then [] # text_lines bs
      else case text_lines bs of [] \<Rightarrow> [[b]] | l # ls \<Rightarrow> (b # l) # ls)"

fun load_lines :: "bytes list \<Rightarrow> snapshot \<Rightarrow> load_outcome" where
  "load_lines [] sn = (if sn_entries sn = [] then Failed NoEntries else Loaded sn)"
| "load_lines (line # ls) sn =
     (if line = [] \<or> hd line = 35 then load_lines ls sn
      else if take 8 line = str ''version=''
      then if line \<noteq> str ''version=1'' then Failed UnsupportedVersion else load_lines ls sn
      else if take 8 line = str ''self_id=''
      then (case node_id_from_hex (drop 8 line) of
              None \<Rightarrow> Threw
            | Some None \<Rightarrow> load_lines ls sn
            | Some (Some i) \<Rightarrow> load_lines ls (sn\<lparr>sn_self_id := i\<rparr>))
      else if take 6 line = str ''entry=''
      then (case parse_entry_line line of
              None \<Rightarrow> Threw
            | Some None \<Rightarrow> Failed MalformedEntry
            | Some (Some e) \<Rightarrow> load_lines ls (sn\<lparr>sn_entries := sn_entries sn @ [e]\<rparr>))
      else load_lines ls sn)"

definition load :: "store_fs \<Rightarrow> bytes \<Rightarrow> load_outcome" where
  "load fs path =
     (case sf_files fs path of
        None \<Rightarrow> Failed FileNotFound
      | Some text \<Rightarrow> load_lines (text_lines text) \<lparr>sn_self_id = zero_id, sn_entries = []\<rparr>)"

subsection \<open>Writing\<close>

definition ensure_parent_dir :: "bytes \<Rightarrow> store_fs \<Rightarrow> bool \<times> store_fs" where
  "ensure_parent_dir path fs =
     (if 47 \<notin> set path then (True, fs)
      else let dir = take (length path - 1 - length (takeWhile (\<lambda>b. b \<noteq> 47) (rev path))) path
           in if dir = [] then (True, fs)
              else if sf_dirs fs dir then (True, fs)
              else if \<not> sf_may_mkdir fs dir then (False, fs)
              else (True, fs\<lparr>sf_dirs := (sf_dirs fs)(dir := True)\<rparr>))"

definition entry_line :: "routing_entry \<Rightarrow> bytes" where
  "entry_line e = str ''entry='' @ id_hex (re_id e) @ str '' '' @ ip (re_pa e) @ str '' '' @ dec (unat (port (re_pa e)))"

definition table_text :: "node_id \<Rightarrow> routing_entry list \<Rightarrow> bytes" where
  "table_text self_id entries =
     str ''# DHT routing table (auto-generated)'' @ [10] @ str ''version=1'' @ [10] @
     str ''self_id='' @ id_hex self_id @ [10] @ concat (map (\<lambda>e. entry_line e @ [10]) entries)"

definition save :: "routing_table \<Rightarrow> node_id \<Rightarrow> bytes \<Rightarrow> store_fs \<Rightarrow> bool \<times> store_fs" where
  "save t self_id path fs =
     (case ensure_parent_dir path fs of
        (False, fs) \<Rightarrow> (False, fs)
      | (True, fs) \<Rightarrow>
          if rt_all t = [] then (True, fs)
          else if \<not> sf_may_write fs path then (False, fs)
          else (True, fs\<lparr>sf_files := (sf_files fs)(path \<mapsto> table_text self_id (rt_all t))\<rparr>))"

definition remove_file :: "bytes \<Rightarrow> store_fs \<Rightarrow> bool \<times> store_fs" where
  "remove_file path fs =
     (if path = [] then (True, fs)
      else if sf_files fs path = None then (True, fs)
      else if \<not> sf_may_remove fs path then (False, fs)
      else (True, fs\<lparr>sf_files := (sf_files fs)(path := None)\<rparr>))"

definition default_path :: "bytes option \<Rightarrow> bytes" where
  "default_path env = (case env of Some p \<Rightarrow> p | None \<Rightarrow> str ''routing_table_store/routing_table.txt'')"

subsection \<open>Lines and hexadecimal text\<close>

lemma text_lines_line: "10 \<notin> set l \<Longrightarrow> text_lines (l @ 10 # r) = l # text_lines r"
  by (induction l) auto

lemma id_hex_Cons: "id_hex (b # bs) = hex_digit (unat b div 16) # hex_digit (unat b mod 16) # id_hex bs"
  by (simp add: id_hex_def hex_byte_def)

lemma nibble: "unat (b :: byte) div 16 < 16" "unat b mod 16 < 16"
  using unat_byte_less [of b] by linarith+

lemma hex_digit_facts:
  assumes "d < 16"
  shows "\<not> is_space (hex_digit d)" "hex_digit d \<noteq> 45" "hex_digit d \<noteq> 43" "hex_digit d \<noteq> 10"
  using unat_hex_digit [OF assms] assms
  by (auto simp: is_space_def word_le_nat_alt word_eq_iff_unsigned split: if_splits)

lemma stoul16_byte: "stoul16 [hex_digit (unat b div 16), hex_digit (unat b mod 16)] = Some (unat b)" for b :: byte
  using nibble [of b] hex_digit_facts [OF nibble(1)] by (simp add: stoul16_def Let_def base_val_def)

lemma hex_bytes_hex: "hex_bytes (length i) (id_hex i) = Some i"
  by (induction i) (simp_all add: id_hex_Cons stoul16_byte)

lemma length_id_hex [simp]: "length (id_hex i) = 2 * length i"
  by (induction i) (simp_all add: id_hex_Cons, simp add: id_hex_def)

lemma id_hex_plain: "b \<in> set (id_hex i) \<Longrightarrow> \<not> is_space b \<and> b \<noteq> 10"
  by (induction i) (auto simp: id_hex_Cons hex_digit_facts nibble, auto simp: id_hex_def)

lemma node_id_from_hex_hex: "valid_id i \<Longrightarrow> node_id_from_hex (id_hex i) = Some (Some i)"
  using hex_bytes_hex [of i] by (simp add: node_id_from_hex_def valid_id_def)

subsection \<open>Reading back what was written\<close>

lemma read_word_plain:
  assumes "w \<noteq> []" "\<forall>b\<in>set w. \<not> is_space b" "is_space c"
  shows "read_word (w @ c # r) = Some (w, c # r)" "read_word (c # w @ c # r) = Some (w, c # r)"
proof -
  have "dropWhile is_space (w @ c # r) = w @ c # r" using assms(1,2) by (cases w) auto
  then show "read_word (w @ c # r) = Some (w, c # r)" "read_word (c # w @ c # r) = Some (w, c # r)"
    using assms by (simp_all add: read_word_def Let_def)
qed

lemma read_u16_dec: "read_u16 (32 # dec (unat p)) = Some p"
proof -
  have hd: "is_digit (hd (dec (unat p)))" by (rule hd_dec_digit)
  then have "\<not> is_space (hd (dec (unat p)))" "hd (dec (unat p)) \<noteq> 45" "hd (dec (unat p)) \<noteq> 43"
    by (auto simp: is_digit_def is_space_def word_le_nat_alt)
  moreover have "dropWhile is_space (dec (unat p)) = dec (unat p)"
    using calculation(1) by (cases "dec (unat p)") auto
  moreover have "takeWhile is_digit (dec (unat p)) = dec (unat p)" using takeWhile_dec_rest [of "[]" "unat p"] by simp
  moreover have "unat p \<le> 65535" using unsigned_less [where 'a = nat and w = p] by simp
  ultimately show ?thesis
    by (simp add: read_u16_def Let_def is_space_def [of 32] del: takeWhile_eq_all_conv)
qed

definition storable :: "routing_entry \<Rightarrow> bool" where
  "storable e = (valid_id (re_id e) \<and> ip (re_pa e) \<noteq> [] \<and> (\<forall>b\<in>set (ip (re_pa e)). \<not> is_space b))"

lemma parse_entry_line_entry:
  assumes "storable e"
  shows "parse_entry_line (entry_line e) = Some (Some (e\<lparr>re_last_seen := 0\<rparr>))"
proof -
  have ne: "id_hex (re_id e) \<noteq> []" using assms by (cases "re_id e") (auto simp: storable_def valid_id_def id_hex_Cons)
  have plain: "\<forall>b\<in>set (id_hex (re_id e)). \<not> is_space b" using id_hex_plain by blast
  have "take 6 (entry_line e) = str ''entry=''" "\<not> length (entry_line e) < 6"
    "drop 6 (entry_line e) = id_hex (re_id e) @ 32 # ip (re_pa e) @ 32 # dec (unat (port (re_pa e)))"
    by (simp_all add: entry_line_def)
  moreover have sp: "is_space 32" by (simp add: is_space_def)
  moreover have "PeerAddress (ip (re_pa e)) (port (re_pa e)) = re_pa e" by (cases "re_pa e") simp
  moreover have "read_word (id_hex (re_id e) @ 32 # r) = Some (id_hex (re_id e), 32 # r)" for r
    by (rule read_word_plain(1) [OF ne plain sp])
  moreover have "read_word (32 # ip (re_pa e) @ 32 # r) = Some (ip (re_pa e), 32 # r)" for r
    using assms sp by (intro read_word_plain(2)) (simp_all add: storable_def)
  moreover have "node_id_from_hex (id_hex (re_id e)) = Some (Some (re_id e))"
    using assms by (simp add: storable_def node_id_from_hex_hex)
  ultimately show ?thesis by (simp add: parse_entry_line_def read_u16_dec del: str_Cons)
qed

lemma entry_line_text: "storable e \<Longrightarrow> 10 \<notin> set (entry_line e)"
  using id_hex_plain [of 10 "re_id e"] dec_digits [of 10 "unat (port (re_pa e))"]
  by (auto simp: entry_line_def storable_def is_space_def is_digit_def)

lemma load_entries:
  assumes "\<forall>e\<in>set es. storable e" "sn_entries sn @ es \<noteq> []"
  shows "load_lines (text_lines (concat (map (\<lambda>e. entry_line e @ [10]) es))) sn =
    Loaded (sn\<lparr>sn_entries := sn_entries sn @ map (\<lambda>e. e\<lparr>re_last_seen := 0\<rparr>) es\<rparr>)"
  using assms
proof (induction es arbitrary: sn)
  case (Cons e es)
  have e: "storable e" using Cons.prems by simp
  have p: "entry_line e \<noteq> []" "hd (entry_line e) = 101" "take 8 (entry_line e) \<noteq> str ''version=''"
    "take 8 (entry_line e) \<noteq> str ''self_id=''" "take 6 (entry_line e) = str ''entry=''" by (simp_all add: entry_line_def)
  show ?case
    using Cons p parse_entry_line_entry [OF e] text_lines_line [OF entry_line_text [OF e]]
    by (simp del: str_Cons)
qed simp

text \<open>
  The routing table survives a restart: when a table with at least one node is
  saved to a path that may be written, loading that path yields the identifier
  and the entries of the table in order, each with its time of last contact
  reset.
\<close>

lemma saved_table_loads:
  assumes "rt_all t \<noteq> []" "\<forall>e\<in>set (rt_all t). storable e" "valid_id self_id" "save t self_id path fs = (True, fs')"
  shows "load fs' path = Loaded \<lparr>sn_self_id = self_id, sn_entries = map (\<lambda>e. e\<lparr>re_last_seen := 0\<rparr>) (rt_all t)\<rparr>"
proof -
  have saved: "sf_files fs' path = Some (table_text self_id (rt_all t))"
    using assms(1,4) by (auto simp: save_def split: prod.splits if_splits bool.splits)
  have self: "10 \<notin> set (str ''self_id='' @ id_hex self_id)" using id_hex_plain [of 10 self_id] by auto
  let ?es = "concat (map (\<lambda>e. entry_line e @ [10]) (rt_all t))"
  have lines: "text_lines (table_text self_id (rt_all t)) =
      str ''# DHT routing table (auto-generated)'' # str ''version=1'' # (str ''self_id='' @ id_hex self_id) # text_lines ?es"
  proof -
    have "table_text self_id (rt_all t) = str ''# DHT routing table (auto-generated)'' @ 10 # (str ''version=1'' @ 10 #
        ((str ''self_id='' @ id_hex self_id) @ 10 # ?es))" by (simp add: table_text_def)
    moreover have "10 \<notin> set (str ''# DHT routing table (auto-generated)'')" "10 \<notin> set (str ''version=1'')" by simp_all
    ultimately show ?thesis using self by (simp only: text_lines_line not_False_eq_True)
  qed
  show ?thesis
    using assms load_entries [of "rt_all t" "\<lparr>sn_self_id = self_id, sn_entries = []\<rparr>"]
    by (simp add: load_def saved lines node_id_from_hex_hex)
qed

lemma rt_add_only:
  assumes "rt_inv t" "valid_id (re_id e)" "e' \<in> set (rt_all (rt_add now e c t))"
  shows "e' = e \<or> e' \<in> set (rt_all t)"
proof (cases "re_id e = rt_self t \<or> is_zero (re_id e)")
  case True
  then show ?thesis using assms(3) by (auto simp: rt_add_def)
next
  case False
  let ?b = "bucket_index (rt_self t) (re_id e)"
  have put: "set (bucket_put now e es) \<subseteq> insert e (set es)" for es
    by (auto simp: bucket_put_def Let_def dest: set_update_subset_insert [THEN subsetD])
  obtain b where b: "b < NUM_BUCKETS" "e' \<in> set (bucket_list (rt_add now e c t) b)"
    using assms rt_add_inv in_rt_all by blast
  show ?thesis
  proof (cases "b = ?b")
    case True
    then have "e' \<in> insert e (set (bucket_list t b))"
      using b(2) rt_add_bucket_list(1) [OF assms(1,2)] False put by auto
    then show ?thesis using b(1) assms(1) by (auto simp: in_rt_all)
  next
    case False
    then have "e' \<in> set (bucket_list t b)"
      using b(2) rt_add_bucket_list(2) [OF assms(1,2)] \<open>\<not> (re_id e = rt_self t \<or> is_zero (re_id e))\<close> by auto
    then show ?thesis using b(1) assms(1) by (auto simp: in_rt_all)
  qed
qed

lemma sample_table_only: "e \<in> set (rt_all sample_table) \<Longrightarrow> e = sample_entry"
proof -
  have v: "valid_id (replicate 20 (7 :: byte))" by (simp add: valid_id_def)
  have "rt_all (rt_new (replicate 20 7)) = []" by (simp add: rt_all_def rt_new_def)
  then show "e \<in> set (rt_all sample_table) \<Longrightarrow> e = sample_entry"
    using rt_add_only [OF rt_new_inv [OF v] sample_entry_ok(1)] by (auto simp: sample_table_def)
qed

subsection \<open>Damaged files\<close>

text \<open>
  A line whose identifier has forty characters but no hexadecimal digit where
  one is expected does not give an error result: the exception of
  \<^verbatim>\<open>std::stoul\<close> leaves \<open>load\<close>, and with it the start of the DHT client.
\<close>

lemma load_throws:
  assumes "sf_files fs path = Some (str ''self_id='' @ replicate 40 (of_char CHR ''z''))"
  shows "load fs path = Threw"
proof -
  let ?l = "str ''self_id='' @ replicate 40 (of_char CHR ''z'')"
  have "text_lines ?l = [?l]" by code_simp
  moreover have "node_id_from_hex (replicate 40 (of_char CHR ''z'')) = None" by code_simp
  ultimately show ?thesis using assms by (simp add: load_def del: text_lines.simps)
qed

end
