(* ===== verification/Dht_Node.thy ===== *)
theory Dht_Node
  imports Dht_Client Routing_Table_Store
begin

section \<open>The DHT client across runs\<close>

text \<open>
  The life cycle of \<^verbatim>\<open>DhtClient\<close> (\<^verbatim>\<open>src/dht/dht_client.cpp\<close>): \<^verbatim>\<open>start\<close> with
  the routing table that an earlier run saved, the periodic save of the
  maintenance thread, and \<^verbatim>\<open>stop\<close>. Between the pings that \<^verbatim>\<open>start\<close> sends to the
  loaded nodes and its decision about the public bootstrap the receive thread is
  already running, so \<^verbatim>\<open>start\<close> is two operations: \<open>start_begin\<close> up to the wait of
  \<^verbatim>\<open>verify_loaded_routing_entries\<close>, and \<open>start_finish\<close> after it.
\<close>

record dht_node =
  nd_client :: dht_client
  nd_fs :: store_fs
  nd_path :: bytes
  nd_persist :: bool
  nd_clear :: bool
  nd_last_save :: time
  nd_start_time :: time
  nd_loaded :: nat

definition kMinGoodEntriesToSkipBootstrap :: nat where "kMinGoodEntriesToSkipBootstrap = 4"
definition LOADED_PEER_VERIFY_TIMEOUT :: time where "LOADED_PEER_VERIFY_TIMEOUT = seconds 3"
definition ROUTING_TABLE_SAVE_INTERVAL :: time where "ROUTING_TABLE_SAVE_INTERVAL = minutes 5"

definition nd_new :: "dht_env \<Rightarrow> time \<Rightarrow> node_id \<Rightarrow> bytes option \<Rightarrow> store_fs \<Rightarrow> dht_node" where
  "nd_new en now self_id path_var fs =
     \<lparr>nd_client = dc_new en now self_id, nd_fs = fs, nd_path = default_path path_var, nd_persist = True, nd_clear = False,
      nd_last_save = 0, nd_start_time = 0, nd_loaded = 0\<rparr>"

definition set_bootstrap_on_start :: "bool \<Rightarrow> dht_node \<Rightarrow> dht_node" where
  "set_bootstrap_on_start enabled n = n\<lparr>nd_client := (nd_client n)\<lparr>dc_bootstrap_on_start := enabled\<rparr>\<rparr>"

definition set_routing_table_path :: "bytes \<Rightarrow> dht_node \<Rightarrow> dht_node" where
  "set_routing_table_path path n = n\<lparr>nd_path := path\<rparr>"

definition set_persist_routing_table :: "bool \<Rightarrow> dht_node \<Rightarrow> dht_node" where
  "set_persist_routing_table enabled n = n\<lparr>nd_persist := enabled\<rparr>"

definition set_clear_persisted_routing_table :: "bool \<Rightarrow> dht_node \<Rightarrow> dht_node" where
  "set_clear_persisted_routing_table b n = n\<lparr>nd_clear := b\<rparr>"

subsection \<open>Loading and saving\<close>

text \<open>\<open>None\<close> is an exception that \<^verbatim>\<open>RoutingTableStore::load\<close> lets through.\<close>

definition load_persisted_routing_table :: "time \<Rightarrow> dht_node \<Rightarrow> dht_node option" where
  "load_persisted_routing_table now n =
     (case load (nd_fs n) (nd_path n) of
        Threw \<Rightarrow> None
      | Failed _ \<Rightarrow> Some n
      | Loaded sn \<Rightarrow>
          Some (n\<lparr>nd_client := (nd_client n)\<lparr>dc_table :=
                    fold (\<lambda>e. rt_add now e False) (sn_entries sn) (dc_table (nd_client n))\<rparr>\<rparr>))"

definition ping_entry :: "dht_env \<Rightarrow> routing_entry \<Rightarrow> dht_client \<Rightarrow> dht_client" where
  "ping_entry en e c = (case draw_txn en c of (txn, c) \<Rightarrow> send_krpc (make_ping txn (dc_self c)) (re_pa e) c)"

definition verify_loaded_routing_entries :: "dht_env \<Rightarrow> dht_client \<Rightarrow> dht_client" where
  "verify_loaded_routing_entries en c = fold (ping_entry en) (rt_all (dc_table c)) c"

text \<open>The condition that ends the wait for the answers.\<close>

definition verify_done :: "time \<Rightarrow> time \<Rightarrow> dht_client \<Rightarrow> bool" where
  "verify_done since now c =
     (since + LOADED_PEER_VERIFY_TIMEOUT \<le> now \<or> kMinGoodEntriesToSkipBootstrap \<le> count_good_routing_entries now c)"

definition save_persisted_routing_table :: "dht_node \<Rightarrow> dht_node" where
  "save_persisted_routing_table n =
     (if \<not> nd_persist n \<or> rt_size (dc_table (nd_client n)) = 0 then n
      else n\<lparr>nd_fs := snd (save (dc_table (nd_client n)) (dc_self (nd_client n)) (nd_path n) (nd_fs n))\<rparr>)"

subsection \<open>Start, maintenance and stop\<close>

datatype start_outcome = AlreadyRunning | BindFailed | LoadThrew | Verifying | ReadyToDecide

definition start_begin :: "dht_env \<Rightarrow> time \<Rightarrow> bool \<Rightarrow> dht_node \<Rightarrow> start_outcome \<times> dht_node" where
  "start_begin en now bind_ok n =
     (if dc_running (nd_client n) then (AlreadyRunning, n)
      else if \<not> bind_ok then (BindFailed, n)
      else
        let n = n\<lparr>nd_client := (nd_client n)\<lparr>dc_running := True, dc_socket_open := True, dc_last_lookup_tick := now,
                    dc_bootstrap_skipped := False, dc_bootstrap_complete := False,
                    dc_bootstrap_latency := - seconds 1, dc_bootstrap_start := 0\<rparr>,
                  nd_start_time := now, nd_loaded := 0\<rparr>
        in if \<not> nd_persist n then (ReadyToDecide, n)
           else if nd_clear n then (ReadyToDecide, n\<lparr>nd_fs := snd (remove_file (nd_path n) (nd_fs n))\<rparr>)
           else case load_persisted_routing_table now n of
                  None \<Rightarrow> (LoadThrew, n)
                | Some n \<Rightarrow>
                    let n = n\<lparr>nd_loaded := rt_size (dc_table (nd_client n))\<rparr>
                    in if 0 < nd_loaded n
                       then (Verifying, n\<lparr>nd_client := verify_loaded_routing_entries en (nd_client n)\<rparr>)
                       else (ReadyToDecide, n))"

definition start_finish :: "dht_env \<Rightarrow> time \<Rightarrow> dht_node \<Rightarrow> dht_node" where
  "start_finish en now n =
     (let skip = (nd_persist n \<and> \<not> nd_clear n \<and>
                  kMinGoodEntriesToSkipBootstrap \<le> count_good_routing_entries now (nd_client n));
          c = (if skip then (nd_client n)\<lparr>dc_bootstrap_skipped := True, dc_bootstrap_complete := True, dc_bootstrap_latency := 0\<rparr>
               else nd_client n)
      in n\<lparr>nd_client :=
             (if dc_bootstrap_on_start c \<and> \<not> skip then bootstrap en now c
              else if \<not> dc_bootstrap_complete c \<and> 0 < count_good_routing_entries now c
              then maybe_mark_bootstrap_complete now c else c)\<rparr>)"

text \<open>
  One round of the maintenance thread. The table is saved before the retry of
  the bootstrap, which does not change it.
\<close>

definition node_maintenance :: "dht_env \<Rightarrow> time \<Rightarrow> dht_node \<Rightarrow> dht_node" where
  "node_maintenance en now n =
     (let n = n\<lparr>nd_client := maintenance_round en now (nd_client n)\<rparr>
      in if nd_persist n \<and> 0 < rt_size (dc_table (nd_client n)) \<and>
            (nd_last_save n = 0 \<or> ROUTING_TABLE_SAVE_INTERVAL \<le> now - nd_last_save n)
         then (save_persisted_routing_table n)\<lparr>nd_last_save := now\<rparr> else n)"

definition node_stop :: "dht_node \<Rightarrow> dht_node" where
  "node_stop n =
     (if \<not> dc_running (nd_client n) then n
      else let n = save_persisted_routing_table n in n\<lparr>nd_client := dht_stop (nd_client n)\<rparr>)"

record performance =
  pf_bootstrap_skipped :: bool
  pf_bootstrap_complete :: bool
  pf_bootstrap_latency :: time
  pf_loaded :: nat
  pf_total :: nat
  pf_good :: nat
  pf_uptime :: time

definition performance_snapshot :: "time \<Rightarrow> dht_node \<Rightarrow> performance" where
  "performance_snapshot now n =
     \<lparr>pf_bootstrap_skipped = dc_bootstrap_skipped (nd_client n), pf_bootstrap_complete = dc_bootstrap_complete (nd_client n),
      pf_bootstrap_latency = dc_bootstrap_latency (nd_client n), pf_loaded = nd_loaded n,
      pf_total = rt_size (dc_table (nd_client n)), pf_good = count_good_routing_entries now (nd_client n),
      pf_uptime = (if nd_start_time n \<noteq> 0 then now - nd_start_time n else 0)\<rparr>"

subsection \<open>Runs\<close>

inductive node_run :: "dht_env \<Rightarrow> time \<Rightarrow> dht_node \<Rightarrow> bool" for en where
  nd_constructed: "valid_id self_id \<Longrightarrow> node_run en now (nd_new en now self_id path_var fs)"
| nd_begin: "node_run en t n \<Longrightarrow> t \<le> now \<Longrightarrow> node_run en now (snd (start_begin en now ok n))"
| nd_finish: "node_run en t n \<Longrightarrow> t \<le> now \<Longrightarrow> node_run en now (start_finish en now n)"
| nd_recv: "node_run en t n \<Longrightarrow> t \<le> now \<Longrightarrow> node_run en now (n\<lparr>nd_client := recv_round en now input (nd_client n)\<rparr>)"
| nd_maintain: "node_run en t n \<Longrightarrow> t \<le> now \<Longrightarrow> node_run en now (node_maintenance en now n)"
| nd_get_peers: "node_run en t n \<Longrightarrow> t \<le> now \<Longrightarrow> node_run en now (n\<lparr>nd_client := get_peers en now h (nd_client n)\<rparr>)"
| nd_stop: "node_run en t n \<Longrightarrow> node_run en t (node_stop n)"

subsection \<open>What loading leaves\<close>

lemma length_hex_bytes: "hex_bytes n hex = Some bs \<Longrightarrow> length bs = n"
  by (induction n arbitrary: hex bs) (auto split: option.splits)

lemma parse_entry_line_ok: "parse_entry_line l = Some (Some e) \<Longrightarrow> valid_id (re_id e) \<and> re_last_seen e = 0"
  by (auto simp: parse_entry_line_def node_id_from_hex_def valid_id_def length_hex_bytes
      split: if_splits option.splits prod.splits)

lemma load_lines_step:
  assumes "load_lines (l # ls) sn = Loaded sn'"
  obtains sn1 where "load_lines ls sn1 = Loaded sn'" "sn_entries sn1 = sn_entries sn"
  | e where "parse_entry_line l = Some (Some e)" "load_lines ls (sn\<lparr>sn_entries := sn_entries sn @ [e]\<rparr>) = Loaded sn'"
  using assms by (simp del: str_Cons split: if_splits option.splits)

lemma load_lines_ok:
  "load_lines ls sn = Loaded sn' \<Longrightarrow> \<forall>e\<in>set (sn_entries sn). valid_id (re_id e) \<and> re_last_seen e = 0 \<Longrightarrow>
   \<forall>e\<in>set (sn_entries sn'). valid_id (re_id e) \<and> re_last_seen e = 0"
proof (induction ls arbitrary: sn)
  case (Cons l ls)
  from Cons.prems(1) show ?case
  proof (cases rule: load_lines_step)
    case (1 sn1)
    then show ?thesis using Cons.IH [of sn1] Cons.prems(2) by simp
  next
    case (2 e)
    then show ?thesis using Cons.IH [OF 2(2)] Cons.prems(2) parse_entry_line_ok [of l e] by simp
  qed
qed (auto split: if_splits)

lemma load_ok: "load fs path = Loaded sn \<Longrightarrow> \<forall>e\<in>set (sn_entries sn). valid_id (re_id e) \<and> re_last_seen e = 0"
  by (auto simp: load_def dest: load_lines_ok split: option.splits)

definition load_table :: "time \<Rightarrow> routing_entry list \<Rightarrow> routing_table \<Rightarrow> routing_table" where
  "load_table now es t = fold (\<lambda>e. rt_add now e False) es t"

lemma load_table_inv:
  "rt_inv t \<Longrightarrow> \<forall>e\<in>set es. valid_id (re_id e) \<Longrightarrow>
   rt_inv (load_table now es t) \<and> rt_self (load_table now es t) = rt_self t \<and>
   set (rt_all (load_table now es t)) \<subseteq> set (rt_all t) \<union> set es"
proof (induction es arbitrary: t)
  case (Cons e es)
  have e: "valid_id (re_id e)" using Cons.prems by simp
  have "rt_inv (rt_add now e False t)" "rt_self (rt_add now e False t) = rt_self t"
    using Cons.prems(1) e by (simp_all add: rt.inv_add rt.self_add)
  moreover have "set (rt_all (rt_add now e False t)) \<subseteq> insert e (set (rt_all t))"
    using rt_add_only [OF Cons.prems(1) e] by blast
  ultimately show ?case
    using Cons.IH [of "rt_add now e False t"] Cons.prems(2) by (auto simp: load_table_def)
qed (simp add: load_table_def)

lemma rt_add_nonempty:
  assumes "rt_inv t" "valid_id (re_id e)" "rt_all t \<noteq> [] \<or> re_id e \<noteq> rt_self t \<and> \<not> is_zero (re_id e)"
  shows "rt_all (rt_add now e c t) \<noteq> []"
proof (cases "re_id e = rt_self t \<or> is_zero (re_id e)")
  case True
  then show ?thesis using assms(3) by (auto simp: rt_add_def)
next
  case False
  let ?b = "bucket_index (rt_self t) (re_id e)"
  have b: "?b < NUM_BUCKETS" using bucket_index_range(1) [of "rt_self t" "re_id e"] assms(1,2) False by (auto simp: rt_inv_def)
  have "bucket_put now e es \<noteq> []" for es by (auto simp: bucket_put_def Let_def K_def)
  then have "bucket_list (rt_add now e c t) ?b \<noteq> []"
    using rt_add_bucket_list(1) [OF assms(1,2)] False by simp
  then obtain x where "x \<in> set (bucket_list (rt_add now e c t) ?b)" by (meson last_in_set)
  then have "x \<in> set (rt_all (rt_add now e c t))" using b rt_add_inv [OF assms(1,2)] by (auto simp: in_rt_all)
  then show ?thesis by auto
qed

lemma load_table_nonempty:
  "rt_inv t \<Longrightarrow> \<forall>e\<in>set es. valid_id (re_id e) \<Longrightarrow>
   rt_all t \<noteq> [] \<or> (\<exists>e\<in>set es. re_id e \<noteq> rt_self t \<and> \<not> is_zero (re_id e)) \<Longrightarrow> rt_all (load_table now es t) \<noteq> []"
proof (induction es arbitrary: t)
  case (Cons e es)
  have e: "valid_id (re_id e)" using Cons.prems by simp
  have i: "rt_inv (rt_add now e False t)" "rt_self (rt_add now e False t) = rt_self t"
    using Cons.prems(1) e by (simp_all add: rt.inv_add rt.self_add)
  have "rt_all (rt_add now e False t) \<noteq> [] \<or> (\<exists>e\<in>set es. re_id e \<noteq> rt_self t \<and> \<not> is_zero (re_id e))"
    using Cons.prems(3) rt_add_nonempty [OF Cons.prems(1) e] by auto
  then show ?case using Cons.IH [OF i(1)] Cons.prems(2) i(2) by (simp add: load_table_def)
qed (simp add: load_table_def)

subsection \<open>Pings\<close>

lemma verify_fold:
  "dc_socket_open c \<Longrightarrow> map snd (dc_sent (fold (ping_entry en) es c)) = map snd (dc_sent c) @ map re_pa es \<and>
   dc_table (fold (ping_entry en) es c) = dc_table c"
proof (induction es arbitrary: c)
  case (Cons e es)
  then show ?case using Cons.IH [of "ping_entry en e c"]
    by (simp add: ping_entry_def draw_txn_def send_krpc_def)
qed simp

lemma dc_inv_verify: "dc_inv t c \<Longrightarrow> dc_inv t (verify_loaded_routing_entries en c)"
  unfolding verify_loaded_routing_entries_def using dc_inv_draw [of t en]
  by (intro dc_inv_fold) (auto simp: ping_entry_def split_beta)

lemma dc_inv_flags [simp]:
  "dc_inv t (c\<lparr>dc_bootstrap_skipped := a, dc_bootstrap_complete := b, dc_bootstrap_latency := l\<rparr>) = dc_inv t c"
  "dc_inv t (c\<lparr>dc_running := a, dc_socket_open := b, dc_last_lookup_tick := d,
     dc_bootstrap_skipped := e, dc_bootstrap_complete := f, dc_bootstrap_latency := l, dc_bootstrap_start := s\<rparr>) = dc_inv t c"
  by (simp_all add: dc_inv_def)

lemma dc_inv_load:
  assumes "dc_inv t (nd_client n)" "load_persisted_routing_table now n = Some n'"
  shows "dc_inv t (nd_client n')"
proof (cases "load (nd_fs n) (nd_path n)")
  case (Loaded sn)
  have ids: "\<forall>e\<in>set (sn_entries sn). valid_id (re_id e)" using load_ok [OF Loaded] by blast
  have "rt_inv (dc_table (nd_client n))" using assms(1) by (simp add: dc_inv_def)
  from load_table_inv [OF this ids, of now] show ?thesis
    using assms Loaded by (auto simp: load_persisted_routing_table_def load_table_def dc_inv_def)
qed (use assms in \<open>auto simp: load_persisted_routing_table_def\<close>)

lemma dc_inv_begin: "dc_inv t (nd_client n) \<Longrightarrow> dc_inv t (nd_client (snd (start_begin en now ok n)))"
  by (auto simp: start_begin_def Let_def dc_inv_verify dest: dc_inv_load [rotated] split: option.split)

lemma dc_inv_stop: "dc_inv t c \<Longrightarrow> dc_inv t (dht_stop c)"
  by (auto simp: dht_stop_def dc_inv_def ac_inv_preserved)

lemma node_run_dc_inv: "node_run en t n \<Longrightarrow> dc_inv t (nd_client n)"
proof (induction rule: node_run.induct)
  case (nd_constructed self_id now path_var fs)
  then show ?case by (simp add: nd_new_def dc_new_inv)
next
  case (nd_begin t n now ok)
  then show ?case by (blast intro: dc_inv_mono dc_inv_begin)
next
  case (nd_finish t n now)
  then have "dc_inv now (nd_client n)" by (blast intro: dc_inv_mono)
  then show ?case by (simp add: start_finish_def Let_def dc_inv_bootstrap)
next
  case (nd_recv t n now input)
  then show ?case by (simp add: dc_inv_recv_round dc_inv_mono)
next
  case (nd_maintain t n now)
  then have "dc_inv now (nd_client n)" by (blast intro: dc_inv_mono)
  then show ?case
    by (simp add: node_maintenance_def save_persisted_routing_table_def Let_def dc_inv_maintenance_round)
next
  case (nd_get_peers t n now h)
  then show ?case by (simp add: dc_inv_get_peers dc_inv_mono)
next
  case (nd_stop t n)
  then show ?case by (simp add: node_stop_def save_persisted_routing_table_def Let_def dc_inv_stop)
qed

subsection \<open>Starting with a saved table\<close>

lemma start_begin_loaded:
  fixes now :: time
  assumes "n = nd_new en t0 self path_var fs" "load fs (nd_path n) = Loaded sn" "valid_id self"
    "\<exists>e\<in>set (sn_entries sn). re_id e \<noteq> self \<and> \<not> is_zero (re_id e)"
  defines "T \<equiv> load_table now (sn_entries sn) (rt_new self)"
  shows "\<exists>n'. start_begin en now True n = (Verifying, n') \<and> dc_table (nd_client n') = T \<and>
    map snd (dc_sent (nd_client n')) = map re_pa (rt_all T) \<and> nd_loaded n' = length (rt_all T) \<and>
    nd_persist n' \<and> \<not> nd_clear n'"
proof -
  have ids: "\<forall>e\<in>set (sn_entries sn). valid_id (re_id e)" using load_ok [OF assms(2)] by blast
  have T: "rt_inv T" "rt_all T \<noteq> []"
    using load_table_inv [OF rt_new_inv [OF assms(3)] ids, of now] load_table_nonempty [OF rt_new_inv [OF assms(3)] ids, of now] assms(4)
    by (auto simp: T_def rt_new_def)
  then have "0 < rt_size T" by (simp add: rt_size_length)
  then show ?thesis
    using assms(1,2) T verify_fold [where es = "rt_all T"]
    by (simp add: start_begin_def nd_new_def dc_new_def load_persisted_routing_table_def verify_loaded_routing_entries_def
        rt_size_length Let_def flip: load_table_def T_def)
qed

lemma not_good_loaded: "re_last_seen e = 0 \<Longrightarrow> is_good now e \<longleftrightarrow> now < NODE_GOOD_TIMEOUT"
  by (simp add: is_good_def)

lemma count_good_loaded:
  assumes "rt_inv (rt_new self)" "\<forall>e\<in>set es. valid_id (re_id e) \<and> re_last_seen e = 0" "dc_table c = load_table now es (rt_new self)"
  shows "count_good_routing_entries now' c = (if now' < NODE_GOOD_TIMEOUT then length (rt_all (dc_table c)) else 0)"
proof -
  have "rt_all (rt_new self) = []" by (simp add: rt_all_def rt_new_def)
  then have "\<forall>e\<in>set (rt_all (dc_table c)). re_last_seen e = 0"
    using load_table_inv [OF assms(1), of es now] assms(2,3) by auto
  then show ?thesis by (auto simp: count_good_routing_entries_def not_good_loaded filter_empty_conv intro!: arg_cong [of _ _ length] filter_True)
qed

text \<open>
  On a machine that has been up for less than fifteen minutes the epoch of the
  steady clock is recent enough: loaded nodes count as good before any of them
  has answered, and four of them make \<^verbatim>\<open>start\<close> skip the public bootstrap.
\<close>

lemma unverified_nodes_skip_bootstrap:
  assumes "n = nd_new en t0 self path_var fs" "load fs (nd_path n) = Loaded sn" "valid_id self"
    "\<exists>e\<in>set (sn_entries sn). re_id e \<noteq> self \<and> \<not> is_zero (re_id e)"
    "now < NODE_GOOD_TIMEOUT" "4 \<le> length (rt_all (load_table now (sn_entries sn) (rt_new self)))"
  shows "dc_bootstrap_skipped (nd_client (start_finish en now (snd (start_begin en now True n))))"
proof -
  obtain n' where n': "start_begin en now True n = (Verifying, n')"
    "dc_table (nd_client n') = load_table now (sn_entries sn) (rt_new self)" "nd_persist n'" "\<not> nd_clear n'"
    using start_begin_loaded [OF assms(1-4)] by blast
  have "count_good_routing_entries now (nd_client n') = length (rt_all (dc_table (nd_client n')))"
    using count_good_loaded [OF rt_new_inv [OF assms(3)] load_ok [OF assms(2)] n'(2)] assms(5) by simp
  then show ?thesis using assms(6) n' by (simp add: start_finish_def Let_def kMinGoodEntriesToSkipBootstrap_def)
qed

subsection \<open>Properties\<close>



end
