(* ===== verification/Utilities.thy ===== *)
theory Utilities
  imports Addresses
begin

section \<open>Utilities\<close>

text \<open>
  The text helpers of \<^verbatim>\<open>inc/utils.h\<close> that name files and write summaries, and
  the peer identifier. A duration is the number of whole seconds the code casts
  it to; the helpers that print a floating-point size or rate are not modelled.
\<close>

definition sanitize_filename :: "bytes \<Rightarrow> bytes" where
  "sanitize_filename name =
     map (\<lambda>c. if is_alnum c \<or> c = of_char CHR ''-'' \<or> c = of_char CHR ''_'' \<or> c = of_char CHR ''.'' then c
              else of_char CHR ''_'') name"

definition escape_char :: "byte \<Rightarrow> bytes" where
  "escape_char c =
     (if c = 92 then [92, 92] else if c = 34 then [92, 34] else if c = 10 then [92, 110]
      else if c = 13 then [92, 114] else if c = 9 then [92, 116] else [c])"

definition json_escape :: "bytes \<Rightarrow> bytes" where
  "json_escape s = concat (map escape_char s)"

definition format_duration :: "nat \<Rightarrow> bytes" where
  "format_duration n =
     (let hours = n div 3600; mins = (n mod 3600) div 60; secs = n mod 60
      in if 0 < hours then dec hours @ str ''h '' @ dec mins @ str ''m '' @ dec secs @ str ''s''
         else if 0 < mins then dec mins @ str ''m '' @ dec secs @ str ''s''
         else dec secs @ str ''s'')"

definition format_duration_hours_minutes :: "nat \<Rightarrow> bytes" where
  "format_duration_hours_minutes n =
     (let hours = n div 3600; mins = (n mod 3600) div 60
      in if 0 < hours then dec hours @ str ''h '' @ dec mins @ str ''m''
         else if 0 < mins then dec mins @ str ''m''
         else dec n @ str ''s'')"

text \<open>The twelve bytes after the client prefix are random; they are an argument.\<close>

definition generate_peer_id :: "bytes \<Rightarrow> bytes" where
  "generate_peer_id random = take 20 (str ''-BT0100-'' @ random)"

subsection \<open>Reading an escaped string\<close>

fun json_unescape :: "bytes \<Rightarrow> bytes option" where
  "json_unescape [] = Some []"
| "json_unescape (c # r) =
     (if c = 92 then
        (case r of
           [] \<Rightarrow> None
         | e # r \<Rightarrow>
             (case json_unescape r of
                None \<Rightarrow> None
              | Some s \<Rightarrow>
                  if e = 92 \<or> e = 34 then Some (e # s) else if e = 110 then Some (10 # s)
                  else if e = 114 then Some (13 # s) else if e = 116 then Some (9 # s) else None))
      else if c = 34 \<or> c = 10 then None
      else map_option ((#) c) (json_unescape r))"

lemma json_unescape_escape: "json_unescape (json_escape s) = Some s"
proof (induction s)
  case (Cons c s)
  then show ?case by (auto simp: json_escape_def escape_char_def)
qed (simp add: json_escape_def)

lemma sanitize_chars: "c \<in> set (sanitize_filename name) \<Longrightarrow> c \<noteq> 47 \<and> c \<noteq> 92 \<and> c \<noteq> 0"
  by (auto simp: sanitize_filename_def is_alnum_def is_digit_def split: if_splits)

lemma sanitize_idem: "sanitize_filename (sanitize_filename name) = sanitize_filename name"
  by (simp add: sanitize_filename_def)

lemma length_sanitize [simp]: "length (sanitize_filename name) = length name"
  by (simp add: sanitize_filename_def)

text \<open>
  The names of the current and the parent directory pass unchanged, although the
  result is used as the name of a directory that is removed recursively.
\<close>

lemma sanitize_dots: "sanitize_filename (str ''..'') = str ''..''" "sanitize_filename [] = []"
  by (simp_all add: sanitize_filename_def)

subsection \<open>Properties\<close>

text \<open>Text written into a summary survives: an escaped string contains no bare quote
  or line feed, so it ends where the writer closes it, and a reader of JSON
  escapes gets the original text back.\<close>

theorem json_escape_round_trip:
  "json_unescape (json_escape s) = Some s \<and>
   (\<forall>pre post. json_escape s = pre @ [34] @ post \<longrightarrow> pre \<noteq> [] \<and> last pre = 92) \<and> 10 \<notin> set (json_escape s)"
proof -
  have "10 \<notin> set (json_escape s)" by (auto simp: json_escape_def escape_char_def split: if_splits)
  moreover have "pre \<noteq> [] \<and> last pre = 92" if "json_escape s = pre @ [34] @ post" for pre post
    using that
  proof (induction s arbitrary: pre)
    case (Cons c s)
    have "escape_char c @ json_escape s = pre @ 34 # post" using Cons.prems by (simp add: json_escape_def)
    then consider us where "pre = escape_char c @ us" "json_escape s = us @ 34 # post"
      | us where "escape_char c = pre @ 34 # us"
      by (auto simp: append_eq_append_conv2 append_eq_Cons_conv)
    then show ?case
    proof cases
      case 1
      then show ?thesis using Cons.IH [of us] by auto
    next
      case 2
      then show ?thesis by (auto simp: escape_char_def append_eq_Cons_conv Cons_eq_append_conv split: if_splits)
    qed
  qed (simp add: json_escape_def)
  ultimately show ?thesis using json_unescape_escape by blast
qed

end
