(* ===== verification/Session_Manager.thy ===== *)
theory Session_Manager
  imports Complex_Main Torrent_Manager Dht_Node Utilities
begin

section \<open>The session: all torrents and the DHT client\<close>

text \<open>
  \<^verbatim>\<open>SessionManager\<close> (\<^verbatim>\<open>inc/peer_wire/session_manager.h\<close>,
  \<^verbatim>\<open>src/peer_wire/session_manager.cpp\<close>): the torrents, the shared DHT client
  whose callback hands discovered peers to them, starting and stopping, the
  speed tracking of the status display and the run summaries. The operations
  hold \<^verbatim>\<open>m_mutex\<close> where the code does, so each is one step. A speed is the exact
  quotient the code computes in floating point. The trackers, the peer
  identifiers and the clock are arguments; the UPnP mapping, the text of the
  status display and the contents of the summary files are not modelled, only
  which summaries are written.
\<close>

record torrent_session =
  ts_name :: bytes
  ts_tm :: torrent_manager
  ts_peak :: rat

record session_manager =
  sm_listen_port :: "16 word"
  sm_sessions :: "torrent_session list"
  sm_dht :: "dht_node option"
  sm_status_running :: bool
  sm_prev_bytes :: "nat list"
  sm_speeds :: "rat list"
  sm_prev_up :: "nat list"
  sm_up_speeds :: "rat list"
  sm_last_snapshot :: nat
  sm_metrics_dir :: bytes
  sm_reference_match :: "bool option"
  sm_written :: "path list"

definition sm_new :: "16 word \<Rightarrow> session_manager" where
  "sm_new p = \<lparr>sm_listen_port = p, sm_sessions = [], sm_dht = None, sm_status_running = False, sm_prev_bytes = [],
     sm_speeds = [], sm_prev_up = [], sm_up_speeds = [], sm_last_snapshot = 0, sm_metrics_dir = [],
     sm_reference_match = None, sm_written = []\<rparr>"

text \<open>A null pointer is not added.\<close>

definition add_session :: "torrent_session option \<Rightarrow> session_manager \<Rightarrow> session_manager" where
  "add_session s m = (case s of None \<Rightarrow> m | Some s \<Rightarrow> m\<lparr>sm_sessions := sm_sessions m @ [s]\<rparr>)"

definition info_hash_hex :: "torrent_session \<Rightarrow> bytes" where
  "info_hash_hex s = to_hex (tm_info_hash (ts_tm s))"

subsection \<open>Peers from the DHT\<close>

text \<open>The callback that \<^verbatim>\<open>start_all\<close> installs.\<close>

definition route_peer :: "bytes \<Rightarrow> peer_address \<Rightarrow> session_manager \<Rightarrow> session_manager" where
  "route_peer h pa m =
     m\<lparr>sm_sessions := map (\<lambda>s. if info_hash_hex s \<noteq> h then s else s\<lparr>ts_tm := snd (add_dht_peer pa (ts_tm s))\<rparr>)
         (sm_sessions m)\<rparr>"

text \<open>The calls of the callback that a handler of the client made, in their order.\<close>

definition deliver_callbacks :: "(bytes \<times> peer_address) list \<Rightarrow> session_manager \<Rightarrow> session_manager" where
  "deliver_callbacks calls m = fold (\<lambda>(h, pa). route_peer h pa) calls m"

subsection \<open>Starting\<close>

definition env_set :: "bytes option \<Rightarrow> bool" where
  "env_set v = (case v of None \<Rightarrow> False | Some s \<Rightarrow> s \<noteq> [] \<and> hd s \<noteq> 48)"

text \<open>
  \<^verbatim>\<open>start_all\<close> in three parts: the creation of the client up to the wait in its
  \<^verbatim>\<open>start\<close>, the end of its \<^verbatim>\<open>start\<close>, and the loop that registers and starts the
  torrents. An exception of one torrent leaves the loop.
\<close>

definition create_dht ::
    "dht_env \<Rightarrow> nat \<Rightarrow> node_id \<Rightarrow> bool \<Rightarrow> store_fs \<Rightarrow> bytes option \<Rightarrow> bytes option \<Rightarrow> session_manager \<Rightarrow> start_outcome \<times> session_manager" where
  "create_dht en now self_id bind_ok fs path_var clear_var m =
     (case sm_dht m of
        Some n \<Rightarrow> (AlreadyRunning, m)
      | None \<Rightarrow>
          let n = nd_new en (int now) self_id path_var fs;
              n = (case path_var of Some p \<Rightarrow> set_routing_table_path p n | None \<Rightarrow> n);
              n = (if env_set clear_var then set_clear_persisted_routing_table True n else n)
          in case start_begin en (int now) bind_ok n of (r, n) \<Rightarrow> (r, m\<lparr>sm_dht := Some n\<rparr>))"

definition finish_dht :: "dht_env \<Rightarrow> nat \<Rightarrow> session_manager \<Rightarrow> session_manager" where
  "finish_dht en now m = m\<lparr>sm_dht := map_option (start_finish en (int now)) (sm_dht m)\<rparr>"

fun start_sessions ::
    "dht_env \<Rightarrow> (info_hash \<Rightarrow> tracker) \<Rightarrow> (info_hash \<Rightarrow> bytes) \<Rightarrow> nat \<Rightarrow> 16 word \<Rightarrow> torrent_session list \<Rightarrow> dht_client \<Rightarrow>
     disk_error option \<times> torrent_session list \<times> dht_client" where
  "start_sessions en trk pid now p [] c = (None, [], c)"
| "start_sessions en trk pid now p (s # ss) c =
     (let h = tm_info_hash (ts_tm s);
          c = dht_register_torrent en (int now) h p c
      in case start (trk h) (pid h) now (ts_tm s) of
           (Some e, t) \<Rightarrow> (Some e, s\<lparr>ts_tm := t\<rparr> # ss, c)
         | (None, t) \<Rightarrow>
             (case start_sessions en trk pid now p ss c of (r, ss, c) \<Rightarrow> (r, s\<lparr>ts_tm := t\<rparr> # ss, c)))"

definition start_torrents ::
    "dht_env \<Rightarrow> (info_hash \<Rightarrow> tracker) \<Rightarrow> (info_hash \<Rightarrow> bytes) \<Rightarrow> nat \<Rightarrow> session_manager \<Rightarrow> disk_error option \<times> session_manager" where
  "start_torrents en trk pid now m =
     (case sm_dht m of
        None \<Rightarrow> (None, m)
      | Some n \<Rightarrow>
          (case start_sessions en trk pid now (sm_listen_port m) (sm_sessions m) (nd_client n) of
             (e, ss, c) \<Rightarrow> (e, m\<lparr>sm_sessions := ss, sm_dht := Some (n\<lparr>nd_client := c\<rparr>)\<rparr>)))"

subsection \<open>Summaries\<close>

definition set_metrics_output_dir :: "bytes \<Rightarrow> session_manager \<Rightarrow> session_manager" where
  "set_metrics_output_dir dir m = m\<lparr>sm_metrics_dir := dir\<rparr>"

definition set_reference_match :: "bool option \<Rightarrow> session_manager \<Rightarrow> session_manager" where
  "set_reference_match r m = m\<lparr>sm_reference_match := r\<rparr>"

definition summary_path :: "bytes \<Rightarrow> torrent_session \<Rightarrow> path" where
  "summary_path dir s = path_join dir (sanitize_filename (ts_name s) @ str ''_summary.json'')"

definition try_write_summary :: "bytes \<Rightarrow> torrent_session \<Rightarrow> torrent_session \<times> path list" where
  "try_write_summary dir s =
     (case try_mark_summary_written (ts_tm s) of
        (ok, t) \<Rightarrow> (s\<lparr>ts_tm := t\<rparr>, if ok then [summary_path dir s] else []))"

fun flush_loop :: "bytes \<Rightarrow> bool option \<Rightarrow> torrent_session list \<Rightarrow> torrent_session list \<times> path list" where
  "flush_loop dir r [] = ([], [])"
| "flush_loop dir r (s # ss) =
     (let (s', ws) = (if r \<noteq> None then (s, [summary_path dir s]) else try_write_summary dir s);
          (ss', ws') = flush_loop dir r ss
      in (s' # ss', ws @ ws'))"

definition flush_torrent_summaries :: "session_manager \<Rightarrow> session_manager" where
  "flush_torrent_summaries m =
     (if sm_metrics_dir m = [] then m
      else case flush_loop (sm_metrics_dir m) (sm_reference_match m) (sm_sessions m) of
             (ss, ws) \<Rightarrow> m\<lparr>sm_sessions := ss, sm_written := sm_written m @ ws\<rparr>)"

subsection \<open>Status\<close>

definition resize :: "nat \<Rightarrow> 'a \<Rightarrow> 'a list \<Rightarrow> 'a list" where
  "resize n x xs = take n xs @ replicate (n - length xs) x"

definition downloaded_bytes :: "torrent_manager \<Rightarrow> nat" where
  "downloaded_bytes t = mg_downloaded (tm_manager t)"

text \<open>Bytes per second over a number of nanoseconds.\<close>

definition rate :: "nat \<Rightarrow> nat \<Rightarrow> nat \<Rightarrow> rat" where
  "rate prev cur elapsed = of_nat ((if prev \<le> cur then cur - prev else 0) * 1000000000) / of_nat elapsed"

type_synonym row = "torrent_session \<times> nat \<times> rat \<times> nat \<times> rat"

definition status_row :: "nat \<Rightarrow> nat \<Rightarrow> bytes \<Rightarrow> row \<Rightarrow> row \<times> path list" where
  "status_row now elapsed dir r = (case r of (s, prev, speed, prev_up, up_speed) \<Rightarrow>
     if is_complete (tm_manager (ts_tm s)) then
       let s = s\<lparr>ts_tm := mark_complete_at now (ts_tm s)\<rparr>;
           (s, ws) = (if dir \<noteq> [] then try_write_summary dir s else (s, []))
       in ((s, prev, speed, prev_up, up_speed), ws)
     else
       let cur = downloaded_bytes (ts_tm s); up_cur = uploaded_bytes (ts_tm s);
           speed = rate prev cur elapsed
       in ((s\<lparr>ts_peak := max (ts_peak s) speed\<rparr>, cur, speed, up_cur, rate prev_up up_cur elapsed), []))"

definition rows_of :: "session_manager \<Rightarrow> row list" where
  "rows_of m =
     (let n = length (sm_sessions m) in
      zip (sm_sessions m) (zip (resize n 0 (sm_prev_bytes m)) (zip (resize n 0 (sm_speeds m))
        (zip (resize n 0 (sm_prev_up m)) (resize n 0 (sm_up_speeds m))))))"

definition put_rows :: "row list \<Rightarrow> session_manager \<Rightarrow> session_manager" where
  "put_rows rs m =
     m\<lparr>sm_sessions := map fst rs, sm_prev_bytes := map (\<lambda>r. fst (snd r)) rs, sm_speeds := map (\<lambda>r. fst (snd (snd r))) rs,
       sm_prev_up := map (\<lambda>r. fst (snd (snd (snd r)))) rs, sm_up_speeds := map (\<lambda>r. snd (snd (snd (snd r)))) rs\<rparr>"

text \<open>The part of \<^verbatim>\<open>print_status_locked\<close> that changes state.\<close>

definition update_status :: "nat \<Rightarrow> session_manager \<Rightarrow> session_manager" where
  "update_status now m =
     (let rs = rows_of m in
      if sm_last_snapshot m = 0 then
        (put_rows (map (\<lambda>(s, _, speed, _, up_speed). (s, downloaded_bytes (ts_tm s), speed, uploaded_bytes (ts_tm s), up_speed)) rs) m)
          \<lparr>sm_last_snapshot := now\<rparr>
      else
        let elapsed = now - sm_last_snapshot m in
        if 50000000 < elapsed then
          let out = map (status_row now elapsed (sm_metrics_dir m)) rs
          in (put_rows (map fst out) m)\<lparr>sm_last_snapshot := now, sm_written := sm_written m @ concat (map snd out)\<rparr>
        else put_rows rs m)"

definition session_count :: "session_manager \<Rightarrow> nat" where
  "session_count m = length (sm_sessions m)"

definition all_complete :: "session_manager \<Rightarrow> bool" where
  "all_complete m =
     (if list_ex (\<lambda>s. \<not> is_complete (tm_manager (ts_tm s))) (sm_sessions m) then False else sm_sessions m \<noteq> [])"

definition start_status_refresh :: "session_manager \<Rightarrow> session_manager" where
  "start_status_refresh m = (if sm_status_running m then m else m\<lparr>sm_status_running := True\<rparr>)"

definition stop_status_refresh :: "session_manager \<Rightarrow> session_manager" where
  "stop_status_refresh m = m\<lparr>sm_status_running := False\<rparr>"

subsection \<open>Stopping\<close>

text \<open>With the client goes its file system, in which \<^verbatim>\<open>DhtClient::stop\<close> saved the routing table.\<close>

definition stop_all :: "session_manager \<Rightarrow> store_fs option \<times> session_manager" where
  "stop_all m =
     (let m = stop_status_refresh m;
          m = flush_torrent_summaries m;
          m = (if 1 < length (sm_sessions m) \<and> sm_metrics_dir m \<noteq> []
               then m\<lparr>sm_written := sm_written m @ [path_join (sm_metrics_dir m) (str ''parallel_batch_summary.json'')]\<rparr> else m);
          m = (if sm_dht m \<noteq> None \<and> sm_metrics_dir m \<noteq> []
               then m\<lparr>sm_written := sm_written m @ [path_join (sm_metrics_dir m) (str ''dht_summary.json'')]\<rparr> else m)
      in (map_option (\<lambda>n. nd_fs (node_stop n)) (sm_dht m),
          m\<lparr>sm_dht := None, sm_sessions := map (\<lambda>s. s\<lparr>ts_tm := fst (stop (ts_tm s))\<rparr>) (sm_sessions m)\<rparr>))"

subsection \<open>Routing\<close>

lemma hex_digit_inj: "a < 16 \<Longrightarrow> b < 16 \<Longrightarrow> hex_digit a = hex_digit b \<longleftrightarrow> a = b"
  using xdigit_hex_digit(1) by metis

lemma hex_byte_inj: "hex_byte a = hex_byte b \<longleftrightarrow> a = b"
proof
  have lt: "unat (x :: byte) div 16 < 16" for x using unat_byte_less [of x] by linarith
  assume "hex_byte a = hex_byte b"
  then have "unat a div 16 = unat b div 16" "unat a mod 16 = unat b mod 16"
    using lt [of a] lt [of b] by (simp_all add: hex_byte_def hex_digit_inj)
  then have "unat a = unat b" by (metis div_mult_mod_eq)
  then show "a = b" by (rule unsigned_word_eqI)
qed simp

lemma to_hex_inj: "to_hex a = to_hex b \<longleftrightarrow> a = b"
proof (induction a arbitrary: b)
  case Nil
  then show ?case by (cases b) (simp_all add: to_hex_def hex_byte_def)
next
  case (Cons x a)
  have c: "to_hex (z # zs) = hex_byte z @ to_hex zs" "length (hex_byte z) = 2" for z zs
    by (simp_all add: to_hex_def hex_byte_def)
  show ?case
  proof (cases b)
    case Nil
    then show ?thesis by (simp add: to_hex_def hex_byte_def)
  next
    case (Cons y ys)
    then show ?thesis using Cons.IH by (simp add: c hex_byte_inj)
  qed
qed

lemma spawn_frame:
  "tm_all_peers (spawn_peers_locked t) = tm_all_peers t" "tm_info_hash (spawn_peers_locked t) = tm_info_hash t"
  "tm_started (spawn_peers_locked t) = tm_started t" "tm_stopped (spawn_peers_locked t) = tm_stopped t"
  using spawn_effect [of t] by auto

lemma add_dht_peer_frame:
  "pa \<in> set (tm_all_peers (snd (add_dht_peer pa t)))" "tm_info_hash (snd (add_dht_peer pa t)) = tm_info_hash t"
  "tm_stopped (snd (add_dht_peer pa t)) = tm_stopped t" "set (tm_all_peers t) \<subseteq> set (tm_all_peers (snd (add_dht_peer pa t)))"
  by (auto simp: add_dht_peer_def append_unique_peers_def spawn_frame Let_def)

lemma deliver_callbacks_snoc: "deliver_callbacks (calls @ [(h, pa)]) m = route_peer h pa (deliver_callbacks calls m)"
  by (simp add: deliver_callbacks_def)

lemma deliver_callbacks_frame:
  "length (sm_sessions (deliver_callbacks calls m)) = length (sm_sessions m) \<and>
   (\<forall>i<length (sm_sessions m).
      tm_info_hash (ts_tm (sm_sessions (deliver_callbacks calls m) ! i)) = tm_info_hash (ts_tm (sm_sessions m ! i)) \<and>
      (\<forall>pa. (to_hex (tm_info_hash (ts_tm (sm_sessions m ! i))), pa) \<in> set calls \<longrightarrow>
         pa \<in> set (tm_all_peers (ts_tm (sm_sessions (deliver_callbacks calls m) ! i)))) \<and>
      ((\<forall>pa. (to_hex (tm_info_hash (ts_tm (sm_sessions m ! i))), pa) \<notin> set calls) \<longrightarrow>
         sm_sessions (deliver_callbacks calls m) ! i = sm_sessions m ! i))"
proof (induction calls rule: rev_induct)
  case Nil
  then show ?case by (simp add: deliver_callbacks_def)
next
  case (snoc c calls)
  obtain h pa where c: "c = (h, pa)" by fastforce
  show ?case
    unfolding c deliver_callbacks_snoc using snoc add_dht_peer_frame(1-3) add_dht_peer_frame(4) [THEN subsetD]
    by (auto simp: route_peer_def info_hash_hex_def)
qed

subsection \<open>Starting the torrents\<close>

lemma start_frame:
  "start trk pid now t = (r, t') \<Longrightarrow> tm_started t' \<and> tm_info_hash t' = tm_info_hash t"
  by (auto simp: start_def start_pool_def append_unique_peers_def spawn_frame Let_def split: if_splits prod.splits)

definition registered :: "info_hash \<Rightarrow> 16 word \<Rightarrow> dht_client \<Rightarrow> bool" where
  "registered h p c = (\<exists>r. map_of (ac_registered (dc_announce c)) h = Some r \<and> rg_listen_port r = p)"

lemma registered_mark:
  "(\<exists>r. map_of (ac_registered (mark_initial_lookup_started h' s)) h = Some r \<and> rg_listen_port r = p) \<longleftrightarrow>
   (\<exists>r. map_of (ac_registered s) h = Some r \<and> rg_listen_port r = p)"
  by (auto simp: mark_initial_lookup_started_def update_conv' split: option.splits)

lemma send_all_announce: "dc_announce (send_all os c) = dc_announce c"
  unfolding send_all_def by (induction os arbitrary: c) (auto simp: send_krpc_def)

lemma registered_get_peers: "registered h p (get_peers en now h' c) = registered h p c"
  by (simp add: get_peers_def registered_def registered_mark send_all_announce log_get_peers_lookup_completed_def
      Let_def split: prod.splits)

lemma registered_register: "registered h p (dht_register_torrent en now h' p c) \<longleftrightarrow> h = h' \<or> registered h p c"
proof -
  have "registered h p (c\<lparr>dc_announce := register_torrent now h' p (dc_announce c)\<rparr>) \<longleftrightarrow> h = h' \<or> registered h p c"
    by (auto simp: registered_def register_torrent_def update_conv')
  then show ?thesis by (simp add: dht_register_torrent_def Let_def registered_get_peers)
qed

lemma start_sessions_ok:
  "start_sessions en trk pid now p ss c = (None, ss', c') \<Longrightarrow>
   map (\<lambda>s. tm_info_hash (ts_tm s)) ss' = map (\<lambda>s. tm_info_hash (ts_tm s)) ss \<and>
   (\<forall>s\<in>set ss'. tm_started (ts_tm s) \<and> registered (tm_info_hash (ts_tm s)) p c') \<and>
   (\<forall>h. registered h p c \<longrightarrow> registered h p c')"
proof (induction ss arbitrary: c ss')
  case (Cons s ss)
  let ?h = "tm_info_hash (ts_tm s)"
  obtain t ss1 where t: "start (trk ?h) (pid ?h) now (ts_tm s) = (None, t)"
    and r: "start_sessions en trk pid now p ss (dht_register_torrent en (int now) ?h p c) = (None, ss1, c')"
    and ss': "ss' = s\<lparr>ts_tm := t\<rparr> # ss1"
    using Cons.prems by (auto simp: Let_def split: prod.splits option.splits)
  show ?case using Cons.IH [OF r] start_frame [OF t] by (auto simp: ss' registered_register)
qed simp

subsection \<open>Stopping and summaries\<close>

lemma flush_loop_frame:
  "flush_loop dir r ss = (ss', ws) \<Longrightarrow>
   length ss' = length ss \<and> (r = None \<longrightarrow> (\<forall>s\<in>set ss'. tm_summary_written (ts_tm s)))"
  by (induction ss arbitrary: ss' ws)
    (auto simp: Let_def try_write_summary_def try_mark_summary_written_def split: prod.splits if_splits)

lemma flush_loop_again:
  "\<forall>s\<in>set ss. tm_summary_written (ts_tm s) \<Longrightarrow> snd (flush_loop dir None ss) = []"
  by (induction ss) (auto simp: Let_def try_write_summary_def try_mark_summary_written_def split: prod.splits)

lemma flush_frame:
  "sm_dht (flush_torrent_summaries m) = sm_dht m" "sm_metrics_dir (flush_torrent_summaries m) = sm_metrics_dir m"
  "sm_status_running (flush_torrent_summaries m) = sm_status_running m"
  "sm_reference_match (flush_torrent_summaries m) = sm_reference_match m"
  "length (sm_sessions (flush_torrent_summaries m)) = length (sm_sessions m)"
  by (auto simp: flush_torrent_summaries_def dest: flush_loop_frame split: prod.splits)

lemma stopped_spawns_nothing: "tm_stopped t \<Longrightarrow> tm_threads (snd (add_dht_peer pa t)) = tm_threads t"
proof -
  assume "tm_stopped t"
  then have "spawn_peers_locked t' = t'" if "tm_stopped t'" for t' using that by (subst spawn_peers_locked.simps) simp
  then show ?thesis using \<open>tm_stopped t\<close> by (simp add: add_dht_peer_def append_unique_peers_def Let_def)
qed

lemma deliver_stopped:
  "\<forall>s\<in>set (sm_sessions m). tm_stopped (ts_tm s) \<Longrightarrow>
   map (\<lambda>s. tm_threads (ts_tm s)) (sm_sessions (deliver_callbacks calls m)) = map (\<lambda>s. tm_threads (ts_tm s)) (sm_sessions m) \<and>
   (\<forall>s\<in>set (sm_sessions (deliver_callbacks calls m)). tm_stopped (ts_tm s))"
proof (induction calls rule: rev_induct)
  case Nil
  then show ?case by (simp add: deliver_callbacks_def)
next
  case (snoc c calls)
  obtain h pa where c: "c = (h, pa)" by fastforce
  let ?m = "deliver_callbacks calls m"
  have st: "\<forall>s\<in>set (sm_sessions ?m). tm_stopped (ts_tm s)" and
    th: "map (\<lambda>s. tm_threads (ts_tm s)) (sm_sessions ?m) = map (\<lambda>s. tm_threads (ts_tm s)) (sm_sessions m)"
    using snoc by auto
  have "map (\<lambda>s. tm_threads (ts_tm s)) (sm_sessions (route_peer h pa ?m)) = map (\<lambda>s. tm_threads (ts_tm s)) (sm_sessions ?m)"
    using st by (auto simp: route_peer_def stopped_spawns_nothing)
  moreover have "\<forall>s\<in>set (sm_sessions (route_peer h pa ?m)). tm_stopped (ts_tm s)"
    using st by (auto simp: route_peer_def add_dht_peer_frame(3))
  ultimately show ?case unfolding c deliver_callbacks_snoc using th by simp
qed

subsection \<open>Rates\<close>

lemma nth_resize: "i < n \<Longrightarrow> resize n x xs ! i = (if i < length xs then xs ! i else x)"
  by (simp add: resize_def nth_append)

lemma length_resize [simp]: "length (resize n x xs) = n"
  by (simp add: resize_def)

lemma nth_rows:
  "i < length (sm_sessions m) \<Longrightarrow> length (rows_of m) = length (sm_sessions m) \<and>
   rows_of m ! i = (sm_sessions m ! i, resize (length (sm_sessions m)) 0 (sm_prev_bytes m) ! i,
     resize (length (sm_sessions m)) 0 (sm_speeds m) ! i, resize (length (sm_sessions m)) 0 (sm_prev_up m) ! i,
     resize (length (sm_sessions m)) 0 (sm_up_speeds m) ! i)"
  by (simp add: rows_of_def Let_def)

subsection \<open>A sample session\<close>

definition sample_session :: session_manager where
  "sample_session = (sm_new 6881)\<lparr>sm_sessions := [\<lparr>ts_name = str ''a'', ts_tm = sample_tm\<lparr>tm_started := True\<rparr>, ts_peak = 0\<rparr>],
     sm_prev_bytes := [0], sm_last_snapshot := 1, sm_metrics_dir := str ''m'',
     sm_dht := Some (nd_new sample_env 0 (replicate 20 7) None
       \<lparr>sf_files = Map.empty, sf_dirs = \<lambda>_. True, sf_may_mkdir = \<lambda>_. True, sf_may_write = \<lambda>_. True, sf_may_remove = \<lambda>_. True\<rparr>)\<rparr>"

subsection \<open>Properties\<close>

text \<open>C14: Peers the DHT finds reach the right torrents: after any sequence of callbacks
  every torrent knows all peers that were reported for its info hash, and a
  torrent for whose hash nothing was reported is untouched.\<close>

theorem dht_peers_routed:
  assumes "i < length (sm_sessions m)"
  shows "let m' = deliver_callbacks (map (\<lambda>(h, pa). (to_hex h, pa)) found) m; h = tm_info_hash (ts_tm (sm_sessions m ! i)) in
    length (sm_sessions m') = length (sm_sessions m) \<and> tm_info_hash (ts_tm (sm_sessions m' ! i)) = h \<and>
    (\<forall>pa. (h, pa) \<in> set found \<longrightarrow> pa \<in> set (tm_all_peers (ts_tm (sm_sessions m' ! i)))) \<and>
    ((\<forall>pa. (h, pa) \<notin> set found) \<longrightarrow> sm_sessions m' ! i = sm_sessions m ! i)"
proof -
  have "(to_hex h, pa) \<in> set (map (\<lambda>(h, pa). (to_hex h, pa)) found) \<longleftrightarrow> (h, pa) \<in> set found" for h pa
    by (auto simp: to_hex_inj)
  then show ?thesis
    using deliver_callbacks_frame [of "map (\<lambda>(h, pa). (to_hex h, pa)) found" m] assms unfolding Let_def by presburger
qed

theorem dht_peers_routed_witness:
  "sample_peer \<in> set (tm_all_peers (ts_tm (sm_sessions (deliver_callbacks [(to_hex (replicate 20 0), sample_peer)] sample_session) ! 0)))"
  using dht_peers_routed [of 0 sample_session "[(replicate 20 0, sample_peer)]"]
  by (simp add: sample_session_def sample_tm_def tm_new_def Let_def)

text \<open>A session that starts without an error has every torrent running and registered:
  each torrent is started and its info hash is registered with the DHT client
  under the listen port, so it will be looked up and announced.\<close>

theorem start_torrents_registers:
  assumes "sm_dht m = Some n" "start_torrents en trk pid now m = (None, m')"
  shows "\<exists>n'. sm_dht m' = Some n' \<and>
    map (\<lambda>s. tm_info_hash (ts_tm s)) (sm_sessions m') = map (\<lambda>s. tm_info_hash (ts_tm s)) (sm_sessions m) \<and>
    (\<forall>s\<in>set (sm_sessions m'). tm_started (ts_tm s) \<and> registered (tm_info_hash (ts_tm s)) (sm_listen_port m) (nd_client n'))"
  using assms start_sessions_ok [of en trk pid now "sm_listen_port m" "sm_sessions m" "nd_client n"]
  by (auto simp: start_torrents_def split: prod.splits)

theorem start_torrents_registers_witness:
  "\<exists>m' n'. start_torrents sample_env (\<lambda>_ _. None) (\<lambda>_. []) 5 sample_session = (None, m') \<and> sm_dht m' = Some n' \<and>
     registered (replicate 20 0) 6881 (nd_client n')"
proof -
  let ?st = "start_torrents sample_env (\<lambda>_ _. None) (\<lambda>_. []) 5 sample_session"
  obtain m' where m': "?st = (None, m')" "sm_sessions m' = sm_sessions sample_session"
    by (simp add: start_torrents_def sample_session_def start_def)
  obtain n where n: "sm_dht sample_session = Some n" by (simp add: sample_session_def)
  from start_torrents_registers [OF n m'(1)] show ?thesis
    using m' by (auto simp: sample_session_def sm_new_def sample_tm_def tm_new_def)
qed



text \<open>The rates of the status display: once a first snapshot exists and more than 50
  milliseconds have passed, a downloading torrent shows exactly the bytes since
  the last snapshot per second, its peak is the largest rate so far, and the
  next snapshot starts from its current counters; the display keeps one entry
  per torrent.\<close>

theorem status_rates:
  assumes "sm_last_snapshot m \<noteq> 0" "50000000 < now - sm_last_snapshot m" "i < length (sm_sessions m)"
    "length (sm_prev_bytes m) = length (sm_sessions m)" "s = sm_sessions m ! i" "\<not> is_complete (tm_manager (ts_tm s))"
  shows "let m' = update_status now m; r = rate (sm_prev_bytes m ! i) (downloaded_bytes (ts_tm s)) (now - sm_last_snapshot m) in
    sm_speeds m' ! i = r \<and> 0 \<le> r \<and> ts_peak (sm_sessions m' ! i) = max (ts_peak s) r \<and>
    sm_prev_bytes m' ! i = downloaded_bytes (ts_tm s) \<and> sm_prev_up m' ! i = uploaded_bytes (ts_tm s) \<and>
    length (sm_sessions m') = length (sm_sessions m) \<and> length (sm_speeds m') = length (sm_sessions m)"
  using assms nth_rows [OF assms(3)]
  by (simp add: update_status_def put_rows_def status_row_def Let_def nth_resize) (simp add: rate_def)

theorem status_rates_witness:
  "sm_speeds (update_status 1000000001 sample_session) ! 0 = 0"
proof -
  have "\<not> is_complete sample_manager" "downloaded_bytes sample_tm = 0"
    by (simp_all add: is_complete_def sample_manager_def downloaded_bytes_def sample_tm_def tm_new_def)
  then show ?thesis
    using status_rates [of sample_session 1000000001 0 "sm_sessions sample_session ! 0"]
    by (simp add: sample_session_def sm_new_def sample_tm_def tm_new_def downloaded_bytes_def rate_def Let_def)
qed

text \<open>
  The entries of a complete torrent are skipped, so the upload rate that the
  display shows for a seeding torrent is the one from before its completion.
\<close>

lemma seeding_rate_stale:
  assumes "i < length (sm_sessions m)" "is_complete (tm_manager (ts_tm (sm_sessions m ! i)))"
    "length (sm_up_speeds m) = length (sm_sessions m)"
  shows "sm_up_speeds (update_status now m) ! i = sm_up_speeds m ! i"
  using assms nth_rows [OF assms(1)]
  by (simp add: update_status_def put_rows_def status_row_def Let_def nth_resize split_beta)

end
