(* ===== verification/Ownership.thy ===== *)
theory Ownership
  imports Main "HOL-Library.Multiset"
begin

section \<open>Objects that own a resource\<close>

text \<open>
  Sockets, TLS connections and port mappings are move-only objects: a new one is
  move-constructed from an old one, one is move-assigned to another, one is
  destroyed. The operations are arguments here; each returns the calls it makes
  on the resources. The locale says what makes a class own its resource: a move
  hands it over, a destruction gives it back. Then, over any sequence of
  operations on any objects, every resource is given back at most once, and
  exactly once when no object owns it any more.
\<close>

datatype own_op = MoveInto nat | AssignTo nat nat | Destroy nat

text \<open>One operation on the objects of a program; an assignment to itself does nothing.\<close>

fun own_apply ::
    "('o \<Rightarrow> 'o \<times> 'o) \<Rightarrow> ('o \<Rightarrow> 'o \<Rightarrow> 'c list \<times> 'o \<times> 'o) \<Rightarrow> ('o \<Rightarrow> 'c list \<times> 'o) \<Rightarrow>
     own_op \<Rightarrow> 'o list \<Rightarrow> 'c list \<times> 'o list" where
  "own_apply mv asg des (MoveInto i) os =
     (if i < length os then (case mv (os ! i) of (d, s) \<Rightarrow> ([], os[i := s] @ [d])) else ([], os))"
| "own_apply mv asg des (AssignTo i j) os =
     (if i < length os \<and> j < length os \<and> i \<noteq> j
      then (case asg (os ! i) (os ! j) of (calls, d, s) \<Rightarrow> (calls, os[i := d, j := s])) else ([], os))"
| "own_apply mv asg des (Destroy i) os =
     (if i < length os then (case des (os ! i) of (calls, x) \<Rightarrow> (calls, os[i := x])) else ([], os))"

fun own_run ::
    "('o \<Rightarrow> 'o \<times> 'o) \<Rightarrow> ('o \<Rightarrow> 'o \<Rightarrow> 'c list \<times> 'o \<times> 'o) \<Rightarrow> ('o \<Rightarrow> 'c list \<times> 'o) \<Rightarrow>
     own_op list \<Rightarrow> 'o list \<Rightarrow> 'c list \<times> 'o list" where
  "own_run mv asg des [] os = ([], os)"
| "own_run mv asg des (op # ops) os =
     (case own_apply mv asg des op os of (c, os1) \<Rightarrow> case own_run mv asg des ops os1 of (cs, os2) \<Rightarrow> (c @ cs, os2))"

locale owner =
  fixes mv :: "'o \<Rightarrow> 'o \<times> 'o"
    and asg :: "'o \<Rightarrow> 'o \<Rightarrow> 'c list \<times> 'o \<times> 'o"
    and des :: "'o \<Rightarrow> 'c list \<times> 'o"
    and owns :: "'o \<Rightarrow> 'r multiset"
    and freed :: "'c list \<Rightarrow> 'r multiset"
  assumes mv_owns: "mv x = (d, s) \<Longrightarrow> owns d = owns x \<and> owns s = {#}"
    and asg_owns: "asg x y = (calls, d, s) \<Longrightarrow> owns d = owns y \<and> owns s = {#} \<and> freed calls = owns x"
    and des_owns: "des x = (calls, s) \<Longrightarrow> owns s = {#} \<and> freed calls = owns x"
    and freed_Nil: "freed [] = {#}"
    and freed_append: "freed (xs @ ys) = freed xs + freed ys"
begin

lemma owns_update: "i < length os \<Longrightarrow> sum_list (map owns (os[i := x])) + owns (os ! i) = sum_list (map owns os) + owns x"
proof (induction os arbitrary: i)
  case (Cons a os)
  then show ?case by (cases i) (auto simp: ac_simps)
qed simp

lemma apply_owns:
  "own_apply mv asg des op os = (calls, os') \<Longrightarrow> freed calls + sum_list (map owns os') = sum_list (map owns os)"
proof (induction op)
  case (MoveInto i)
  obtain d s where ds: "mv (os ! i) = (d, s)" by fastforce
  show ?case using MoveInto owns_update [of i os s] mv_owns [OF ds] ds by (auto simp: freed_Nil split: if_splits)
next
  case (AssignTo i j)
  obtain c d s where ds: "asg (os ! i) (os ! j) = (c, d, s)" by (metis prod_cases3)
  have eq: "freed c + sum_list (map owns (os[i := d, j := s])) = sum_list (map owns os)"
    if "i < length os" "j < length os" "i \<noteq> j"
  proof -
    have a: "sum_list (map owns (os[i := d])) = sum_list (map owns (os[i := d, j := s])) + owns (os ! j)"
      using owns_update [of j "os[i := d]" s] asg_owns [OF ds] that by simp
    have "(freed c + sum_list (map owns (os[i := d, j := s]))) + owns (os ! j) = sum_list (map owns os) + owns (os ! j)"
      using owns_update [of i os d] asg_owns [OF ds] that unfolding a by (simp add: ac_simps)
    then show ?thesis by simp
  qed
  show ?case using AssignTo eq ds by (auto simp: freed_Nil split: if_splits)
next
  case (Destroy i)
  obtain c s where ds: "des (os ! i) = (c, s)" by fastforce
  show ?case using Destroy owns_update [of i os s] des_owns [OF ds] ds
    by (auto simp: freed_Nil ac_simps split: if_splits)
qed

lemma run_owns:
  "own_run mv asg des ops os = (calls, os') \<Longrightarrow> freed calls + sum_list (map owns os') = sum_list (map owns os)"
proof (induction ops arbitrary: os calls os')
  case (Cons op ops)
  obtain c os1 where 1: "own_apply mv asg des op os = (c, os1)" by fastforce
  obtain cs os2 where 2: "own_run mv asg des ops os1 = (cs, os2)" by fastforce
  show ?case using Cons.prems Cons.IH [OF 2] apply_owns [OF 1] 1 2 by (auto simp: freed_append ac_simps)
qed (simp add: freed_Nil)

lemma all_freed:
  assumes "own_run mv asg des ops os = (calls, os')" "\<forall>x\<in>set os'. owns x = {#}"
  shows "freed calls = sum_list (map owns os)"
proof -
  have "sum_list (map owns os') = {#}" using assms(2) by (induction os') auto
  then show ?thesis using run_owns [OF assms(1)] by simp
qed

lemma freed_once:
  assumes "own_run mv asg des ops os = (calls, os')" "\<And>r. count (sum_list (map owns os)) r \<le> 1"
  shows "count (freed calls) r \<le> 1"
  using run_owns [OF assms(1)] assms(2) [of r] by (metis count_union le_add1 le_trans)

end

end
