(* ===== verification/Sockets.thy ===== *)
theory Sockets
  imports Peer_Connection Ownership
begin

section \<open>Sockets\<close>

text \<open>
  \<^verbatim>\<open>TCPSocket\<close>, \<^verbatim>\<open>TCPDataSocket\<close>, \<^verbatim>\<open>TCPClientSocket\<close> and \<^verbatim>\<open>UDPSocket\<close>
  (\<^verbatim>\<open>inc/net/socket.h\<close>, \<^verbatim>\<open>src/net/socket.cpp\<close>): the send and receive loops,
  the connect with a time limit, and who closes a descriptor. What the operating
  system answers is an argument: one \<open>sys_call\<close> for every turn of a loop, with
  the clock in nanoseconds, the result of \<^verbatim>\<open>poll\<close> and that of \<^verbatim>\<open>send\<close> or
  \<^verbatim>\<open>recv\<close>. When the list is used up the call has not returned yet.
\<close>

record sys_call =
  sc_now :: int
  sc_poll :: int
  sc_io :: int

datatype io_error = PollErr | TimeoutErr | SendErr | RecvErr | EofErr

datatype 'a io_result = IoDone 'a | IoThrew io_error | IoPending

definition poll_or_throw :: "sys_call \<Rightarrow> io_error option" where
  "poll_or_throw c = (if sc_poll c < 0 then Some PollErr else if sc_poll c = 0 then Some TimeoutErr else None)"

text \<open>The milliseconds left until a deadline.\<close>

definition remaining_ms :: "int \<Rightarrow> sys_call \<Rightarrow> int" where
  "remaining_ms deadline c = (deadline - sc_now c) div 1000000"

subsection \<open>Sending\<close>

text \<open>
  \<^verbatim>\<open>send\<close> accepts at most the bytes it is given; \<open>wire\<close> collects what it
  accepted.
\<close>

definition accepted :: "sys_call \<Rightarrow> bytes \<Rightarrow> nat \<Rightarrow> nat" where
  "accepted c buffer total_sent = min (nat (sc_io c)) (length buffer - total_sent)"

fun send_loop :: "sys_call list \<Rightarrow> bytes \<Rightarrow> nat \<Rightarrow> bytes \<Rightarrow> unit io_result \<times> bytes" where
  "send_loop calls buffer total_sent wire =
     (if length buffer \<le> total_sent then (IoDone (), wire)
      else case calls of
             [] \<Rightarrow> (IoPending, wire)
           | c # cs \<Rightarrow>
               if sc_io c \<le> 0 then (IoThrew SendErr, wire)
               else let n = accepted c buffer total_sent
                    in send_loop cs buffer (total_sent + n) (wire @ take n (drop total_sent buffer)))"

definition tcp_send :: "sys_call list \<Rightarrow> bytes \<Rightarrow> bytes \<Rightarrow> unit io_result \<times> bytes" where
  "tcp_send calls buffer wire = send_loop calls buffer 0 wire"

fun send_timeout_loop :: "int \<Rightarrow> sys_call list \<Rightarrow> bytes \<Rightarrow> nat \<Rightarrow> bytes \<Rightarrow> unit io_result \<times> bytes" where
  "send_timeout_loop deadline calls buffer total_sent wire =
     (if length buffer \<le> total_sent then (IoDone (), wire)
      else case calls of
             [] \<Rightarrow> (IoPending, wire)
           | c # cs \<Rightarrow>
               if remaining_ms deadline c \<le> 0 then (IoThrew TimeoutErr, wire)
               else case poll_or_throw c of
                      Some e \<Rightarrow> (IoThrew e, wire)
                    | None \<Rightarrow>
                        if sc_io c \<le> 0 then (IoThrew SendErr, wire)
                        else let n = accepted c buffer total_sent
                             in send_timeout_loop deadline cs buffer (total_sent + n)
                                  (wire @ take n (drop total_sent buffer)))"

definition tcp_send_with_timeout :: "int \<Rightarrow> int \<Rightarrow> sys_call list \<Rightarrow> bytes \<Rightarrow> bytes \<Rightarrow> unit io_result \<times> bytes" where
  "tcp_send_with_timeout start timeout_ms calls buffer wire =
     send_timeout_loop (start + timeout_ms * 1000000) calls buffer 0 wire"

subsection \<open>Receiving\<close>

text \<open>
  \<open>stream\<close> is what the peer sends before it closes. \<^verbatim>\<open>recv\<close> hands over some of
  it, at least one byte while there is one, and nothing at the end.
\<close>

definition sys_recv :: "sys_call \<Rightarrow> nat \<Rightarrow> bytes \<Rightarrow> bytes" where
  "sys_recv c sz stream = take (min sz (max 1 (nat (sc_io c)))) stream"

definition tcp_recv :: "sys_call \<Rightarrow> nat \<Rightarrow> bytes \<Rightarrow> io_error + bytes" where
  "tcp_recv c sz stream = (if sc_io c < 0 then Inl RecvErr else Inr (sys_recv c sz stream))"

definition tcp_recv_with_timeout :: "sys_call \<Rightarrow> nat \<Rightarrow> bytes \<Rightarrow> io_error + bytes" where
  "tcp_recv_with_timeout c sz stream =
     (case poll_or_throw c of
        Some e \<Rightarrow> Inl e
      | None \<Rightarrow> if sc_io c < 0 then Inl RecvErr else Inr (sys_recv c sz stream))"

fun recv_all_loop :: "sys_call list \<Rightarrow> bytes \<Rightarrow> bytes \<Rightarrow> bytes io_result \<times> bytes" where
  "recv_all_loop [] result stream = (IoPending, stream)"
| "recv_all_loop (c # cs) result stream =
     (case tcp_recv c 4096 stream of
        Inl e \<Rightarrow> (IoThrew e, stream)
      | Inr got \<Rightarrow> if got = [] then (IoDone result, stream)
                   else recv_all_loop cs (result @ got) (drop (length got) stream))"

definition tcp_recv_all :: "sys_call list \<Rightarrow> bytes \<Rightarrow> bytes io_result \<times> bytes" where
  "tcp_recv_all calls stream = recv_all_loop calls [] stream"

fun recv_all_timeout_loop :: "int \<Rightarrow> sys_call list \<Rightarrow> bytes \<Rightarrow> bytes \<Rightarrow> bytes io_result \<times> bytes" where
  "recv_all_timeout_loop deadline [] result stream = (IoPending, stream)"
| "recv_all_timeout_loop deadline (c # cs) result stream =
     (if remaining_ms deadline c \<le> 0 then (IoThrew TimeoutErr, stream)
      else case tcp_recv_with_timeout c 4096 stream of
             Inl e \<Rightarrow> (IoThrew e, stream)
           | Inr got \<Rightarrow> if got = [] then (IoDone result, stream)
                        else recv_all_timeout_loop deadline cs (result @ got) (drop (length got) stream))"

definition tcp_recv_all_with_timeout :: "int \<Rightarrow> int \<Rightarrow> sys_call list \<Rightarrow> bytes \<Rightarrow> bytes io_result \<times> bytes" where
  "tcp_recv_all_with_timeout start timeout_ms calls stream =
     recv_all_timeout_loop (start + timeout_ms * 1000000) calls [] stream"

fun recv_exact_loop :: "sys_call list \<Rightarrow> nat \<Rightarrow> bytes \<Rightarrow> bytes \<Rightarrow> bytes io_result \<times> bytes" where
  "recv_exact_loop calls n buf stream =
     (if n \<le> length buf then (IoDone buf, stream)
      else case calls of
             [] \<Rightarrow> (IoPending, stream)
           | c # cs \<Rightarrow>
               (case tcp_recv c (n - length buf) stream of
                  Inl e \<Rightarrow> (IoThrew e, stream)
                | Inr got \<Rightarrow> if got = [] then (IoThrew EofErr, stream)
                             else recv_exact_loop cs n (buf @ got) (drop (length got) stream)))"

definition tcp_recv_exact :: "sys_call list \<Rightarrow> nat \<Rightarrow> bytes \<Rightarrow> bytes io_result \<times> bytes" where
  "tcp_recv_exact calls n stream = recv_exact_loop calls n [] stream"

fun recv_exact_timeout_loop :: "int \<Rightarrow> sys_call list \<Rightarrow> nat \<Rightarrow> bytes \<Rightarrow> bytes \<Rightarrow> bytes io_result \<times> bytes" where
  "recv_exact_timeout_loop deadline calls n buf stream =
     (if n \<le> length buf then (IoDone buf, stream)
      else case calls of
             [] \<Rightarrow> (IoPending, stream)
           | c # cs \<Rightarrow>
               if remaining_ms deadline c \<le> 0 then (IoThrew TimeoutErr, stream)
               else (case tcp_recv_with_timeout c (n - length buf) stream of
                       Inl e \<Rightarrow> (IoThrew e, stream)
                     | Inr got \<Rightarrow> if got = [] then (IoThrew EofErr, stream)
                                  else recv_exact_timeout_loop deadline cs n (buf @ got) (drop (length got) stream)))"

definition tcp_recv_exact_timeout :: "int \<Rightarrow> int \<Rightarrow> sys_call list \<Rightarrow> nat \<Rightarrow> bytes \<Rightarrow> bytes io_result \<times> bytes" where
  "tcp_recv_exact_timeout start timeout_ms calls n stream =
     recv_exact_timeout_loop (start + timeout_ms * 1000000) calls n [] stream"

declare send_loop.simps [simp del] send_timeout_loop.simps [simp del]
  recv_exact_loop.simps [simp del] recv_exact_timeout_loop.simps [simp del]

subsection \<open>Connecting with a time limit\<close>

text \<open>
  The results of the calls, in the order of the code; \<open>cs_restore\<close> is whether
  the descriptor's flags can be set back. The flags themselves are the state.
\<close>

record connect_sys =
  cs_getfl :: bool
  cs_setfl :: bool
  cs_connect :: int
  cs_in_progress :: bool
  cs_poll :: int
  cs_getsockopt :: int
  cs_so_error :: int
  cs_restore :: bool

datatype connect_error = WrongDomain | FcntlErr | ConnectErr | ConnectPollErr | ConnectTimeout | SockoptErr

definition nonblocking :: "32 word \<Rightarrow> 32 word" where
  "nonblocking flags = (flags OR 2048)"

definition restore_flags :: "bool \<Rightarrow> 32 word \<Rightarrow> 32 word \<Rightarrow> 32 word" where
  "restore_flags ok flags now = (if ok then flags else now)"

definition connect_with_timeout :: "bool \<Rightarrow> connect_sys \<Rightarrow> 32 word \<Rightarrow> connect_error option \<times> 32 word" where
  "connect_with_timeout same_domain sys flags =
     (if \<not> same_domain then (Some WrongDomain, flags)
      else if \<not> cs_getfl sys then (Some FcntlErr, flags)
      else if \<not> cs_setfl sys then (Some FcntlErr, flags)
      else
        let now = nonblocking flags; back = restore_flags (cs_restore sys) flags now
        in if cs_connect sys < 0 \<and> \<not> cs_in_progress sys then (Some ConnectErr, back)
           else if cs_connect sys = 0 then (None, back)
           else if cs_poll sys < 0 then (Some ConnectPollErr, back)
           else if cs_poll sys = 0 then (Some ConnectTimeout, back)
           else if cs_getsockopt sys < 0 then (Some SockoptErr, back)
           else if cs_so_error sys \<noteq> 0 then (Some ConnectErr, back)
           else (None, back))"

subsection \<open>Descriptors\<close>

record tcp_socket =
  ts_fd :: int
  ts_domain :: nat

datatype fd_call = Shutdown int | Close int

definition tcp_move :: "tcp_socket \<Rightarrow> tcp_socket \<times> tcp_socket" where
  "tcp_move other = (other, other\<lparr>ts_fd := - 1\<rparr>)"

definition tcp_assign :: "tcp_socket \<Rightarrow> tcp_socket \<Rightarrow> fd_call list \<times> tcp_socket \<times> tcp_socket" where
  "tcp_assign this other =
     (if ts_fd this \<noteq> - 1 then [Close (ts_fd this)] else [],
      this\<lparr>ts_fd := ts_fd other, ts_domain := ts_domain other\<rparr>, other\<lparr>ts_fd := - 1\<rparr>)"

text \<open>The destructor; the object that is gone is one without a descriptor.\<close>

definition tcp_destroy :: "tcp_socket \<Rightarrow> fd_call list \<times> tcp_socket" where
  "tcp_destroy s =
     (if ts_fd s \<noteq> - 1 then ([Shutdown (ts_fd s), Close (ts_fd s)], s\<lparr>ts_fd := - 1\<rparr>) else ([], s))"

record udp_socket =
  us_fd :: int
  us_domain :: nat

definition udp_move :: "udp_socket \<Rightarrow> udp_socket \<times> udp_socket" where
  "udp_move other = (other, other\<lparr>us_fd := - 1\<rparr>)"

definition udp_assign :: "udp_socket \<Rightarrow> udp_socket \<Rightarrow> fd_call list \<times> udp_socket \<times> udp_socket" where
  "udp_assign this other =
     (if us_fd this \<noteq> - 1 then [Close (us_fd this)] else [],
      this\<lparr>us_fd := us_fd other, us_domain := us_domain other\<rparr>, other\<lparr>us_fd := - 1\<rparr>)"

definition udp_close :: "udp_socket \<Rightarrow> fd_call list \<times> udp_socket" where
  "udp_close s = (if us_fd s \<noteq> - 1 then ([Close (us_fd s)], s\<lparr>us_fd := - 1\<rparr>) else ([], s))"

definition udp_destroy :: "udp_socket \<Rightarrow> fd_call list \<times> udp_socket" where
  "udp_destroy s = (if us_fd s \<noteq> - 1 then ([Close (us_fd s)], s\<lparr>us_fd := - 1\<rparr>) else ([], s))"

text \<open>What a socket owns, and what a sequence of calls closes.\<close>

definition fd_owned :: "int \<Rightarrow> int multiset" where
  "fd_owned fd = (if fd = - 1 then {#} else {#fd#})"

fun closed_fds :: "fd_call list \<Rightarrow> int list" where
  "closed_fds [] = []" | "closed_fds (Close fd # cs) = fd # closed_fds cs" | "closed_fds (Shutdown fd # cs) = closed_fds cs"

lemma closed_fds_append [simp]: "closed_fds (xs @ ys) = closed_fds xs @ closed_fds ys"
  by (induction xs rule: closed_fds.induct) auto

interpretation tcp: owner tcp_move tcp_assign tcp_destroy "\<lambda>s. fd_owned (ts_fd s)" "\<lambda>cs. mset (closed_fds cs)"
  by unfold_locales (auto simp: tcp_move_def tcp_assign_def tcp_destroy_def fd_owned_def split: if_splits)

interpretation udp: owner udp_move udp_assign udp_destroy "\<lambda>s. fd_owned (us_fd s)" "\<lambda>cs. mset (closed_fds cs)"
  by unfold_locales (auto simp: udp_move_def udp_assign_def udp_destroy_def fd_owned_def split: if_splits)

subsection \<open>Opening, binding, accepting\<close>

text \<open>
  The constructors and the single calls; the results of the system calls are
  arguments. A constructor also returns the calls it makes on the descriptor: the
  destructor of the base class closes it when a derived constructor throws.
\<close>

definition AF_UNIX :: nat where "AF_UNIX = 1"
definition AF_INET :: nat where "AF_INET = 2"
definition AF_INET6 :: nat where "AF_INET6 = 10"
definition SOCK_STREAM :: nat where "SOCK_STREAM = 1"
definition SOCK_DGRAM :: nat where "SOCK_DGRAM = 2"

datatype socket_error = BadDomain | SocketErr | OptionErr | DomainMismatch | BindErr | ListenErr | AcceptErr | ConnErr
  | SendtoErr | RecvfromErr | SocknameErr | BadSocketType | ResolveErr
  | BadInterface | UnsupportedDomain

definition valid_domain :: "nat \<Rightarrow> bool" where
  "valid_domain d \<longleftrightarrow> d = AF_UNIX \<or> d = AF_INET \<or> d = AF_INET6"

record tcp_server = tcp_socket +
  sv_backlog :: "int option"

definition tcp_server_new :: "nat \<Rightarrow> int \<Rightarrow> int \<Rightarrow> fd_call list \<times> (socket_error + tcp_server)" where
  "tcp_server_new domain fd opt =
     (if \<not> valid_domain domain then ([], Inl BadDomain)
      else if fd = - 1 then ([], Inl SocketErr)
      else if opt < 0 then (fst (tcp_destroy \<lparr>ts_fd = fd, ts_domain = domain\<rparr>), Inl OptionErr)
      else ([], Inr \<lparr>ts_fd = fd, ts_domain = domain, sv_backlog = None\<rparr>))"

definition server_move :: "tcp_server \<Rightarrow> tcp_server \<times> tcp_server" where
  "server_move other = (other, other\<lparr>ts_fd := - 1\<rparr>)"

definition server_assign :: "tcp_server \<Rightarrow> tcp_server \<Rightarrow> fd_call list \<times> tcp_server \<times> tcp_server" where
  "server_assign this other =
     (if ts_fd this \<noteq> - 1 then [Close (ts_fd this)] else [],
      this\<lparr>ts_fd := ts_fd other, ts_domain := ts_domain other, sv_backlog := sv_backlog other\<rparr>,
      other\<lparr>ts_fd := - 1\<rparr>)"

definition server_destroy :: "tcp_server \<Rightarrow> fd_call list \<times> tcp_server" where
  "server_destroy s =
     (if ts_fd s \<noteq> - 1 then ([Shutdown (ts_fd s), Close (ts_fd s)], s\<lparr>ts_fd := - 1\<rparr>) else ([], s))"

definition tcp_bind :: "nat \<Rightarrow> int \<Rightarrow> tcp_server \<Rightarrow> socket_error option" where
  "tcp_bind address_domain ret s =
     (if address_domain \<noteq> ts_domain s then Some DomainMismatch else if ret < 0 then Some BindErr else None)"

definition tcp_listen :: "int \<Rightarrow> int \<Rightarrow> tcp_server \<Rightarrow> socket_error + tcp_server" where
  "tcp_listen backlog ret s = (if ret < 0 then Inl ListenErr else Inr (s\<lparr>sv_backlog := Some backlog\<rparr>))"

definition tcp_accept :: "int \<Rightarrow> tcp_server \<Rightarrow> socket_error + tcp_socket" where
  "tcp_accept fd s = (if fd < 0 then Inl AcceptErr else Inr \<lparr>ts_fd = fd, ts_domain = ts_domain s\<rparr>)"

definition tcp_client_new :: "nat \<Rightarrow> int \<Rightarrow> fd_call list \<times> (socket_error + tcp_socket)" where
  "tcp_client_new domain fd =
     (if \<not> valid_domain domain then ([], Inl BadDomain)
      else if fd = - 1 then ([], Inl SocketErr)
      else ([], Inr \<lparr>ts_fd = fd, ts_domain = domain\<rparr>))"

definition tcp_connect :: "nat \<Rightarrow> int \<Rightarrow> tcp_socket \<Rightarrow> socket_error option" where
  "tcp_connect address_domain ret s =
     (if address_domain \<noteq> ts_domain s then Some DomainMismatch else if ret < 0 then Some ConnErr else None)"

definition udp_new :: "nat \<Rightarrow> int \<Rightarrow> fd_call list \<times> (socket_error + udp_socket)" where
  "udp_new domain fd =
     (if \<not> valid_domain domain then ([], Inl BadDomain)
      else if fd = - 1 then ([], Inl SocketErr)
      else ([], Inr \<lparr>us_fd = fd, us_domain = domain\<rparr>))"

text \<open>A datagram is cut at the size of the buffer; the address is read in the family of the socket.\<close>

definition MAX_UDP_PAYLOAD :: nat where "MAX_UDP_PAYLOAD = 65507"

definition udp_recvfrom :: "(bytes \<times> 'a) option \<Rightarrow> socket_error + (bytes \<times> 'a)" where
  "udp_recvfrom datagram =
     (case datagram of None \<Rightarrow> Inl RecvfromErr | Some (d, sender) \<Rightarrow> Inr (take MAX_UDP_PAYLOAD d, sender))"

definition udp_recvfrom_with_timeout :: "sys_call \<Rightarrow> (bytes \<times> 'a) option \<Rightarrow> (io_error + socket_error) + (bytes \<times> 'a)" where
  "udp_recvfrom_with_timeout c datagram =
     (case poll_or_throw c of
        Some e \<Rightarrow> Inl (Inl e)
      | None \<Rightarrow> (case udp_recvfrom datagram of Inl e \<Rightarrow> Inl (Inr e) | Inr x \<Rightarrow> Inr x))"

definition udp_sendto :: "int \<Rightarrow> socket_error option" where
  "udp_sendto ret = (if ret < 0 then Some SendtoErr else None)"

definition udp_bind :: "nat \<Rightarrow> int \<Rightarrow> int \<Rightarrow> udp_socket \<Rightarrow> socket_error option" where
  "udp_bind address_domain opt ret s =
     (if address_domain \<noteq> us_domain s then Some DomainMismatch
      else if opt < 0 then Some OptionErr else if ret < 0 then Some BindErr else None)"

definition udp_connect :: "nat \<Rightarrow> int \<Rightarrow> udp_socket \<Rightarrow> socket_error option" where
  "udp_connect address_domain ret s =
     (if address_domain \<noteq> us_domain s then Some DomainMismatch else if ret < 0 then Some ConnErr else None)"

text \<open>The value set for the multicast time to live, if the option is set at all.\<close>

definition multicast_ttl :: "int \<Rightarrow> udp_socket \<Rightarrow> 8 word option" where
  "multicast_ttl ttl s = (if us_domain s \<noteq> AF_INET then None else Some (of_int ttl))"

definition set_multicast_ttl :: "int \<Rightarrow> udp_socket \<Rightarrow> socket_error option" where
  "set_multicast_ttl ret s = (if us_domain s \<noteq> AF_INET then None else if ret < 0 then Some OptionErr else None)"

definition set_multicast_if :: "bool \<Rightarrow> int \<Rightarrow> udp_socket \<Rightarrow> socket_error option" where
  "set_multicast_if ip_ok ret s =
     (if \<not> ip_ok then Some BadInterface
      else if us_domain s \<noteq> AF_INET then None else if ret < 0 then Some OptionErr else None)"

definition local_address :: "'a option \<Rightarrow> udp_socket \<Rightarrow> socket_error + (nat \<times> 'a)" where
  "local_address sockname s =
     (if us_domain s = AF_INET \<or> us_domain s = AF_INET6
      then (case sockname of None \<Rightarrow> Inl SocknameErr | Some a \<Rightarrow> Inr (us_domain s, a))
      else Inl UnsupportedDomain)"

text \<open>Name resolution keeps the addresses of the two IP families, in their order.\<close>

definition dns_lookup :: "nat \<Rightarrow> (nat \<times> 'a) list option \<Rightarrow> socket_error + (nat \<times> 'a) list" where
  "dns_lookup socket_type res =
     (if socket_type \<noteq> SOCK_STREAM \<and> socket_type \<noteq> SOCK_DGRAM then Inl BadSocketType
      else case res of None \<Rightarrow> Inl ResolveErr
                     | Some as \<Rightarrow> Inr (filter (\<lambda>(f, _). f = AF_INET \<or> f = AF_INET6) as))"

text \<open>
  No constructor leaks a descriptor: one that was obtained is owned by the new
  socket or has been closed.
\<close>

lemma tcp_server_new_owns:
  "tcp_server_new domain fd opt = (calls, r) \<Longrightarrow>
     mset (closed_fds calls) + (case r of Inl _ \<Rightarrow> {#} | Inr s \<Rightarrow> fd_owned (ts_fd s)) =
       (if valid_domain domain then fd_owned fd else {#})"
  by (auto simp: tcp_server_new_def tcp_destroy_def fd_owned_def split: if_splits)

lemma tcp_client_new_owns:
  "tcp_client_new domain fd = (calls, r) \<Longrightarrow>
     mset (closed_fds calls) + (case r of Inl _ \<Rightarrow> {#} | Inr s \<Rightarrow> fd_owned (ts_fd s)) =
       (if valid_domain domain then fd_owned fd else {#})"
  by (auto simp: tcp_client_new_def fd_owned_def split: if_splits)

lemma udp_new_owns:
  "udp_new domain fd = (calls, r) \<Longrightarrow>
     mset (closed_fds calls) + (case r of Inl _ \<Rightarrow> {#} | Inr s \<Rightarrow> fd_owned (us_fd s)) =
       (if valid_domain domain then fd_owned fd else {#})"
  by (auto simp: udp_new_def fd_owned_def split: if_splits)

interpretation server: owner server_move server_assign server_destroy "\<lambda>s. fd_owned (ts_fd s)" "\<lambda>cs. mset (closed_fds cs)"
  by unfold_locales (auto simp: server_move_def server_assign_def server_destroy_def fd_owned_def split: if_splits)

lemma dns_lookup_family: "dns_lookup t res = Inr as \<Longrightarrow> (f, a) \<in> set as \<Longrightarrow> f = AF_INET \<or> f = AF_INET6"
  by (auto simp: dns_lookup_def split: if_splits option.splits)

text \<open>A time to live above 255 wraps.\<close>

lemma multicast_ttl_wraps: "us_domain s = AF_INET \<Longrightarrow> multicast_ttl 260 s = Some 4"
  by (simp add: multicast_ttl_def)

subsection \<open>What the loops transfer\<close>

lemma accepted_pos: "0 < sc_io c \<Longrightarrow> t < length buffer \<Longrightarrow> 0 < accepted c buffer t \<and> t + accepted c buffer t \<le> length buffer"
  by (auto simp: accepted_def)

lemma send_loop_wire:
  "t \<le> length buffer \<Longrightarrow> send_loop calls buffer t wire = (r, w) \<Longrightarrow>
     \<exists>k. t \<le> k \<and> k \<le> length buffer \<and> w = wire @ take (k - t) (drop t buffer) \<and> (r = IoDone () \<longleftrightarrow> k = length buffer)"
proof (induction calls arbitrary: t wire)
  case Nil
  then show ?case by (auto simp: send_loop.simps intro!: exI [of _ t] split: if_splits)
next
  case (Cons c cs)
  show ?case
  proof (cases "t < length buffer \<and> 0 < sc_io c")
    case True
    let ?n = "accepted c buffer t"
    have n: "0 < ?n" "t + ?n \<le> length buffer" using accepted_pos True by auto
    have "send_loop cs buffer (t + ?n) (wire @ take ?n (drop t buffer)) = (r, w)"
      using Cons.prems(2) True by (simp add: send_loop.simps [of "c # cs"] Let_def)
    from Cons.IH [OF n(2) this] obtain k where k: "t + ?n \<le> k" "k \<le> length buffer"
      "w = (wire @ take ?n (drop t buffer)) @ take (k - (t + ?n)) (drop (t + ?n) buffer)"
      "r = IoDone () \<longleftrightarrow> k = length buffer" by blast
    have "take (k - t) (drop t buffer) = take ?n (drop t buffer) @ take (k - (t + ?n)) (drop (t + ?n) buffer)"
      using k(1) take_add [of ?n "k - (t + ?n)" "drop t buffer"] by (simp add: add.commute)
    then show ?thesis using k by (intro exI [of _ k]) auto
  next
    case False
    then show ?thesis using Cons.prems by (auto simp: send_loop.simps [of "c # cs"] intro!: exI [of _ t] split: if_splits)
  qed
qed

lemma send_loop_returns: "length buffer - t \<le> length calls \<Longrightarrow> fst (send_loop calls buffer t wire) \<noteq> IoPending"
proof (induction calls arbitrary: t wire)
  case Nil
  then show ?case by (simp add: send_loop.simps)
next
  case (Cons c cs)
  have "length buffer - (t + accepted c buffer t) \<le> length cs" if "0 < sc_io c" "t < length buffer"
    using accepted_pos [OF that] Cons.prems by (simp; arith)
  then show ?case using Cons.IH by (simp add: send_loop.simps [of "c # cs"] Let_def)
qed

text \<open>A turn of a timed loop that is in time and ready does what the plain loop does.\<close>

definition ready :: "int \<Rightarrow> sys_call \<Rightarrow> bool" where
  "ready deadline c \<longleftrightarrow> 0 < remaining_ms deadline c \<and> 0 < sc_poll c"

lemma send_timeout_loop_ready:
  "\<forall>c\<in>set calls. ready deadline c \<Longrightarrow> send_timeout_loop deadline calls buffer t wire = send_loop calls buffer t wire"
proof (induction calls arbitrary: t wire)
  case (Cons c cs)
  then show ?case
    by (auto simp: send_loop.simps [of "c # cs"] send_timeout_loop.simps [of _ "c # cs"] Let_def ready_def poll_or_throw_def)
qed (simp add: send_loop.simps send_timeout_loop.simps)

lemma recv_exact_timeout_loop_ready:
  "\<forall>c\<in>set calls. ready deadline c \<Longrightarrow>
     recv_exact_timeout_loop deadline calls n buf stream = recv_exact_loop calls n buf stream"
proof (induction calls arbitrary: buf stream)
  case (Cons c cs)
  then show ?case
    by (auto simp: recv_exact_loop.simps [of "c # cs"] recv_exact_timeout_loop.simps [of _ "c # cs"] tcp_recv_def
        tcp_recv_with_timeout_def ready_def poll_or_throw_def)
qed (simp add: recv_exact_loop.simps recv_exact_timeout_loop.simps)

lemma recv_all_timeout_loop_ready:
  "\<forall>c\<in>set calls. ready deadline c \<Longrightarrow> recv_all_timeout_loop deadline calls res stream = recv_all_loop calls res stream"
  by (induction calls arbitrary: res stream)
    (auto simp: tcp_recv_def tcp_recv_with_timeout_def ready_def poll_or_throw_def)

text \<open>
  Whatever the calls return, a timed loop that returns has only taken turns that
  were in time and ready.
\<close>

lemma send_timeout_loop_done:
  "send_timeout_loop deadline calls buffer t wire = (IoDone u, w) \<Longrightarrow>
     \<exists>k. send_loop (take k calls) buffer t wire = (IoDone u, w) \<and> (\<forall>c\<in>set (take k calls). ready deadline c)"
proof (induction calls arbitrary: t wire)
  case Nil
  then show ?case by (simp add: send_timeout_loop.simps send_loop.simps split: if_splits)
next
  case (Cons c cs)
  show ?case
  proof (cases "length buffer \<le> t")
    case True
    then show ?thesis using Cons.prems by (intro exI [of _ 0]) (simp add: send_loop.simps send_timeout_loop.simps)
  next
    case False
    with Cons.prems have r: "ready deadline c" "0 < sc_io c" and
      rest: "send_timeout_loop deadline cs buffer (t + accepted c buffer t)
        (wire @ take (accepted c buffer t) (drop t buffer)) = (IoDone u, w)"
      by (auto simp: send_timeout_loop.simps [of _ "c # cs"] Let_def ready_def poll_or_throw_def split: if_splits)
    from Cons.IH [OF rest] obtain k where
      "send_loop (take k cs) buffer (t + accepted c buffer t) (wire @ take (accepted c buffer t) (drop t buffer)) = (IoDone u, w)"
      "\<forall>c\<in>set (take k cs). ready deadline c" by blast
    then show ?thesis using r False
      by (intro exI [of _ "Suc k"]) (simp add: send_loop.simps [of "c # _"] Let_def)
  qed
qed

lemma sys_recv_split: "sys_recv c sz stream @ drop (length (sys_recv c sz stream)) stream = stream"
  by (simp add: sys_recv_def min_def)

lemma sys_recv_Nil: "0 < sz \<Longrightarrow> sys_recv c sz stream = [] \<longleftrightarrow> stream = []"
  by (auto simp: sys_recv_def min_def max_def)

lemma length_sys_recv: "length (sys_recv c sz stream) \<le> sz"
  by (simp add: sys_recv_def)

lemma recv_exact_loop_done:
  "recv_exact_loop calls n buf stream = (IoDone b, rest) \<Longrightarrow> length buf \<le> n \<Longrightarrow> b @ rest = buf @ stream \<and> length b = n"
proof (induction calls arbitrary: buf stream)
  case Nil
  then show ?case by (auto simp: recv_exact_loop.simps split: if_splits)
next
  case (Cons c cs)
  let ?g = "sys_recv c (n - length buf) stream"
  show ?case
  proof (cases "n \<le> length buf")
    case True
    then show ?thesis using Cons.prems by (auto simp: recv_exact_loop.simps [of "c # cs"])
  next
    case False
    with Cons.prems(1) have "recv_exact_loop cs n (buf @ ?g) (drop (length ?g) stream) = (IoDone b, rest)"
      by (auto simp: recv_exact_loop.simps [of "c # cs"] tcp_recv_def split: if_splits)
    moreover have "length (buf @ ?g) \<le> n" using length_sys_recv [of c "n - length buf" stream] False by simp
    ultimately have "b @ rest = (buf @ ?g) @ drop (length ?g) stream \<and> length b = n" by (rule Cons.IH)
    then show ?thesis by (simp add: sys_recv_split)
  qed
qed

lemma recv_exact_timeout_loop_done:
  "recv_exact_timeout_loop deadline calls n buf stream = (IoDone b, rest) \<Longrightarrow>
     \<exists>k. recv_exact_loop (take k calls) n buf stream = (IoDone b, rest) \<and> (\<forall>c\<in>set (take k calls). ready deadline c)"
proof (induction calls arbitrary: buf stream)
  case Nil
  then show ?case by (simp add: recv_exact_timeout_loop.simps recv_exact_loop.simps split: if_splits)
next
  case (Cons c cs)
  let ?g = "sys_recv c (n - length buf) stream"
  show ?case
  proof (cases "n \<le> length buf")
    case True
    then show ?thesis using Cons.prems
      by (intro exI [of _ 0]) (simp add: recv_exact_loop.simps recv_exact_timeout_loop.simps)
  next
    case False
    with Cons.prems have r: "ready deadline c" "0 \<le> sc_io c" "?g \<noteq> []" and
      rest: "recv_exact_timeout_loop deadline cs n (buf @ ?g) (drop (length ?g) stream) = (IoDone b, rest)"
      by (auto simp: recv_exact_timeout_loop.simps [of _ "c # cs"] tcp_recv_with_timeout_def ready_def poll_or_throw_def
          split: if_splits)
    from Cons.IH [OF rest] obtain k where
      "recv_exact_loop (take k cs) n (buf @ ?g) (drop (length ?g) stream) = (IoDone b, rest)"
      "\<forall>c\<in>set (take k cs). ready deadline c" by blast
    then show ?thesis using r False
      by (intro exI [of _ "Suc k"]) (simp add: recv_exact_loop.simps [of "c # _"] tcp_recv_def)
  qed
qed

text \<open>With calls that do not fail, the chunks do not matter.\<close>

lemma recv_exact_loop_stream:
  "\<forall>c\<in>set calls. 0 \<le> sc_io c \<Longrightarrow> n - length buf \<le> length calls \<Longrightarrow> length buf \<le> n \<Longrightarrow>
     recv_exact_loop calls n buf stream =
       (if n - length buf \<le> length stream
        then (IoDone (buf @ take (n - length buf) stream), drop (n - length buf) stream) else (IoThrew EofErr, []))"
proof (induction calls arbitrary: buf stream)
  case Nil
  then show ?case by (simp add: recv_exact_loop.simps)
next
  case (Cons c cs)
  let ?m = "n - length buf" and ?g = "sys_recv c (n - length buf) stream"
  show ?case
  proof (cases "?m = 0 \<or> stream = []")
    case True
    then show ?thesis using Cons.prems by (auto simp: recv_exact_loop.simps [of "c # cs"] tcp_recv_def sys_recv_def)
  next
    case False
    then have g: "?g \<noteq> []" "length ?g \<le> ?m" "length ?g \<le> length stream"
      using sys_recv_Nil [of ?m c stream] length_sys_recv [of c ?m stream] by (auto simp: sys_recv_def)
    have step: "recv_exact_loop (c # cs) n buf stream = recv_exact_loop cs n (buf @ ?g) (drop (length ?g) stream)"
      using False g(1) Cons.prems(1) by (simp add: recv_exact_loop.simps [of "c # cs"] tcp_recv_def)
    have len: "n - length (buf @ ?g) \<le> length cs" "length (buf @ ?g) \<le> n"
      using g Cons.prems(2,3) by (cases ?g; simp)+
    have take: "take ?m stream = ?g @ take (?m - length ?g) (drop (length ?g) stream)"
      using g(2) by (metis le_add_diff_inverse sys_recv_split take_add append_eq_conv_conj)
    have "(n - length (buf @ ?g) \<le> length (drop (length ?g) stream)) = (?m \<le> length stream)" using g(2,3) by (simp; arith)
    then show ?thesis
      unfolding step using Cons.IH [of "buf @ ?g" "drop (length ?g) stream"] Cons.prems(1) len g take by simp
  qed
qed

lemma recv_all_loop_done: "recv_all_loop calls res stream = (IoDone b, rest) \<Longrightarrow> b = res @ stream \<and> rest = []"
proof (induction calls arbitrary: res stream)
  case (Cons c cs)
  let ?g = "sys_recv c 4096 stream"
  show ?case
  proof (cases "?g = []")
    case True
    then show ?thesis using Cons.prems sys_recv_Nil [of 4096 c stream] by (auto simp: tcp_recv_def split: if_splits)
  next
    case False
    then have "recv_all_loop cs (res @ ?g) (drop (length ?g) stream) = (IoDone b, rest)"
      using Cons.prems by (auto simp: tcp_recv_def split: if_splits)
    from Cons.IH [OF this] show ?thesis by (simp add: sys_recv_split)
  qed
qed simp

lemma recv_all_loop_stream:
  "\<forall>c\<in>set calls. 0 \<le> sc_io c \<Longrightarrow> length stream < length calls \<Longrightarrow> recv_all_loop calls res stream = (IoDone (res @ stream), [])"
proof (induction calls arbitrary: res stream)
  case (Cons c cs)
  let ?g = "sys_recv c 4096 stream"
  show ?case
  proof (cases "stream = []")
    case True
    then show ?thesis using Cons.prems by (simp add: tcp_recv_def sys_recv_def)
  next
    case False
    then have g: "?g \<noteq> []" using sys_recv_Nil [of 4096 c stream] by simp
    then have "0 < length ?g" "0 < length stream" using False by simp_all
    then have "length (drop (length ?g) stream) < length cs" using Cons.prems(2)
      by (simp only: length_drop list.size)
    from Cons.IH [OF _ this, of "res @ ?g"] Cons.prems(1) g
    have "recv_all_loop (c # cs) res stream = (IoDone ((res @ ?g) @ drop (length ?g) stream), [])"
      by (simp add: tcp_recv_def)
    then show ?thesis by (simp only: append_assoc sys_recv_split)
  qed
qed simp

lemma recv_all_timeout_loop_done:
  "recv_all_timeout_loop deadline calls res stream = (IoDone b, rest) \<Longrightarrow> b = res @ stream \<and> rest = []"
proof (induction calls arbitrary: res stream)
  case (Cons c cs)
  let ?g = "sys_recv c 4096 stream"
  show ?case
  proof (cases "?g = []")
    case True
    then show ?thesis using Cons.prems sys_recv_Nil [of 4096 c stream]
      by (auto simp: tcp_recv_with_timeout_def split: if_splits option.splits)
  next
    case False
    then have "recv_all_timeout_loop deadline cs (res @ ?g) (drop (length ?g) stream) = (IoDone b, rest)"
      using Cons.prems by (auto simp: tcp_recv_with_timeout_def split: if_splits option.splits)
    from Cons.IH [OF this] show ?thesis by (simp add: sys_recv_split)
  qed
qed simp

subsection \<open>Properties\<close>

text \<open>C34: The receive loops of the socket implement reading from a byte stream, the
  view the peer connection is built on. Whatever the system calls return, a call
  that returns has read exactly the next bytes of the stream and left the others;
  and when the calls do not fail and, for the timed version, come in time, the
  result does not depend on how the bytes are cut into chunks: it is the one of
  the stream, the end of the connection included, after at most one call per byte.\<close>

theorem recv_exact_refines:
  assumes "\<forall>c\<in>set calls. 0 \<le> sc_io c \<and> ready (start + ms * 1000000) c" "n \<le> length calls"
  shows "tcp_recv_exact calls n stream =
      (case recv_exact n stream of Inr (b, rest) \<Rightarrow> (IoDone b, rest) | Inl e \<Rightarrow> (IoThrew EofErr, [])) \<and>
    tcp_recv_exact_timeout start ms calls n stream =
      (case recv_exact n stream of Inr (b, rest) \<Rightarrow> (IoDone b, rest) | Inl e \<Rightarrow> (IoThrew EofErr, [])) \<and>
    (\<forall>cs b rest. tcp_recv_exact cs n stream = (IoDone b, rest) \<longrightarrow> recv_exact n stream = Inr (b, rest)) \<and>
    (\<forall>cs b rest. tcp_recv_exact_timeout start ms cs n stream = (IoDone b, rest) \<longrightarrow> recv_exact n stream = Inr (b, rest))"
proof -
  have whole: "recv_exact n stream = Inr (b, rest)" if "b @ rest = [] @ stream \<and> length b = n" for b rest
    using that by (auto simp: recv_exact_def)
  have plain: "recv_exact_loop calls n [] stream =
      (case recv_exact n stream of Inr (b, rest) \<Rightarrow> (IoDone b, rest) | Inl e \<Rightarrow> (IoThrew EofErr, []))"
    using recv_exact_loop_stream [of calls n "[]" stream] assms by (auto simp: recv_exact_def)
  have timed: "recv_exact_timeout_loop (start + ms * 1000000) calls n [] stream = recv_exact_loop calls n [] stream"
    using recv_exact_timeout_loop_ready [of calls "start + ms * 1000000" n "[]" stream] assms(1) by simp
  have ret: "recv_exact n stream = Inr (b, rest)" if "recv_exact_loop cs n [] stream = (IoDone b, rest)" for cs b rest
    using recv_exact_loop_done [OF that] by (intro whole) simp
  have "recv_exact n stream = Inr (b, rest)"
    if "recv_exact_timeout_loop (start + ms * 1000000) cs n [] stream = (IoDone b, rest)" for cs b rest
    using recv_exact_timeout_loop_done [OF that] ret by blast
  then show ?thesis using plain timed ret by (simp add: tcp_recv_exact_def tcp_recv_exact_timeout_def)
qed

theorem recv_exact_refines_witness:
  "tcp_recv_exact_timeout 0 10000
     (map (\<lambda>k. \<lparr>sc_now = k * 1000000000, sc_poll = 1, sc_io = k\<rparr>) [1, 2, 3, 1]) 4 [10, 20, 30, 40, 50] =
   (IoDone [10, 20, 30, 40], [50])"
proof -
  let ?calls = "map (\<lambda>k. \<lparr>sc_now = k * 1000000000, sc_poll = 1, sc_io = k\<rparr>) [1, 2, 3, 1]"
  have "\<forall>c\<in>set ?calls. 0 \<le> sc_io c \<and> ready (0 + 10000 * 1000000) c" by (simp add: ready_def remaining_ms_def)
  from recv_exact_refines [OF this, of 4 "[10, 20, 30, 40, 50]"] show ?thesis by (simp add: recv_exact_def)
qed

text \<open>The send loops hand over the buffer from its start: all of it exactly when the
  call returns, a proper part of it when it throws, and at most one system call
  per byte is needed. A timed send that returns took only turns before its
  deadline.\<close>

theorem send_in_order:
  assumes "tcp_send calls buffer wire = (r, w)"
  shows "\<exists>k. k \<le> length buffer \<and> w = wire @ take k buffer \<and> (r = IoDone () \<longleftrightarrow> k = length buffer)"
    and "length buffer \<le> length calls \<Longrightarrow> r \<noteq> IoPending"
    and "tcp_send_with_timeout start ms calls buffer wire = (IoDone u, w') \<Longrightarrow>
      w' = wire @ buffer \<and> (\<exists>k. tcp_send (take k calls) buffer wire = (IoDone (), w') \<and>
        (\<forall>c\<in>set (take k calls). ready (start + ms * 1000000) c))"
proof -
  show "\<exists>k. k \<le> length buffer \<and> w = wire @ take k buffer \<and> (r = IoDone () \<longleftrightarrow> k = length buffer)"
    using send_loop_wire [of 0 buffer calls wire r w] assms by (auto simp: tcp_send_def)
  show "r \<noteq> IoPending" if "length buffer \<le> length calls"
    using send_loop_returns [of buffer 0 calls wire] that assms by (simp add: tcp_send_def)
  assume "tcp_send_with_timeout start ms calls buffer wire = (IoDone u, w')"
  then obtain k where k: "send_loop (take k calls) buffer 0 wire = (IoDone (), w')"
      "\<forall>c\<in>set (take k calls). ready (start + ms * 1000000) c"
    using send_timeout_loop_done by (fastforce simp: tcp_send_with_timeout_def)
  then show "w' = wire @ buffer \<and> (\<exists>k. tcp_send (take k calls) buffer wire = (IoDone (), w') \<and>
        (\<forall>c\<in>set (take k calls). ready (start + ms * 1000000) c))"
    using send_loop_wire [OF _ k(1)] by (auto simp: tcp_send_def)
qed

text \<open>However connect_with_timeout ends, the descriptor has the flags it had before.\<close>

theorem connect_restores_flags:
  "cs_restore sys \<Longrightarrow> snd (connect_with_timeout same_domain sys flags) = flags"
  by (simp add: connect_with_timeout_def restore_flags_def Let_def)

text \<open>No descriptor is closed twice and none is lost: over any sequence of moves,
  assignments and destructions of TCP sockets with different descriptors, each
  descriptor is closed at most once, and once no socket has a descriptor any more
  exactly the descriptors of the beginning have been closed.\<close>

theorem descriptors_closed_once:
  assumes "distinct (map ts_fd socks)" "own_run tcp_move tcp_assign tcp_destroy ops socks = (calls, socks')"
  shows "distinct (closed_fds calls)"
    and "\<forall>s\<in>set socks'. ts_fd s = - 1 \<Longrightarrow> mset (closed_fds calls) = mset (filter (\<lambda>fd. fd \<noteq> - 1) (map ts_fd socks))"
proof -
  have sum: "sum_list (map (\<lambda>s. fd_owned (ts_fd s)) ss) = mset (filter (\<lambda>fd. fd \<noteq> - 1) (map ts_fd ss))" for ss
    by (induction ss) (auto simp: fd_owned_def)
  have le: "mset (closed_fds calls) \<subseteq># mset (filter (\<lambda>fd. fd \<noteq> - 1) (map ts_fd socks))"
    using tcp.run_owns [OF assms(2)] sum [of socks] by (metis mset_subset_eq_add_left)
  have "distinct (filter (\<lambda>fd. fd \<noteq> - 1) (map ts_fd socks))" using assms(1) by (rule distinct_filter)
  then have "count (mset (filter (\<lambda>fd. fd \<noteq> - 1) (map ts_fd socks))) fd \<le> 1" for fd
    by (simp add: distinct_count_atmost_1 del: filter_map)
  then have one: "count (mset (closed_fds calls)) fd \<le> 1" for fd
    using mset_subset_eq_count [OF le, of fd] le_trans by blast
  have "count (mset (closed_fds calls)) fd = (if fd \<in> set (closed_fds calls) then 1 else 0)" for fd
    using one [of fd] by (auto simp: count_eq_zero_iff le_antisym Suc_le_eq)
  then show "distinct (closed_fds calls)" by (simp add: distinct_count_atmost_1)
  show "mset (closed_fds calls) = mset (filter (\<lambda>fd. fd \<noteq> - 1) (map ts_fd socks))" if "\<forall>s\<in>set socks'. ts_fd s = - 1"
    using tcp.all_freed [OF assms(2)] that sum [of socks] by (simp add: fd_owned_def)
qed

theorem descriptors_closed_once_witness:
  "mset (closed_fds (fst (own_run tcp_move tcp_assign tcp_destroy [MoveInto 0, AssignTo 1 2, Destroy 2, Destroy 1, Destroy 0]
     [\<lparr>ts_fd = 5, ts_domain = 2\<rparr>, \<lparr>ts_fd = 6, ts_domain = 2\<rparr>]))) = {#5, 6#}"
proof -
  let ?socks = "[\<lparr>ts_fd = 5, ts_domain = 2\<rparr>, \<lparr>ts_fd = 6, ts_domain = 2\<rparr>]"
  let ?ops = "[MoveInto 0, AssignTo 1 2, Destroy 2, Destroy 1, Destroy 0]"
  obtain calls socks' where run: "own_run tcp_move tcp_assign tcp_destroy ?ops ?socks = (calls, socks')" by fastforce
  then have gone: "\<forall>s\<in>set socks'. ts_fd s = - 1"
    by (auto simp: tcp_move_def tcp_assign_def tcp_destroy_def)
  have "mset (closed_fds calls) = mset (filter (\<lambda>fd. fd \<noteq> - 1) (map ts_fd ?socks))"
    by (rule descriptors_closed_once(2) [OF _ run gone]) simp
  then show ?thesis using run by simp
qed

end
