(* ===== verification/Upnp.thy ===== *)
theory Upnp
  imports Tracker Sockets
begin

section \<open>UPnP port mappings\<close>

text \<open>
  \<^verbatim>\<open>UPnPPortMapping\<close> (\<^verbatim>\<open>inc/net/upnp.h\<close>, \<^verbatim>\<open>src/net/upnp.cpp\<close>): discovery of the
  gateway, the search for the control URL in its description, the SOAP requests
  and the mapping object that removes its mapping once. The network is an
  argument: the response to a TCP request (empty when an exception was caught),
  the datagrams that answer a search before its time is over (\<^const>\<open>None\<close> when
  the search cannot be sent and the socket throws), the local address towards a
  host and the address of the default gateway (both empty when unknown).
\<close>

record upnp_net =
  un_tcp :: "bytes \<Rightarrow> 16 word \<Rightarrow> bytes \<Rightarrow> bytes"
  un_ssdp :: "bytes \<Rightarrow> bytes \<Rightarrow> bytes list option"
  un_local_ip :: "bytes \<Rightarrow> bytes"
  un_gateway :: bytes

subsection \<open>Text helpers\<close>

definition xml_tag :: "bytes \<Rightarrow> bytes \<Rightarrow> bytes" where
  "xml_tag xml tag =
     (let open_tag = str ''<'' @ tag @ str ''>''; close_tag = str ''</'' @ tag @ str ''>''
      in case find_from xml open_tag 0 of
           None \<Rightarrow> []
         | Some a \<Rightarrow>
             let a = a + length open_tag
             in case find_from xml close_tag a of None \<Rightarrow> [] | Some b \<Rightarrow> take (b - a) (drop a xml))"

definition to_lower :: "byte \<Rightarrow> byte" where
  "to_lower b = (if 65 \<le> b \<and> b \<le> 90 then b + 32 else b)"

definition header_value :: "bytes \<Rightarrow> bytes \<Rightarrow> bytes option" where
  "header_value resp needle =
     (case find_from (map to_lower resp) (map to_lower needle) 0 of
        None \<Rightarrow> None
      | Some p \<Rightarrow>
          let p = p + length needle;
              val = (case find_from resp [10] p of None \<Rightarrow> drop p resp | Some e \<Rightarrow> take (e - p) (drop p resp))
          in Some (rev (dropWhile (\<lambda>b. b = 13 \<or> b = 32) (rev val))))"

definition http_header :: "bytes \<Rightarrow> bytes \<Rightarrow> bytes" where
  "http_header resp name =
     (case header_value resp (name @ str '': '') of
        Some v \<Rightarrow> v
      | None \<Rightarrow> (case header_value resp (name @ str '':'') of Some v \<Rightarrow> v | None \<Rightarrow> []))"

subsection \<open>URLs\<close>

record url =
  ur_host :: bytes
  ur_port :: "16 word"
  ur_path :: bytes

text \<open>\<^verbatim>\<open>std::string::rfind\<close> for one character, and \<^verbatim>\<open>std::stoul\<close> in base 10.\<close>

definition rfind :: "byte \<Rightarrow> bytes \<Rightarrow> nat option" where
  "rfind c s = (if c \<in> set s then Some (length s - 1 - length (takeWhile (\<lambda>b. b \<noteq> c) (rev s))) else None)"

definition stoul10 :: "bytes \<Rightarrow> nat option" where
  "stoul10 s =
     (let s = dropWhile is_space s;
          neg = (s \<noteq> [] \<and> hd s = 45);
          s = (if s \<noteq> [] \<and> (hd s = 45 \<or> hd s = 43) then tl s else s);
          ds = takeWhile is_digit s
      in if ds = [] \<or> 2 ^ 64 \<le> digits_val ds then None
         else Some (if neg then u64_sub 0 (digits_val ds) else digits_val ds))"

definition parse_url :: "bytes \<Rightarrow> url option" where
  "parse_url raw =
     (let s = (case find_from raw (str ''://'') 0 of Some e \<Rightarrow> drop (e + 3) raw | None \<Rightarrow> raw);
          slash = find_from s (str ''/'') 0;
          host_part = (case slash of None \<Rightarrow> s | Some k \<Rightarrow> take k s);
          path = (case slash of None \<Rightarrow> str ''/'' | Some k \<Rightarrow> drop k s)
      in case rfind 58 host_part of
           Some colon \<Rightarrow>
             (case stoul10 (drop (colon + 1) host_part) of
                None \<Rightarrow> None
              | Some p \<Rightarrow> if take colon host_part = [] then None
                          else Some \<lparr>ur_host = take colon host_part, ur_port = of_nat p, ur_path = path\<rparr>)
         | None \<Rightarrow> if host_part = [] then None
                   else Some \<lparr>ur_host = host_part, ur_port = 80, ur_path = path\<rparr>)"

text \<open>The body of a response, empty when there is no blank line.\<close>

definition body_of :: "bytes \<Rightarrow> bytes" where
  "body_of resp = (case find_from resp (crlf @ crlf) 0 of None \<Rightarrow> [] | Some sep \<Rightarrow> drop (sep + 4) resp)"

definition http_get :: "upnp_net \<Rightarrow> url \<Rightarrow> bytes" where
  "http_get net u =
     body_of (un_tcp net (ur_host u) (ur_port u)
       (str ''GET '' @ ur_path u @ str '' HTTP/1.0'' @ crlf @
        str ''Host: '' @ ur_host u @ str '':'' @ dec (unat (ur_port u)) @ crlf @
        str ''Connection: close'' @ crlf @ crlf))"

subsection \<open>The exchange and the addresses\<close>

text \<open>
  The functions behind the network argument, over the sockets: a request over a
  new connection, the local address towards a host, and the default gateway in
  the kernel's routing table. Any exception is an empty text; \<^const>\<open>None\<close> is a call
  that has not returned.
\<close>

record tcp_env =
  te_address_ok :: bool
  te_fd :: int
  te_flags :: "32 word"
  te_connect :: connect_sys
  te_send :: "sys_call list"
  te_start :: int
  te_recv :: "sys_call list"
  te_stream :: bytes

definition tcp_request :: "tcp_env \<Rightarrow> bytes \<Rightarrow> bytes option \<times> bytes" where
  "tcp_request env request =
     (if \<not> te_address_ok env then (Some [], [])
      else case snd (tcp_client_new AF_INET (te_fd env)) of
             Inl e \<Rightarrow> (Some [], [])
           | Inr sock \<Rightarrow>
               (case fst (connect_with_timeout (ts_domain sock = AF_INET) (te_connect env) (te_flags env)) of
                  Some e \<Rightarrow> (Some [], [])
                | None \<Rightarrow>
                    (case tcp_send (te_send env) request [] of
                       (IoThrew e, wire) \<Rightarrow> (Some [], wire)
                     | (IoPending, wire) \<Rightarrow> (None, wire)
                     | (IoDone u, wire) \<Rightarrow>
                         (case fst (tcp_recv_all_with_timeout (te_start env) 5000 (te_recv env) (te_stream env)) of
                            IoDone resp \<Rightarrow> (Some resp, wire)
                          | IoThrew e \<Rightarrow> (Some [], wire)
                          | IoPending \<Rightarrow> (None, wire)))))"

definition local_ip_for :: "int \<Rightarrow> bool \<Rightarrow> int \<Rightarrow> bytes option \<Rightarrow> bytes" where
  "local_ip_for fd address_ok ret sockname =
     (case snd (udp_new AF_INET fd) of
        Inl e \<Rightarrow> []
      | Inr sock \<Rightarrow>
          if \<not> address_ok then []
          else case udp_connect AF_INET ret sock of
                 Some e \<Rightarrow> []
               | None \<Rightarrow> (case local_address sockname sock of Inl e \<Rightarrow> [] | Inr (d, addr) \<Rightarrow> addr))"

text \<open>\<^verbatim>\<open>fgets\<close> with a buffer of 256 bytes, and the conversions of \<^verbatim>\<open>sscanf\<close>.\<close>

definition fgets :: "bytes \<Rightarrow> (bytes \<times> bytes) option" where
  "fgets s = (if s = [] then None
     else let n = min 255 (length (takeWhile (\<lambda>c. c \<noteq> 10) s) + 1) in Some (take n s, drop n s))"

definition scan_word :: "bytes \<Rightarrow> bytes option" where
  "scan_word s =
     (let s = dropWhile is_space s; w = take 31 (takeWhile (\<lambda>c. \<not> is_space c) s)
      in if w = [] then None else Some (drop (length w) s))"

definition scan_hex :: "bytes \<Rightarrow> (nat \<times> bytes) option" where
  "scan_hex s =
     (let s = dropWhile is_space s; neg = (s \<noteq> [] \<and> hd s = 45);
          s = (if s \<noteq> [] \<and> (hd s = 45 \<or> hd s = 43) then tl s else s);
          s = (if take 2 s = str ''0x'' \<or> take 2 s = str ''0X'' then drop 2 s else s);
          ds = takeWhile is_xdigit s; v = base_val 16 ds
      in if ds = [] then None
         else Some (if 2 ^ 64 \<le> v then 2 ^ 64 - 1 else if neg then u64_sub 0 v else v, dropWhile is_xdigit s))"

text \<open>The address bytes lie in memory in the order of the little-endian number.\<close>

definition address_text :: "nat \<Rightarrow> bytes" where
  "address_text gw = inet_ntoa [of_nat gw, of_nat (gw div 256), of_nat (gw div 65536), of_nat (gw div 16777216)]"

definition gateway_of_line :: "bytes \<Rightarrow> bytes option" where
  "gateway_of_line line =
     (case scan_word line of
        None \<Rightarrow> None
      | Some r \<Rightarrow>
          (case scan_hex r of
             None \<Rightarrow> None
           | Some (dest, r) \<Rightarrow>
               (case scan_hex r of
                  None \<Rightarrow> None
                | Some (gw, r) \<Rightarrow>
                    (case scan_hex r of
                       None \<Rightarrow> None
                     | Some (fl, r) \<Rightarrow> if dest = 0 \<and> gw \<noteq> 0 then Some (address_text gw) else None))))"

function gateway_loop :: "bytes \<Rightarrow> bytes" where
  "gateway_loop s =
     (case fgets s of
        None \<Rightarrow> []
      | Some (line, rest) \<Rightarrow> (case gateway_of_line line of Some a \<Rightarrow> a | None \<Rightarrow> gateway_loop rest))"
  by pat_completeness auto
termination
  by (relation "measure length") (auto simp: fgets_def Let_def split: if_splits)

declare gateway_loop.simps [simp del]

definition default_gateway_ip :: "bytes option \<Rightarrow> bytes" where
  "default_gateway_ip file =
     (case file of
        None \<Rightarrow> []
      | Some s \<Rightarrow> (case fgets s of None \<Rightarrow> [] | Some (header, rest) \<Rightarrow> gateway_loop rest))"

lemma tcp_request_whole:
  "tcp_request env request = (Some resp, wire) \<Longrightarrow> resp \<noteq> [] \<Longrightarrow> resp = te_stream env \<and> wire = request"
  using send_loop_wire [of 0 request "te_send env" "[]"]
  by (auto simp: tcp_request_def tcp_recv_all_with_timeout_def tcp_send_def fst_def
      split: if_splits sum.splits option.splits prod.splits io_result.splits dest!: recv_all_timeout_loop_done)

text \<open>The row of the comment in the code.\<close>

lemma gateway_example:
  "default_gateway_ip (Some (str ''Iface Destination Gateway Flags'' @ [10] @
     str ''eth0 0064A8C0 00000000 0001'' @ [10] @ str ''wlp0s20f3 00000000 0164A8C0 0003'' @ [10])) = str ''192.168.100.1''"
  by (simp add: default_gateway_ip_def fgets_def gateway_loop.simps gateway_of_line_def scan_word_def scan_hex_def is_space_def
      is_xdigit_def is_digit_def base_val_def xdigit_val_def address_text_def inet_ntoa_def dec.simps digit_byte_def Let_def dot_def)

subsection \<open>Discovery\<close>

definition contains :: "bytes \<Rightarrow> bytes \<Rightarrow> bool" where
  "contains s pat = (find_from s pat 0 \<noteq> None)"

definition search_request :: "bytes \<Rightarrow> bytes \<Rightarrow> bytes" where
  "search_request st host =
     str ''M-SEARCH * HTTP/1.1'' @ crlf @ str ''HOST: '' @ host @ crlf @
     str ''MAN: \"ssdp:discover\"'' @ crlf @ str ''MX: 2'' @ crlf @ str ''ST: '' @ st @ crlf @ crlf"

fun first_location :: "bytes list \<Rightarrow> bytes" where
  "first_location [] = []"
| "first_location (resp # rs) =
     (if resp = [] then []
      else if \<not> contains resp (str ''200 OK'') \<and> \<not> contains resp (str ''200 ok'') then first_location rs
      else let loc = http_header resp (str ''LOCATION'') in if loc \<noteq> [] then loc else first_location rs)"

definition search_targets :: "bytes list" where
  "search_targets =
     [str ''urn:schemas-upnp-org:device:InternetGatewayDevice:1'',
      str ''urn:schemas-upnp-org:device:InternetGatewayDevice:2'',
      str ''urn:schemas-upnp-org:service:WANIPConnection:1'',
      str ''urn:schemas-upnp-org:service:WANPPPConnection:1'',
      str ''ssdp:all'']"

fun try_targets :: "upnp_net \<Rightarrow> bytes \<Rightarrow> bytes \<Rightarrow> bytes list \<Rightarrow> bytes option" where
  "try_targets net dest host [] = Some []"
| "try_targets net dest host (st # sts) =
     (case un_ssdp net dest (search_request st host) of
        None \<Rightarrow> None
      | Some resps \<Rightarrow>
          let loc = first_location resps
          in if loc \<noteq> [] then Some loc else try_targets net dest host sts)"

definition probe_ports :: "16 word list" where
  "probe_ports = [52869, 49152, 49153, 5555, 8200, 1900]"

definition probe_paths :: "bytes list" where
  "probe_paths = [str ''/gatedesc.xml'', str ''/description.xml'', str ''/rootDesc.xml'', str ''/upnp/IGD.xml'',
     str ''/igd.xml'', str ''/InternetGatewayDevice.xml'', str ''/BasicLevel_desc.xml'']"

definition probe_ok :: "upnp_net \<Rightarrow> bytes \<Rightarrow> 16 word \<Rightarrow> bytes \<Rightarrow> bool" where
  "probe_ok net gw p path =
     (let resp = un_tcp net gw p
            (str ''GET '' @ path @ str '' HTTP/1.0'' @ crlf @ str ''Host: '' @ gw @ str '':'' @ dec (unat p) @ crlf @
             str ''Connection: close'' @ crlf @ crlf)
      in contains resp (str ''200'') \<and>
         (contains resp (str ''upnp'') \<or> contains resp (str ''UPnP'') \<or> contains resp (str ''InternetGatewayDevice'') \<or>
          contains resp (str ''WANIPConnection'') \<or> contains resp (str ''WANPPPConnection'')))"

fun http_probe :: "upnp_net \<Rightarrow> bytes \<Rightarrow> (16 word \<times> bytes) list \<Rightarrow> bytes" where
  "http_probe net gw [] = []"
| "http_probe net gw ((p, path) # ps) =
     (if probe_ok net gw p path then str ''http://'' @ gw @ str '':'' @ dec (unat p) @ path
      else http_probe net gw ps)"

definition ssdp_discover :: "upnp_net \<Rightarrow> bytes option" where
  "ssdp_discover net =
     (case try_targets net (str ''239.255.255.250'') (str ''239.255.255.250:1900'') search_targets of
        None \<Rightarrow> None
      | Some loc \<Rightarrow>
          if loc \<noteq> [] then Some loc
          else if un_gateway net = [] then Some []
          else
            (case try_targets net (un_gateway net) (un_gateway net @ str '':1900'') search_targets of
               None \<Rightarrow> None
             | Some loc \<Rightarrow>
                 if loc \<noteq> [] then Some loc
                 else Some (http_probe net (un_gateway net) (List.product probe_ports probe_paths))))"

subsection \<open>The device description\<close>

record igd_info =
  ig_control_url :: bytes
  ig_service_type :: bytes

definition service_info :: "url \<Rightarrow> bytes \<Rightarrow> igd_info option" where
  "service_info u block =
     (let stype = xml_tag block (str ''serviceType''); curl = xml_tag block (str ''controlURL'')
      in if stype = [] \<or> curl = [] then None
         else if \<not> contains stype (str ''WANIPConnection'') \<and> \<not> contains stype (str ''WANPPPConnection'') then None
         else Some \<lparr>ig_control_url = (if find_from curl (str ''http://'') 0 = Some 0 then curl
                        else str ''http://'' @ ur_host u @ str '':'' @ dec (unat (ur_port u)) @ curl),
                    ig_service_type = stype\<rparr>)"

function igd_loop :: "url \<Rightarrow> bytes \<Rightarrow> nat \<Rightarrow> igd_info option" where
  "igd_loop u xml search_from =
     (case find_from xml (str ''<service>'') search_from of
        None \<Rightarrow> None
      | Some svc_start \<Rightarrow>
          (case find_from xml (str ''</service>'') svc_start of
             None \<Rightarrow> None
           | Some svc_end \<Rightarrow>
               (case service_info u (take (svc_end - svc_start + 10) (drop svc_start xml)) of
                  Some info \<Rightarrow> Some info
                | None \<Rightarrow> igd_loop u xml (svc_end + 10))))"
  by pat_completeness auto
termination
proof (relation "measure (\<lambda>(u, xml, i). length xml - i)")
  fix u xml search_from a b
  assume "find_from xml (str ''<service>'') search_from = Some a" "find_from xml (str ''</service>'') a = Some b"
  from find_from_Some [OF this(1)] find_from_Some [OF this(2)]
  show "((u, xml, b + 10), u, xml, search_from) \<in> measure (\<lambda>(u, xml, i). length xml - i)" by auto
qed simp

declare igd_loop.simps [simp del]

definition fetch_igd_info :: "upnp_net \<Rightarrow> bytes \<Rightarrow> igd_info option" where
  "fetch_igd_info net location =
     (case parse_url location of
        None \<Rightarrow> None
      | Some u \<Rightarrow> let xml = http_get net u in if xml = [] then None else igd_loop u xml 0)"

subsection \<open>SOAP\<close>

definition soap_envelope :: "bytes \<Rightarrow> bytes" where
  "soap_envelope body =
     str ''<?xml version=\"1.0\"?>'' @ crlf @
     str ''<s:Envelope xmlns:s=\"http://schemas.xmlsoap.org/soap/envelope/\" '' @
     str ''s:encodingStyle=\"http://schemas.xmlsoap.org/soap/encoding/\">'' @
     str ''<s:Body>'' @ body @ str ''</s:Body></s:Envelope>''"

definition soap_request :: "url \<Rightarrow> bytes \<Rightarrow> bytes \<Rightarrow> bytes \<Rightarrow> bytes" where
  "soap_request u service_type action body =
     (let envelope = soap_envelope body
      in str ''POST '' @ ur_path u @ str '' HTTP/1.0'' @ crlf @
         str ''Host: '' @ ur_host u @ str '':'' @ dec (unat (ur_port u)) @ crlf @
         str ''Content-Type: text/xml; charset=\"utf-8\"'' @ crlf @
         str ''SOAPAction: \"'' @ service_type @ str ''#'' @ action @ str ''\"'' @ crlf @
         str ''Content-Length: '' @ dec (length envelope) @ crlf @
         str ''Connection: close'' @ crlf @ crlf @ envelope)"

text \<open>The response body, and the request if one was sent.\<close>

definition soap_action :: "upnp_net \<Rightarrow> bytes \<Rightarrow> bytes \<Rightarrow> bytes \<Rightarrow> bytes \<Rightarrow> bytes \<times> (bytes \<times> 16 word \<times> bytes) option" where
  "soap_action net control_url service_type action body =
     (case parse_url control_url of
        None \<Rightarrow> ([], None)
      | Some u \<Rightarrow>
          let req = soap_request u service_type action body
          in (body_of (un_tcp net (ur_host u) (ur_port u) req), Some (ur_host u, ur_port u, req)))"

definition soap_add_port :: "bytes \<Rightarrow> bytes \<Rightarrow> bytes \<Rightarrow> bytes \<Rightarrow> bytes \<Rightarrow> bytes" where
  "soap_add_port ns ext_port int_port int_host lease =
     str ''<u:AddPortMapping xmlns:u=\"'' @ ns @ str ''\">'' @ str ''<NewRemoteHost></NewRemoteHost>'' @
     str ''<NewExternalPort>'' @ ext_port @ str ''</NewExternalPort>'' @ str ''<NewProtocol>TCP</NewProtocol>'' @
     str ''<NewInternalPort>'' @ int_port @ str ''</NewInternalPort>'' @
     str ''<NewInternalClient>'' @ int_host @ str ''</NewInternalClient>'' @ str ''<NewEnabled>1</NewEnabled>'' @
     str ''<NewPortMappingDescription>BitTorrent</NewPortMappingDescription>'' @
     str ''<NewLeaseDuration>'' @ lease @ str ''</NewLeaseDuration>'' @ str ''</u:AddPortMapping>''"

definition soap_delete_port :: "bytes \<Rightarrow> bytes \<Rightarrow> bytes" where
  "soap_delete_port ns ext_port =
     str ''<u:DeletePortMapping xmlns:u=\"'' @ ns @ str ''\">'' @ str ''<NewRemoteHost></NewRemoteHost>'' @
     str ''<NewExternalPort>'' @ ext_port @ str ''</NewExternalPort>'' @ str ''<NewProtocol>TCP</NewProtocol>'' @
     str ''</u:DeletePortMapping>''"

definition get_external_ip :: "upnp_net \<Rightarrow> igd_info \<Rightarrow> bytes" where
  "get_external_ip net igd =
     xml_tag (fst (soap_action net (ig_control_url igd) (ig_service_type igd) (str ''GetExternalIPAddress'')
       (str ''<u:GetExternalIPAddress xmlns:u=\"'' @ ig_service_type igd @ str ''\">'' @ str ''</u:GetExternalIPAddress>'')))
       (str ''NewExternalIPAddress'')"

subsection \<open>The mapping\<close>

record port_mapping =
  mp_control_url :: bytes
  mp_service_type :: bytes
  mp_external_port :: "16 word"
  mp_external_ip :: bytes
  mp_valid :: bool

text \<open>The loop over the leases, which leaves after the first one either way.\<close>

fun try_leases :: "upnp_net \<Rightarrow> igd_info \<Rightarrow> 16 word \<Rightarrow> 16 word \<Rightarrow> bytes \<Rightarrow> bytes \<Rightarrow> bytes list \<Rightarrow> port_mapping option" where
  "try_leases net igd ext_port int_port lan_ip ext_ip [] = None"
| "try_leases net igd ext_port int_port lan_ip ext_ip (lease # leases) =
     (let resp = fst (soap_action net (ig_control_url igd) (ig_service_type igd) (str ''AddPortMapping'')
            (soap_add_port (ig_service_type igd) (dec (unat ext_port)) (dec (unat int_port)) lan_ip lease))
      in if \<not> contains resp (str ''errorCode'') \<and> \<not> contains resp (str ''UPnPError'')
         then Some \<lparr>mp_control_url = ig_control_url igd, mp_service_type = ig_service_type igd,
                    mp_external_port = ext_port, mp_external_ip = ext_ip, mp_valid = True\<rparr>
         else None)"

datatype create_outcome = Threw | Returned "port_mapping option"

definition create_mapping :: "upnp_net \<Rightarrow> 16 word \<Rightarrow> 16 word \<Rightarrow> create_outcome" where
  "create_mapping net internal_port external_port =
     (case ssdp_discover net of
        None \<Rightarrow> Threw
      | Some location \<Rightarrow> Returned (
          if location = [] then None
          else case fetch_igd_info net location of
                 None \<Rightarrow> None
               | Some igd \<Rightarrow>
                   (case parse_url location of
                      None \<Rightarrow> None
                    | Some u \<Rightarrow>
                        let lan_ip = un_local_ip net (ur_host u)
                        in if lan_ip = [] then None
                           else try_leases net igd (if external_port \<noteq> 0 then external_port else internal_port)
                                  internal_port lan_ip (get_external_ip net igd) [str ''0'', str ''3600''])))"

definition release :: "upnp_net \<Rightarrow> port_mapping \<Rightarrow> (bytes \<times> 16 word \<times> bytes) option \<times> port_mapping" where
  "release net m =
     (if \<not> mp_valid m then (None, m)
      else (snd (soap_action net (mp_control_url m) (mp_service_type m) (str ''DeletePortMapping'')
              (soap_delete_port (mp_service_type m) (dec (unat (mp_external_port m))))),
            m\<lparr>mp_valid := False\<rparr>))"

text \<open>Move construction, and move assignment from another object: the new object and what is left of the source.\<close>

definition move_mapping :: "port_mapping \<Rightarrow> port_mapping \<times> port_mapping" where
  "move_mapping src = (src, src\<lparr>mp_control_url := [], mp_service_type := [], mp_external_ip := [], mp_valid := False\<rparr>)"

definition assign_mapping ::
    "upnp_net \<Rightarrow> port_mapping \<Rightarrow> port_mapping \<Rightarrow> (bytes \<times> 16 word \<times> bytes) option \<times> port_mapping \<times> port_mapping" where
  "assign_mapping net dst src = (case release net dst of (req, _) \<Rightarrow> (case move_mapping src of (d, s) \<Rightarrow> (req, d, s)))"

text \<open>The operations as the calls they make: the delete requests that go out.\<close>

type_synonym http_request = "bytes \<times> 16 word \<times> bytes"

definition sent :: "http_request option \<Rightarrow> http_request list" where
  "sent r = (case r of None \<Rightarrow> [] | Some q \<Rightarrow> [q])"

definition mp_assign :: "upnp_net \<Rightarrow> port_mapping \<Rightarrow> port_mapping \<Rightarrow> http_request list \<times> port_mapping \<times> port_mapping" where
  "mp_assign net dst src = (case assign_mapping net dst src of (req, d, s) \<Rightarrow> (sent req, d, s))"

definition mp_destroy :: "upnp_net \<Rightarrow> port_mapping \<Rightarrow> http_request list \<times> port_mapping" where
  "mp_destroy net m = (case release net m of (req, m') \<Rightarrow> (sent req, m'))"

definition mp_run :: "upnp_net \<Rightarrow> own_op list \<Rightarrow> port_mapping list \<Rightarrow> http_request list \<times> port_mapping list" where
  "mp_run net = own_run move_mapping (mp_assign net) (mp_destroy net)"

subsection \<open>Reading URLs\<close>

lemma stoul10_dec: "n < 2 ^ 64 \<Longrightarrow> stoul10 (dec n) = Some n"
proof -
  assume n: "n < 2 ^ 64"
  have ne: "dec n \<noteq> []" and hd: "is_digit (hd (dec n))" using hd_dec_digit [of n] by (auto simp: dec.simps [of n])
  then have "\<not> is_space (hd (dec n))" "hd (dec n) \<noteq> 45" "hd (dec n) \<noteq> 43"
    by (auto simp: is_digit_def is_space_def word_le_nat_alt)
  moreover have "dropWhile is_space (dec n) = dec n" using ne calculation(1) by (cases "dec n") auto
  moreover have "takeWhile is_digit (dec n) = dec n" using takeWhile_dec_rest [of "[]" n] by simp
  ultimately show ?thesis using n ne by (simp add: stoul10_def Let_def del: takeWhile_eq_all_conv)
qed

lemma rfind_last: "c \<notin> set b \<Longrightarrow> rfind c (a @ c # b) = Some (length a)"
proof -
  assume c: "c \<notin> set b"
  have "takeWhile (\<lambda>x. x \<noteq> c) (rev (a @ c # b)) = rev b"
    using c by (subst rev_append, simp) (metis (mono_tags, lifting) set_rev takeWhile_append2 takeWhile.simps(2) append_Nil2 append.assoc append_Cons)
  then show ?thesis by (simp add: rfind_def)
qed

definition base_url :: "bytes \<Rightarrow> 16 word \<Rightarrow> bytes \<Rightarrow> bytes" where
  "base_url h p path = str ''http://'' @ h @ str '':'' @ dec (unat p) @ path"

lemma dec_no: "\<not> is_digit c \<Longrightarrow> c \<notin> set (dec n)"
  using dec_digits by blast

lemma parse_base_url:
  assumes "h \<noteq> []" "47 \<notin> set h" "path \<noteq> []" "hd path = 47"
  shows "parse_url (base_url h p path) = Some \<lparr>ur_host = h, ur_port = p, ur_path = path\<rparr>"
proof -
  let ?d = "dec (unat p)" and ?host = "h @ str '':'' @ dec (unat p)"
  obtain rest where path: "path = 47 # rest" using assms(3,4) by (cases path) auto
  have no: "(58 :: byte) \<notin> set ?d" "(47 :: byte) \<notin> set ?d" by (simp_all add: dec_no is_digit_def)
  have 1: "find_from (base_url h p path) (str ''://'') 0 = Some 4"
    using find_from_at [of "str ''://''" "str ''http''" "[]" "?host @ path"] by (simp add: base_url_def)
  have tail: "drop (4 + 3) (base_url h p path) = ?host @ path" by (simp add: base_url_def)
  have 2: "find_from (?host @ path) (str ''/'') 0 = Some (length ?host)"
    using find_from_at [of "str ''/''" ?host "[]" rest] assms(2) no(2) by (simp add: path)
  have 3: "rfind 58 ?host = Some (length h)" using rfind_last [OF no(1), of h] by simp
  have "unat p < 2 ^ 64" using unsigned_less [where 'a = nat and w = p] by simp
  then have 4: "stoul10 (drop (length h + 1) ?host) = Some (unat p)" using stoul10_dec by simp
  have 5: "take (length ?host) (?host @ path) = ?host" "drop (length ?host) (?host @ path) = path" by simp_all
  show ?thesis
    unfolding parse_url_def 1 option.case tail Let_def 2 5 3 4 using assms(1) by simp
qed

subsection \<open>The delete requests\<close>

definition delete_request :: "port_mapping \<Rightarrow> http_request option" where
  "delete_request m =
     map_option (\<lambda>u. (ur_host u, ur_port u,
       soap_request u (mp_service_type m) (str ''DeletePortMapping'')
         (soap_delete_port (mp_service_type m) (dec (unat (mp_external_port m))))))
       (parse_url (mp_control_url m))"

lemma release_simp:
  "release net m = (if mp_valid m then (delete_request m, m\<lparr>mp_valid := False\<rparr>) else (None, m))"
  by (simp add: release_def soap_action_def delete_request_def Let_def split: option.split)

text \<open>A valid object owes the gateway its delete request.\<close>

definition due :: "port_mapping \<Rightarrow> http_request multiset" where
  "due m = (if mp_valid m then mset (sent (delete_request m)) else {#})"

interpretation mapping: owner move_mapping "mp_assign net" "mp_destroy net" due mset for net
  by unfold_locales
    (auto simp: move_mapping_def mp_assign_def assign_mapping_def mp_destroy_def release_simp due_def sent_def delete_request_def
      split: if_splits)

subsection \<open>Creating a mapping\<close>

lemma try_leases_Some:
  "try_leases net igd eport iport lan ext ls = Some m \<Longrightarrow>
     m = \<lparr>mp_control_url = ig_control_url igd, mp_service_type = ig_service_type igd,
          mp_external_port = eport, mp_external_ip = ext, mp_valid = True\<rparr>"
  by (cases ls) (auto simp: Let_def split: if_splits)

lemma create_mapping_Some:
  assumes "create_mapping net iport eport = Returned (Some m)"
  obtains loc igd where "ssdp_discover net = Some loc" "fetch_igd_info net loc = Some igd"
    "m = \<lparr>mp_control_url = ig_control_url igd, mp_service_type = ig_service_type igd,
          mp_external_port = (if eport \<noteq> 0 then eport else iport), mp_external_ip = get_external_ip net igd, mp_valid = True\<rparr>"
  using assms
  by (auto simp: create_mapping_def Let_def split: option.splits if_splits dest!: try_leases_Some)

lemma find_from_char_absent: "find_from s [c] 0 = None \<Longrightarrow> c \<notin> set s"
proof
  assume n: "find_from s [c] 0 = None" and "c \<in> set s"
  then obtain k where "k < length s" "s ! k = c" by (auto simp: in_set_conv_nth)
  then have "take 1 (drop k s) = [c]" by (simp add: take_Suc_conv_app_nth)
  then show False using n \<open>k < length s\<close> unfolding find_from_None by auto
qed

lemma find_from_char_prefix: "find_from s [c] 0 = Some k \<Longrightarrow> c \<notin> set (take k s)"
proof
  assume f: "find_from s [c] 0 = Some k" and "c \<in> set (take k s)"
  then obtain i where i: "i < k" "i < length s" "s ! i = c" by (auto simp: in_set_conv_nth)
  then have "take 1 (drop i s) = [c]" by (simp add: take_Suc_conv_app_nth)
  then show False using find_from_Some [OF f] i by auto
qed

lemma parse_url_host: "parse_url raw = Some u \<Longrightarrow> ur_host u \<noteq> [] \<and> 47 \<notin> set (ur_host u)"
proof -
  assume p: "parse_url raw = Some u"
  define s where "s = (case find_from raw (str ''://'') 0 of Some e \<Rightarrow> drop (e + 3) raw | None \<Rightarrow> raw)"
  define h where "h = (case find_from s (str ''/'') 0 of None \<Rightarrow> s | Some k \<Rightarrow> take k s)"
  have "47 \<notin> set h"
    by (auto simp: h_def split: option.split dest!: find_from_char_absent find_from_char_prefix)
  then show ?thesis
    using p unfolding parse_url_def Let_def s_def [symmetric] h_def [symmetric]
    by (auto split: option.splits if_splits dest: in_set_takeD)
qed

lemma igd_loop_service:
  "igd_loop u xml i = Some info \<Longrightarrow> \<exists>block. service_info u block = Some info"
proof (induction u xml i rule: igd_loop.induct)
  case (1 u xml i)
  show ?case using 1(2) 1(1) by (subst (asm) igd_loop.simps) (auto split: option.splits)
qed

lemma fetch_igd_info_Some:
  assumes "fetch_igd_info net loc = Some igd"
  obtains u block where "parse_url loc = Some u" "service_info u block = Some igd"
  using assms by (auto simp: fetch_igd_info_def Let_def split: option.splits if_splits dest: igd_loop_service)

text \<open>
  A relative control URL is put behind the host and the port of the description
  and leads back to them; one without a leading slash runs into the port number,
  and the request then goes to the root.
\<close>

lemma relative_control_url:
  assumes "service_info u block = Some igd" "ur_host u \<noteq> []" "47 \<notin> set (ur_host u)"
    and "hd (xml_tag block (str ''controlURL'')) = 47"
  shows "parse_url (ig_control_url igd) =
    Some \<lparr>ur_host = ur_host u, ur_port = ur_port u, ur_path = xml_tag block (str ''controlURL'')\<rparr>"
proof -
  let ?c = "xml_tag block (str ''controlURL'')"
  have ne: "?c \<noteq> []" using assms(1) by (auto simp: service_info_def Let_def)
  have "find_from ?c (str ''http://'') 0 \<noteq> Some 0"
  proof
    assume "find_from ?c (str ''http://'') 0 = Some 0"
    from find_from_Some [OF this] have "take 7 ?c = str ''http://''" by (simp add: eval_nat_numeral)
    then show False using ne assms(4) by (cases ?c) auto
  qed
  then have "ig_control_url igd = base_url (ur_host u) (ur_port u) ?c"
    using assms(1) by (auto simp: service_info_def Let_def base_url_def split: if_splits)
  then show ?thesis using parse_base_url [OF assms(2,3) ne assms(4)] by simp
qed

lemma bare_control_url:
  "parse_url (base_url (str ''g'') 80 (str ''ctl'')) = Some \<lparr>ur_host = str ''g'', ur_port = 80, ur_path = str ''/''\<rparr>"
  by (simp add: parse_url_def base_url_def find_from.simps rfind_def stoul10_def is_space_def is_digit_def
      dec.simps digits_val_def digit_val_def digit_byte_def Let_def)

text \<open>
  An empty response, which is what a refused connection, a timeout or an
  unreadable control URL leave, contains no error code and counts as a mapping;
  a refusal of the permanent lease is never followed by a request for an hour.
\<close>

lemma network_error_maps:
  assumes "\<forall>req. un_tcp net h p req = []" "parse_url (ig_control_url igd) = Some \<lparr>ur_host = h, ur_port = p, ur_path = path\<rparr>"
  shows "\<exists>m. try_leases net igd eport iport lan ext [str ''0'', str ''3600''] = Some m \<and> mp_valid m"
  using assms by (simp add: soap_action_def body_of_def contains_def find_from.simps crlf_def Let_def del: str_Cons)

lemma second_lease_unused:
  "try_leases net igd eport iport lan ext (l # ls) = try_leases net igd eport iport lan ext [l]"
  by simp

lemma search_failure_escapes:
  "un_ssdp net (str ''239.255.255.250'') (search_request (hd search_targets) (str ''239.255.255.250:1900'')) = None \<Longrightarrow>
     create_mapping net iport eport = Threw"
  by (simp add: create_mapping_def ssdp_discover_def search_targets_def del: str_Cons)

subsection \<open>Properties\<close>

text \<open>C36: a mapping is removed exactly once. Once a mapping has been created, and
  whatever moves, assignments and destructions follow until no object is valid any
  more, exactly one DeletePortMapping request has been sent: to the control URL of
  the gateway, for the external port that was mapped (the internal one when none
  was asked for).\<close>

theorem mapping_removed_once:
  assumes "create_mapping net iport eport = Returned (Some m)" "parse_url (mp_control_url m) = Some u"
    and "mp_run net ops [m] = (reqs, ms)" "\<forall>x\<in>set ms. \<not> mp_valid x"
  shows "reqs = [(ur_host u, ur_port u, soap_request u (mp_service_type m) (str ''DeletePortMapping'')
     (soap_delete_port (mp_service_type m) (dec (unat (if eport \<noteq> 0 then eport else iport)))))]"
proof -
  have m: "mp_valid m" "mp_external_port m = (if eport \<noteq> 0 then eport else iport)"
    using assms(1) by (auto elim!: create_mapping_Some)
  have "mset reqs = sum_list (map due [m])"
    by (rule mapping.all_freed [OF assms(3) [unfolded mp_run_def]]) (use assms(4) in \<open>simp add: due_def\<close>)
  also have "\<dots> = mset (sent (delete_request m))" using m(1) by (simp add: due_def)
  finally show ?thesis using assms(2) m(2) by (simp add: delete_request_def sent_def del: str_Cons)
qed

subsection \<open>A gateway that accepts the mapping\<close>

definition gw_xml :: bytes where
  "gw_xml = str ''<service><serviceType>WANIPConnection</serviceType><controlURL>/c</controlURL></service>''"

definition gw_net :: upnp_net where
  "gw_net = \<lparr>un_tcp = (\<lambda>h p req. crlf @ crlf @ (if take 3 req = str ''GET'' then gw_xml else [])),
     un_ssdp = (\<lambda>dest req. Some [str ''200 OK'' @ crlf @ str ''Location: http://g:80/d'']),
     un_local_ip = (\<lambda>h. str ''10.0.0.7''), un_gateway = []\<rparr>"

definition gw_igd :: igd_info where
  "gw_igd = \<lparr>ig_control_url = base_url (str ''g'') 80 (str ''/c''), ig_service_type = str ''WANIPConnection''\<rparr>"

definition gw_mapping :: port_mapping where
  "gw_mapping = \<lparr>mp_control_url = base_url (str ''g'') 80 (str ''/c''), mp_service_type = str ''WANIPConnection'',
     mp_external_port = 6881, mp_external_ip = [], mp_valid = True\<rparr>"

lemma gw_location: "ssdp_discover gw_net = Some (str ''http://g:80/d'')"
  by (simp add: ssdp_discover_def search_targets_def gw_net_def find_from.simps contains_def http_header_def
      header_value_def crlf_def to_lower_def Let_def)

lemma gw_url: "parse_url (base_url (str ''g'') 80 path) = Some \<lparr>ur_host = str ''g'', ur_port = 80, ur_path = path\<rparr>"
  if "path \<noteq> []" "hd path = 47"
  using parse_base_url [of "str ''g''" path 80] that by simp

lemma gw_base: "str ''http://g:80/d'' = base_url (str ''g'') 80 (str ''/d'')"
  by (simp add: base_url_def dec.simps digit_byte_def)

lemma gw_service:
  "service_info \<lparr>ur_host = str ''g'', ur_port = 80, ur_path = path\<rparr> gw_xml = Some gw_igd"
  by (simp add: find_from.simps contains_def service_info_def gw_xml_def gw_igd_def xml_tag_def base_url_def)

lemma gw_loop: "igd_loop \<lparr>ur_host = str ''g'', ur_port = 80, ur_path = path\<rparr> gw_xml 0 = Some gw_igd"
  using gw_service [of path] by (simp add: find_from.simps gw_xml_def igd_loop.simps)

lemma gw_body: "body_of (un_tcp gw_net h p req) = (if take 3 req = str ''GET'' then gw_xml else [])"
  using find_from_at [of "crlf @ crlf" "[]" "[]" "if take 3 req = str ''GET'' then gw_xml else []"]
  by (simp add: body_of_def gw_net_def crlf_def)

lemma gw_post: "fst (soap_action gw_net (ig_control_url gw_igd) st act body) = []"
proof -
  have "parse_url (ig_control_url gw_igd) = Some \<lparr>ur_host = str ''g'', ur_port = 80, ur_path = str ''/c''\<rparr>"
    unfolding gw_igd_def igd_info.simps by (rule gw_url) simp_all
  then show ?thesis
    by (simp only: soap_action_def option.case Let_def fst_conv gw_body) (simp add: soap_request_def Let_def)
qed

lemma gw_create: "create_mapping gw_net 6881 0 = Returned (Some gw_mapping)"
proof -
  have url: "parse_url (str ''http://g:80/d'') = Some \<lparr>ur_host = str ''g'', ur_port = 80, ur_path = str ''/d''\<rparr>"
    unfolding gw_base by (rule gw_url) simp_all
  have get: "http_get gw_net u = gw_xml" for u by (simp add: http_get_def gw_body)
  have "fetch_igd_info gw_net (str ''http://g:80/d'') = Some gw_igd"
    by (simp only: fetch_igd_info_def url option.case Let_def get gw_loop) (simp add: gw_xml_def)
  moreover have "un_local_ip gw_net h = str ''10.0.0.7''" "str ''10.0.0.7'' \<noteq> []" "str ''http://g:80/d'' \<noteq> []" for h
    by (simp_all add: gw_net_def)
  moreover have "get_external_ip gw_net gw_igd = []"
    by (simp only: get_external_ip_def gw_post) (simp add: xml_tag_def find_from.simps)
  moreover have "try_leases gw_net gw_igd 6881 6881 lan [] (l # ls) = Some gw_mapping" for lan l ls
    by (simp only: try_leases.simps gw_post Let_def)
      (simp add: gw_igd_def gw_mapping_def contains_def find_from.simps)
  ultimately show ?thesis using url by (simp add: create_mapping_def gw_location Let_def del: str_Cons)
qed

theorem mapping_removed_once_witness:
  "fst (mp_run gw_net [MoveInto 0, Destroy 1, Destroy 0] [gw_mapping]) =
     [(str ''g'', 80, soap_request \<lparr>ur_host = str ''g'', ur_port = 80, ur_path = str ''/c''\<rparr> (str ''WANIPConnection'')
        (str ''DeletePortMapping'') (soap_delete_port (str ''WANIPConnection'') (dec 6881)))]"
proof -
  obtain reqs ms where run: "mp_run gw_net [MoveInto 0, Destroy 1, Destroy 0] [gw_mapping] = (reqs, ms)" by force
  have "\<forall>x\<in>set ms. \<not> mp_valid x"
    using run by (auto simp: mp_run_def move_mapping_def mp_destroy_def release_simp split: prod.splits if_splits)
  then show ?thesis
    using mapping_removed_once [OF gw_create _ run, of "\<lparr>ur_host = str ''g'', ur_port = 80, ur_path = str ''/c''\<rparr>"]
      gw_url [of "str ''/c''"] run
    by (simp add: gw_mapping_def del: str_Cons) simp
qed

end
