(* ===== verification/Session_Start.thy ===== *)
theory Session_Start
  imports Session_Manager Upnp
begin

section \<open>Starting and ending a whole session\<close>

text \<open>
  \<^verbatim>\<open>SessionManager::start_all\<close> and the destructor over all parts: the port mapping,
  the DHT client and the torrents, in the order of the code, with the exceptions
  that leave it. What the threads of the DHT client do while its \<^verbatim>\<open>start\<close> waits
  for answers is an argument.
\<close>

record session_app =
  sa_session :: session_manager
  sa_mapping :: "port_mapping option"

datatype start_error = UpnpThrew | DhtThrew start_outcome | TorrentThrew disk_error

definition map_port :: "upnp_net \<Rightarrow> session_app \<Rightarrow> create_outcome" where
  "map_port net a =
     (case sa_mapping a of
        Some m \<Rightarrow> Returned (Some m)
      | None \<Rightarrow> create_mapping net (sm_listen_port (sa_session a)) 0)"

definition start_all ::
    "upnp_net \<Rightarrow> dht_env \<Rightarrow> (info_hash \<Rightarrow> tracker) \<Rightarrow> (info_hash \<Rightarrow> bytes) \<Rightarrow> nat \<Rightarrow> nat \<Rightarrow> node_id \<Rightarrow> bool \<Rightarrow> store_fs \<Rightarrow>
     bytes option \<Rightarrow> bytes option \<Rightarrow> (dht_node \<Rightarrow> dht_node) \<Rightarrow> session_app \<Rightarrow> start_error option \<times> session_app" where
  "start_all net en trk pid now later self_id bind_ok fs path_var clear_var wait a =
     (case map_port net a of
        Threw \<Rightarrow> (Some UpnpThrew, a)
      | Returned mp \<Rightarrow>
          let a = a\<lparr>sa_mapping := mp\<rparr>; fresh = (sm_dht (sa_session a) = None)
          in case create_dht en now self_id bind_ok fs path_var clear_var (sa_session a) of
               (r, m) \<Rightarrow>
                 if r = BindFailed \<or> r = LoadThrew then (Some (DhtThrew r), a\<lparr>sa_session := m\<rparr>)
                 else
                   let m = (if fresh then finish_dht en later (m\<lparr>sm_dht := map_option wait (sm_dht m)\<rparr>) else m)
                   in case start_torrents en trk pid later m of
                        (e, m) \<Rightarrow> (map_option TorrentThrew e, a\<lparr>sa_session := m\<rparr>))"

text \<open>The destructor: the session stops, then the mapping is destroyed with the other members.\<close>

definition session_destroy :: "upnp_net \<Rightarrow> session_app \<Rightarrow> http_request list \<times> session_app" where
  "session_destroy net a =
     (let m = snd (stop_all (stop_status_refresh (sa_session a)))
      in case sa_mapping a of
           None \<Rightarrow> ([], a\<lparr>sa_session := m\<rparr>)
         | Some p \<Rightarrow> (case mp_destroy net p of (reqs, p) \<Rightarrow> (reqs, a\<lparr>sa_session := m, sa_mapping := Some p\<rparr>)))"

subsection \<open>The parts\<close>

lemma create_dht_frame:
  "create_dht en now i b fs pv cv m = (r, m') \<Longrightarrow> sm_sessions m' = sm_sessions m \<and> sm_listen_port m' = sm_listen_port m \<and> sm_dht m' \<noteq> None"
  by (auto simp: create_dht_def Let_def split: option.splits prod.splits)

lemma map_port_new:
  "map_port net a = Returned (Some p) \<Longrightarrow> sa_mapping a = None \<Longrightarrow>
     mp_valid p \<and> mp_external_port p = sm_listen_port (sa_session a)"
  by (auto simp: map_port_def elim!: create_mapping_Some)

lemma start_all_mapping:
  "start_all net en trk pid now later i b fs pv cv w a = (None, a') \<Longrightarrow> map_port net a = Returned (sa_mapping a')"
  by (auto simp: start_all_def Let_def split: create_outcome.splits prod.splits if_splits)

lemma stop_all_stopped:
  "sm_dht (snd (stop_all m)) = None \<and> (\<forall>s\<in>set (sm_sessions (snd (stop_all m))). tm_stopped (ts_tm s))"
  by (auto simp: stop_all_def Let_def)

text \<open>
  When the search for a gateway throws, start_all ends before the client and the
  torrents are started; and a client whose socket could not be bound stays in
  place, so that a second start_all starts the torrents without a running client.
\<close>

lemma upnp_failure_starts_nothing:
  assumes "sa_mapping a = None"
    "un_ssdp net (str ''239.255.255.250'') (search_request (hd search_targets) (str ''239.255.255.250:1900'')) = None"
  shows "start_all net en trk pid now later i b fs pv cv w a = (Some UpnpThrew, a)"
  by (simp only: start_all_def map_port_def assms option.case search_failure_escapes [OF assms(2)] create_outcome.case)

lemma failed_client_kept:
  assumes "sm_dht m = None" "create_dht en now i False fs pv cv m = (r, m1)"
  shows "r = BindFailed \<and> create_dht en later i' True fs' pv' cv' m1 = (AlreadyRunning, m1) \<and>
    (\<forall>n. sm_dht m1 = Some n \<longrightarrow> \<not> dc_running (nd_client n))"
  using assms
  by (auto simp: create_dht_def start_begin_def nd_new_def Let_def set_routing_table_path_def
      set_clear_persisted_routing_table_def dc_new_def split: option.splits prod.splits if_splits)

subsection \<open>Properties\<close>

text \<open>C13: A session from start to end. When start_all returns normally there is a DHT
  client, the torrents are the ones that were added, and each is started and
  registered with the client under the listen port. If a port mapping was made, it
  is for the listen port, and the destructor asks the gateway exactly once, at its
  control URL, to remove it; after the destructor the DHT client is gone and every
  torrent is stopped.\<close>

theorem session_lifecycle:
  assumes "start_all net en trk pid now later i b fs pv cv w a = (None, a')"
  shows "\<exists>n. sm_dht (sa_session a') = Some n \<and>
    map (\<lambda>s. tm_info_hash (ts_tm s)) (sm_sessions (sa_session a')) = map (\<lambda>s. tm_info_hash (ts_tm s)) (sm_sessions (sa_session a)) \<and>
    (\<forall>s\<in>set (sm_sessions (sa_session a')).
       tm_started (ts_tm s) \<and> registered (tm_info_hash (ts_tm s)) (sm_listen_port (sa_session a)) (nd_client n)) \<and>
    (\<forall>p u. sa_mapping a = None \<longrightarrow> sa_mapping a' = Some p \<longrightarrow> parse_url (mp_control_url p) = Some u \<longrightarrow>
       fst (session_destroy net a') = [(ur_host u, ur_port u, soap_request u (mp_service_type p) (str ''DeletePortMapping'')
         (soap_delete_port (mp_service_type p) (dec (unat (sm_listen_port (sa_session a))))))]) \<and>
    sm_dht (sa_session (snd (session_destroy net a'))) = None \<and>
    (\<forall>s\<in>set (sm_sessions (sa_session (snd (session_destroy net a')))). tm_stopped (ts_tm s))"
proof -
  note mp = start_all_mapping [OF assms]
  obtain r m where c: "create_dht en now i b fs pv cv (sa_session a) = (r, m)" by fastforce
  define m1 where "m1 = (if sm_dht (sa_session a) = None then finish_dht en later (m\<lparr>sm_dht := map_option w (sm_dht m)\<rparr>) else m)"
  have m1: "sm_sessions m1 = sm_sessions (sa_session a)" "sm_listen_port m1 = sm_listen_port (sa_session a)" "sm_dht m1 \<noteq> None"
    using create_dht_frame [OF c] by (auto simp: m1_def finish_dht_def)
  have st: "start_torrents en trk pid later m1 = (None, sa_session a')"
    using assms mp c unfolding m1_def
    by (auto simp: start_all_def Let_def split: create_outcome.splits prod.splits if_splits dest!: arg_cong [where f = sa_session])
  obtain n1 where "sm_dht m1 = Some n1" using m1(3) by auto
  from start_torrents_registers [OF this st] obtain n where n: "sm_dht (sa_session a') = Some n"
    "map (\<lambda>s. tm_info_hash (ts_tm s)) (sm_sessions (sa_session a')) = map (\<lambda>s. tm_info_hash (ts_tm s)) (sm_sessions (sa_session a))"
    "\<forall>s\<in>set (sm_sessions (sa_session a')).
       tm_started (ts_tm s) \<and> registered (tm_info_hash (ts_tm s)) (sm_listen_port (sa_session a)) (nd_client n)"
    using m1(1,2) by auto
  have del: "fst (session_destroy net a') = [(ur_host u, ur_port u, soap_request u (mp_service_type p) (str ''DeletePortMapping'')
         (soap_delete_port (mp_service_type p) (dec (unat (sm_listen_port (sa_session a))))))]"
    if "sa_mapping a = None" "sa_mapping a' = Some p" "parse_url (mp_control_url p) = Some u" for p u
    using map_port_new [of net a p] mp that
    by (simp add: session_destroy_def mp_destroy_def release_simp delete_request_def sent_def Let_def del: str_Cons)
  have stop: "sm_dht (sa_session (snd (session_destroy net a'))) = None \<and>
    (\<forall>s\<in>set (sm_sessions (sa_session (snd (session_destroy net a')))). tm_stopped (ts_tm s))"
    using stop_all_stopped [of "stop_status_refresh (sa_session a')"]
    by (simp add: session_destroy_def Let_def split: option.split prod.split)
  show ?thesis using n del stop by blast
qed

definition sample_app :: session_app where
  "sample_app = \<lparr>sa_session = sample_session, sa_mapping = None\<rparr>"

theorem session_lifecycle_witness:
  "\<exists>a'. start_all gw_net sample_env (\<lambda>_ _. None) (\<lambda>_. []) 5 5 [] True
       \<lparr>sf_files = Map.empty, sf_dirs = \<lambda>_. True, sf_may_mkdir = \<lambda>_. True, sf_may_write = \<lambda>_. True, sf_may_remove = \<lambda>_. True\<rparr>
       None None id sample_app = (None, a') \<and> sa_mapping a' = Some gw_mapping \<and> length (fst (session_destroy gw_net a')) = 1"
proof -
  let ?fs = "\<lparr>sf_files = Map.empty, sf_dirs = \<lambda>_. True, sf_may_mkdir = \<lambda>_. True, sf_may_write = \<lambda>_. True, sf_may_remove = \<lambda>_. True\<rparr>"
  have port: "sm_listen_port (sa_session sample_app) = 6881" by (simp add: sample_app_def sample_session_def sm_new_def)
  have mp: "map_port gw_net sample_app = Returned (Some gw_mapping)"
    using port gw_create by (simp add: map_port_def sample_app_def)
  obtain n where n: "sm_dht sample_session = Some n" by (simp add: sample_session_def)
  obtain m' where m': "start_torrents sample_env (\<lambda>_ _. None) (\<lambda>_. []) 5 sample_session = (None, m')"
    by (simp add: start_torrents_def sample_session_def start_def)
  define a' where "a' = \<lparr>sa_session = m', sa_mapping = Some gw_mapping\<rparr>"
  have run: "start_all gw_net sample_env (\<lambda>_ _. None) (\<lambda>_. []) 5 5 [] True ?fs None None id sample_app = (None, a')"
    using mp n m' by (simp add: start_all_def create_dht_def sample_app_def a'_def)
  have "parse_url (mp_control_url gw_mapping) = Some \<lparr>ur_host = str ''g'', ur_port = 80, ur_path = str ''/c''\<rparr>"
    unfolding gw_mapping_def port_mapping.simps by (rule gw_url) simp_all
  then have "length (fst (session_destroy gw_net a')) = 1"
    using session_lifecycle [OF run] by (auto simp: sample_app_def a'_def)
  then show ?thesis using run by (auto simp: a'_def)
qed

end
