(* ===== verification/Run_Summary.thy ===== *)
theory Run_Summary
  imports Session_Manager
begin

section \<open>Run summaries\<close>

text \<open>
  The JSON files a session leaves: \<^verbatim>\<open>TorrentManager::build_run_summary\<close> and
  \<^verbatim>\<open>write_run_summary_json\<close> (\<^verbatim>\<open>src/peer_wire/torrent_manager.cpp\<close>), the summary of
  all torrents (\<^verbatim>\<open>src/peer_wire/session_manager.cpp\<close>) and the one of the DHT
  client (\<^verbatim>\<open>src/dht/dht_client.cpp\<close>), with the sizes and rates of
  \<^verbatim>\<open>inc/utils.h\<close> they print. A number the code computes in floating point is
  the exact quotient here; it is printed the way the C library does, rounded to
  the nearest and on a tie to the even digit.
\<close>

subsection \<open>Sizes and rates\<close>

definition round_even :: "rat \<Rightarrow> int" where
  "round_even x =
     (let f = \<lfloor>x\<rfloor>; d = x - of_int f
      in if d < 1 / 2 then f else if 1 / 2 < d then f + 1 else if even f then f else f + 1)"

text \<open>\<^verbatim>\<open>std::fixed << std::setprecision(k)\<close>.\<close>

definition pad_digits :: "nat \<Rightarrow> nat \<Rightarrow> bytes" where
  "pad_digits k n = replicate (k - length (dec n)) 48 @ dec n"

definition fixed :: "nat \<Rightarrow> rat \<Rightarrow> bytes" where
  "fixed k x =
     (let h = nat \<bar>round_even (\<bar>x\<bar> * 10 ^ k)\<bar>
      in (if x < 0 then [45] else []) @ dec (h div 10 ^ k) @
         (if k = 0 then [] else str ''.'' @ pad_digits k (h mod 10 ^ k)))"

definition with_unit :: "rat \<Rightarrow> bytes \<Rightarrow> bytes" where
  "with_unit v u = fixed 2 v @ str '' '' @ u"

definition format_byte_size :: "nat \<Rightarrow> bytes" where
  "format_byte_size n =
     (if n < 1024 then dec n @ str '' B''
      else if n < 1024 ^ 2 then with_unit (of_nat n / 1024) (str ''KiB'')
      else if n < 1024 ^ 3 then with_unit (of_nat n / 1024 ^ 2) (str ''MiB'')
      else if n < 1024 ^ 4 then with_unit (of_nat n / 1024 ^ 3) (str ''GiB'')
      else with_unit (of_nat n / 1024 ^ 4) (str ''TiB''))"

definition format_byte_rate :: "rat \<Rightarrow> bytes" where
  "format_byte_rate r =
     (let r = max r 0
      in if r < 1024 then with_unit r (str ''B/s'')
         else if r < 1024 ^ 2 then with_unit (r / 1024) (str ''KiB/s'')
         else if r < 1024 ^ 3 then with_unit (r / 1024 ^ 2) (str ''MiB/s'')
         else with_unit (r / 1024 ^ 3) (str ''GiB/s''))"

subsection \<open>The summary of a torrent\<close>

record torrent_run_summary =
  rs_torrent_name :: bytes
  rs_info_hash_hex :: bytes
  rs_duration :: bytes
  rs_size :: bytes
  rs_avg_speed :: rat
  rs_peak_speed :: rat
  rs_dht_peers :: nat
  rs_workers_started :: nat
  rs_handshakes_ok :: nat
  rs_handshake_failed :: nat
  rs_run_failed :: nat
  rs_hash_failures :: nat
  rs_complete :: bool

text \<open>The nanoseconds from the start to the completion, or to now; a time that was never set is 0.\<close>

definition run_time :: "nat \<Rightarrow> torrent_manager \<Rightarrow> int" where
  "run_time now t =
     (if tm_start_time t \<noteq> 0
      then int (if tm_complete_time t \<noteq> 0 then tm_complete_time t else now) - int (tm_start_time t) else 0)"

definition build_run_summary :: "nat \<Rightarrow> torrent_session \<Rightarrow> torrent_run_summary" where
  "build_run_summary now s =
     (let t = ts_tm s; d = run_time now t
      in \<lparr>rs_torrent_name = ts_name s, rs_info_hash_hex = info_hash_hex s,
          rs_duration = format_duration (nat (d div 1000000000)), rs_size = format_byte_size (tm_total_size t),
          rs_avg_speed = (if 0 < d then of_nat (downloaded_bytes t * 1000000000) / of_int d else 0),
          rs_peak_speed = ts_peak s, rs_dht_peers = tm_dht_peers t, rs_workers_started = tm_workers_started t,
          rs_handshakes_ok = tm_handshakes_ok t, rs_handshake_failed = tm_handshake_failed t,
          rs_run_failed = tm_run_failed t, rs_hash_failures = mg_hash_failures (tm_manager t),
          rs_complete = is_complete (tm_manager t)\<rparr>)"

text \<open>The lines of an object, with their indentation and what ends them.\<close>

definition quoted :: "bytes \<Rightarrow> bytes" where
  "quoted s = 34 # s @ [34]"

definition key :: "bytes \<Rightarrow> bytes \<Rightarrow> bytes" where
  "key indentation k = indentation @ quoted k @ str '': ''"

definition json_bool :: "bool \<Rightarrow> bytes" where
  "json_bool b = (if b then str ''true'' else str ''false'')"

definition comma_nl :: bytes where
  "comma_nl = [44, 10]"

definition torrent_json :: "torrent_run_summary \<Rightarrow> bool option \<Rightarrow> bytes" where
  "torrent_json s reference_match =
     (let k = key (str ''  '') in
      [123, 10] @
      k (str ''torrent_name'') @ quoted (json_escape (rs_torrent_name s)) @ comma_nl @
      k (str ''info_hash_hex'') @ quoted (json_escape (rs_info_hash_hex s)) @ comma_nl @
      k (str ''duration'') @ quoted (json_escape (rs_duration s)) @ comma_nl @
      k (str ''size'') @ quoted (json_escape (rs_size s)) @ comma_nl @
      k (str ''avg_speed'') @ quoted (json_escape (format_byte_rate (rs_avg_speed s))) @ comma_nl @
      k (str ''peak_speed'') @ quoted (json_escape (format_byte_rate (rs_peak_speed s))) @ comma_nl @
      k (str ''dht_peers_discovered'') @ dec (rs_dht_peers s) @ comma_nl @
      k (str ''peer_workers_started'') @ dec (rs_workers_started s) @ comma_nl @
      k (str ''peer_handshakes_ok'') @ dec (rs_handshakes_ok s) @ comma_nl @
      k (str ''peer_handshake_failed'') @ dec (rs_handshake_failed s) @ comma_nl @
      k (str ''peer_run_failed'') @ dec (rs_run_failed s) @ comma_nl @
      k (str ''piece_hash_failures'') @ dec (rs_hash_failures s) @ comma_nl @
      k (str ''complete'') @ json_bool (rs_complete s) @
      (case reference_match of None \<Rightarrow> [] | Some m \<Rightarrow> comma_nl @ k (str ''reference_match'') @ json_bool m) @
      [10, 125, 10])"

subsection \<open>The summary of all torrents\<close>

text \<open>The names go out as they are, without escapes.\<close>

definition batch_entry :: "torrent_run_summary \<Rightarrow> bytes" where
  "batch_entry s =
     (let k = key (str ''      '') in
      str ''    '' @ [123, 10] @
      k (str ''torrent_name'') @ quoted (rs_torrent_name s) @ comma_nl @
      k (str ''info_hash_hex'') @ quoted (rs_info_hash_hex s) @ comma_nl @
      k (str ''complete'') @ json_bool (rs_complete s) @ comma_nl @
      k (str ''duration'') @ quoted (rs_duration s) @ comma_nl @
      k (str ''size'') @ quoted (rs_size s) @ comma_nl @
      k (str ''avg_speed'') @ quoted (format_byte_rate (rs_avg_speed s)) @ comma_nl @
      k (str ''peak_speed'') @ quoted (format_byte_rate (rs_peak_speed s)) @ [10] @
      str ''    '' @ [125])"

fun json_lines :: "bytes list \<Rightarrow> bytes" where
  "json_lines [] = []"
| "json_lines [x] = x @ [10]"
| "json_lines (x # y # xs) = x @ comma_nl @ json_lines (y # xs)"

definition batch_json :: "nat \<Rightarrow> session_manager \<Rightarrow> bytes" where
  "batch_json now m =
     (let k = key (str ''  ''); ss = map (build_run_summary now) (sm_sessions m) in
      [123, 10] @
      k (str ''torrent_count'') @ dec (length (sm_sessions m)) @ comma_nl @
      k (str ''sessions_reported'') @ dec (length ss) @ comma_nl @
      k (str ''all_complete'') @
        json_bool (sm_sessions m \<noteq> [] \<and> (\<forall>s\<in>set (sm_sessions m). is_complete (tm_manager (ts_tm s)))) @ comma_nl @
      k (str ''torrents'') @ [91, 10] @ json_lines (map batch_entry ss) @ str ''  '' @ [93, 10, 125, 10])"

subsection \<open>The summary of the DHT client\<close>

definition format_dht_bucket_lines :: "nat list \<Rightarrow> nat list \<Rightarrow> bytes list" where
  "format_dht_bucket_lines occupancy received =
     map (\<lambda>i. dec (i + 1) @ str '': '' @ dec (occupancy ! i) @ str ''('' @ dec (received ! i) @ str '')'')
       (filter (\<lambda>i. \<not> (occupancy ! i = 0 \<and> received ! i = 0)) [0..<NUM_BUCKETS])"

definition string_line :: "bytes \<Rightarrow> bytes" where
  "string_line l = str ''    '' @ quoted (json_escape l)"

definition dht_json :: "performance \<Rightarrow> bytes list \<Rightarrow> bytes" where
  "dht_json d bucket_lines =
     (let k = key (str ''  '') in
      [123, 10] @
      k (str ''bootstrap_skipped'') @ json_bool (pf_bootstrap_skipped d) @ comma_nl @
      (if pf_bootstrap_skipped d then k (str ''loaded_entries_at_start'') @ dec (pf_loaded d)
       else k (str ''bootstrap_latency_sec'') @ fixed 3 (of_int (pf_bootstrap_latency d) / 1000000000)) @ comma_nl @
      k (str ''routing_table_total'') @ dec (pf_total d) @ comma_nl @
      k (str ''routing_table_good'') @ dec (pf_good d) @ comma_nl @
      k (str ''uptime'') @ quoted (json_escape (format_duration_hours_minutes (nat (pf_uptime d div 1000000000)))) @ comma_nl @
      k (str ''buckets'') @ [91, 10] @
      json_lines (map string_line bucket_lines) @ str ''  '' @ [93, 10, 125, 10])"

subsection \<open>A reader of JSON\<close>

text \<open>
  A reader for the part of JSON the summaries use, with the rules of the
  standard: a string ends at the first bare quote and has no control character.
\<close>

datatype json = JString bytes | JNumber bytes | JBool bool | JObject "(bytes \<times> json) list" | JArray "json list"

definition is_ws :: "byte \<Rightarrow> bool" where
  "is_ws c \<longleftrightarrow> c = 32 \<or> c = 10 \<or> c = 13 \<or> c = 9"

definition unescape_char :: "byte \<Rightarrow> byte option" where
  "unescape_char e = (if e = 92 \<or> e = 34 then Some e else if e = 110 then Some 10 else if e = 114 then Some 13
     else if e = 116 then Some 9 else None)"

fun read_string :: "bytes \<Rightarrow> (bytes \<times> bytes) option" where
  "read_string [] = None"
| "read_string (c # r) =
     (if c = 34 then Some ([], r)
      else if c = 92 then
        (case r of [] \<Rightarrow> None
         | e # r' \<Rightarrow> (case unescape_char e of None \<Rightarrow> None | Some b \<Rightarrow> map_option (apfst ((#) b)) (read_string r')))
      else if c < 32 then None
      else map_option (apfst ((#) c)) (read_string r))"

definition read_number :: "bytes \<Rightarrow> (bytes \<times> bytes) option" where
  "read_number s =
     (let sign = takeWhile (\<lambda>c. c = 45) (take 1 s); s = drop (length sign) s;
          ds = takeWhile is_digit s; r = dropWhile is_digit s
      in if ds = [] then None
         else if r \<noteq> [] \<and> hd r = 46 \<and> takeWhile is_digit (tl r) \<noteq> []
         then Some (sign @ ds @ 46 # takeWhile is_digit (tl r), dropWhile is_digit (tl r))
         else Some (sign @ ds, r))"

fun read_value :: "nat \<Rightarrow> bytes \<Rightarrow> (json \<times> bytes) option"
  and read_members :: "nat \<Rightarrow> bytes \<Rightarrow> ((bytes \<times> json) list \<times> bytes) option"
  and read_elems :: "nat \<Rightarrow> bytes \<Rightarrow> (json list \<times> bytes) option" where
  "read_value 0 s = None"
| "read_value (Suc n) s =
     (case dropWhile is_ws s of
        [] \<Rightarrow> None
      | c # r \<Rightarrow>
          if c = 34 then map_option (apfst JString) (read_string r)
          else if c = 123 then map_option (apfst JObject) (read_members n r)
          else if c = 91 then map_option (apfst JArray) (read_elems n r)
          else if take 4 (c # r) = str ''true'' then Some (JBool True, drop 4 (c # r))
          else if take 5 (c # r) = str ''false'' then Some (JBool False, drop 5 (c # r))
          else map_option (apfst JNumber) (read_number (c # r)))"
| "read_members 0 s = None"
| "read_members (Suc n) s =
     (case dropWhile is_ws s of
        [] \<Rightarrow> None
      | c # r \<Rightarrow>
          if c \<noteq> 34 then None
          else case read_string r of
                 None \<Rightarrow> None
               | Some (k, r) \<Rightarrow>
                   (case dropWhile is_ws r of
                      [] \<Rightarrow> None
                    | c # r \<Rightarrow>
                        if c \<noteq> 58 then None
                        else case read_value n r of
                               None \<Rightarrow> None
                             | Some (v, r) \<Rightarrow>
                                 (case dropWhile is_ws r of
                                    [] \<Rightarrow> None
                                  | c # r \<Rightarrow>
                                      if c = 44 then map_option (apfst ((#) (k, v))) (read_members n r)
                                      else if c = 125 then Some ([(k, v)], r) else None)))"
| "read_elems 0 s = None"
| "read_elems (Suc n) s =
     (case dropWhile is_ws s of
        [] \<Rightarrow> None
      | c # r \<Rightarrow>
          if c = 93 then Some ([], r)
          else case read_value n s of
                 None \<Rightarrow> None
               | Some (v, r) \<Rightarrow>
                   (case dropWhile is_ws r of
                      [] \<Rightarrow> None
                    | c # r \<Rightarrow>
                        if c = 44 then map_option (apfst ((#) v)) (read_elems n r)
                        else if c = 93 then Some ([v], r) else None))"

definition printable :: "bytes \<Rightarrow> bool" where
  "printable s \<longleftrightarrow> (\<forall>c\<in>set s. 32 \<le> c \<or> c = 9 \<or> c = 10 \<or> c = 13)"

lemma printable_simps [simp]:
  "printable []" "printable (c # s) \<longleftrightarrow> (32 \<le> c \<or> c = 9 \<or> c = 10 \<or> c = 13) \<and> printable s"
  "printable (s @ t) \<longleftrightarrow> printable s \<and> printable t"
  by (auto simp: printable_def)

lemma printable_dec [simp]: "printable (dec n)"
  by (auto simp: printable_def is_digit_def word_le_nat_alt dest!: dec_digits)

lemma read_string_escape:
  "printable s \<Longrightarrow> read_string (json_escape s @ 34 # r) = Some (s, r)"
proof (induction s)
  case (Cons c s)
  have "read_string (escape_char c @ t) = map_option (apfst ((#) c)) (read_string t)" for t
    using Cons.prems by (auto simp: escape_char_def unescape_char_def word_less_nat_alt word_le_nat_alt)
  then show ?case using Cons by (simp add: json_escape_def)
qed (simp add: json_escape_def)

text \<open>Values, each followed by something that is neither a digit nor a point.\<close>

declare read_value.simps [simp del] read_members.simps [simp del] read_elems.simps [simp del]

lemma read_value_string:
  "printable s \<Longrightarrow> read_value (Suc n) (32 # quoted (json_escape s) @ r) = Some (JString s, r)"
  by (simp add: read_value.simps is_ws_def quoted_def read_string_escape)

lemma dec_first: "\<exists>c r. dec m = c # r \<and> is_digit c"
  using hd_dec_digit [of m] dec_nonempty [of m] by (cases "dec m") auto

lemma read_value_number:
  assumes "\<not> is_digit c" "c \<noteq> 46"
  shows "read_value (Suc n) (32 # dec m @ c # r) = Some (JNumber (dec m), c # r)"
proof -
  obtain d ds where d: "dec m = d # ds" "is_digit d" using dec_first by blast
  have w: "takeWhile is_digit (dec m @ c # r) = dec m" "dropWhile is_digit (dec m @ c # r) = c # r"
    using dec_digits [of _ m] assms(1) by (auto simp: takeWhile_append dropWhile_append)
  have "d \<noteq> 34" "d \<noteq> 123" "d \<noteq> 91" "d \<noteq> 116" "d \<noteq> 102" "d \<noteq> 45" "\<not> is_ws d"
    using d(2) by (auto simp: is_digit_def is_ws_def word_le_nat_alt)
  moreover have "read_number (dec m @ c # r) = Some (dec m, c # r)"
    using w assms(2) \<open>d \<noteq> 45\<close> d(1) by (simp add: read_number_def Let_def)
  ultimately show ?thesis using d(1) by (simp add: read_value.simps is_ws_def)
qed

lemma read_value_bool: "read_value (Suc n) (32 # json_bool b @ r) = Some (JBool b, r)"
  by (simp add: read_value.simps json_bool_def is_ws_def)

text \<open>A member of an object whose key needs no escapes, and what follows it.\<close>

definition plain :: "bytes \<Rightarrow> bool" where
  "plain k \<longleftrightarrow> (\<forall>c\<in>set k. 32 \<le> c \<and> c \<noteq> 34 \<and> c \<noteq> 92)"

lemma read_string_plain: "plain k \<Longrightarrow> read_string (k @ 34 # r) = Some (k, r)"
  by (induction k) (auto simp: plain_def)

lemma key_skip: "dropWhile is_ws (10 # key (str ''  '') k @ t) = 34 # k @ 34 # 58 # 32 # t"
  by (simp add: key_def quoted_def is_ws_def)

lemma read_members_more:
  assumes "plain k" "read_value n (32 # v @ comma_nl @ r) = Some (j, comma_nl @ r)"
  shows "read_members (Suc n) (10 # key (str ''  '') k @ v @ comma_nl @ r) =
     map_option (apfst ((#) (k, j))) (read_members n (10 # r))"
  unfolding read_members.simps key_skip using assms by (simp add: read_string_plain is_ws_def comma_nl_def)

lemma read_members_last:
  assumes "plain k" "read_value n (32 # v @ 10 # 125 # r) = Some (j, 10 # 125 # r)"
  shows "read_members (Suc n) (10 # key (str ''  '') k @ v @ 10 # 125 # r) = Some ([(k, j)], r)"
  unfolding read_members.simps key_skip using assms by (simp add: read_string_plain is_ws_def)

lemma member_string:
  "plain k \<Longrightarrow> printable s \<Longrightarrow> read_members (Suc (Suc n)) (10 # key (str ''  '') k @ quoted (json_escape s) @ comma_nl @ r) =
     map_option (apfst ((#) (k, JString s))) (read_members (Suc n) (10 # r))"
  by (rule read_members_more) (simp_all only: read_value_string)

lemma member_number:
  "plain k \<Longrightarrow> read_members (Suc (Suc n)) (10 # key (str ''  '') k @ dec m @ comma_nl @ r) =
     map_option (apfst ((#) (k, JNumber (dec m)))) (read_members (Suc n) (10 # r))"
  using read_value_number [of 44 n m "10 # r"] by (intro read_members_more) (simp_all add: comma_nl_def is_digit_def)

lemma member_bool:
  "plain k \<Longrightarrow> read_members (Suc (Suc n)) (10 # key (str ''  '') k @ json_bool b @ comma_nl @ r) =
     map_option (apfst ((#) (k, JBool b))) (read_members (Suc n) (10 # r))"
  by (rule read_members_more) (simp_all only: read_value_bool)

lemma last_bool:
  "plain k \<Longrightarrow> read_members (Suc (Suc n)) (10 # key (str ''  '') k @ json_bool b @ 10 # 125 # r) = Some ([(k, JBool b)], r)"
  by (rule read_members_last) (simp_all only: read_value_bool)

lemmas members = member_string member_number member_bool last_bool

text \<open>Everything a summary says in words is printable, except perhaps the name.\<close>

lemma printable_hex [simp]: "printable (to_hex h)"
proof -
  have "32 \<le> hex_digit d" if "d < 16" for d using unat_hex_digit [OF that] by (simp add: word_le_nat_alt)
  then show ?thesis using nibble by (auto simp: printable_def to_hex_def hex_byte_def)
qed

lemma printable_replicate [simp]: "printable (replicate n 48)"
  by (simp add: printable_def)

lemma printable_fixed [simp]: "printable (fixed k x)"
  by (simp add: fixed_def pad_digits_def Let_def)

lemma printable_words [simp]:
  "printable (format_duration n)" "printable (format_byte_size n)" "printable (format_byte_rate r)"
  by (simp_all add: format_duration_def format_byte_size_def format_byte_rate_def with_unit_def Let_def)

subsection \<open>What the files say\<close>

definition torrent_fields :: "torrent_run_summary \<Rightarrow> bool option \<Rightarrow> (bytes \<times> json) list" where
  "torrent_fields s reference_match =
     [(str ''torrent_name'', JString (rs_torrent_name s)), (str ''info_hash_hex'', JString (rs_info_hash_hex s)),
      (str ''duration'', JString (rs_duration s)), (str ''size'', JString (rs_size s)),
      (str ''avg_speed'', JString (format_byte_rate (rs_avg_speed s))),
      (str ''peak_speed'', JString (format_byte_rate (rs_peak_speed s))),
      (str ''dht_peers_discovered'', JNumber (dec (rs_dht_peers s))),
      (str ''peer_workers_started'', JNumber (dec (rs_workers_started s))),
      (str ''peer_handshakes_ok'', JNumber (dec (rs_handshakes_ok s))),
      (str ''peer_handshake_failed'', JNumber (dec (rs_handshake_failed s))),
      (str ''peer_run_failed'', JNumber (dec (rs_run_failed s))),
      (str ''piece_hash_failures'', JNumber (dec (rs_hash_failures s))),
      (str ''complete'', JBool (rs_complete s))] @
     (case reference_match of None \<Rightarrow> [] | Some m \<Rightarrow> [(str ''reference_match'', JBool m)])"

lemma torrent_json_reads:
  assumes "printable (rs_torrent_name s)" "printable (rs_info_hash_hex s)" "printable (rs_duration s)" "printable (rs_size s)"
  shows "read_value (n + 17) (torrent_json s reference_match) = Some (JObject (torrent_fields s reference_match), [10])"
proof -
  have n: "n + 17 = Suc (Suc (Suc (Suc (Suc (Suc (Suc (Suc (Suc (Suc (Suc (Suc (Suc (Suc (Suc (Suc (Suc n))))))))))))))))"
    by simp
  show ?thesis
    unfolding n torrent_json_def torrent_fields_def Let_def
    by (cases reference_match)
      (simp_all add: read_value.simps is_ws_def members [simplified] plain_def assms)
qed

text \<open>Numbers with a fractional part, and arrays of strings, for the summary of the DHT client.\<close>

lemma digits_run: "\<forall>c\<in>set ds. is_digit c \<Longrightarrow> \<not> is_digit c \<Longrightarrow>
    takeWhile is_digit (ds @ c # r) = ds \<and> dropWhile is_digit (ds @ c # r) = c # r"
  by (auto simp: takeWhile_append dropWhile_append)

lemma read_number_fixed:
  assumes "0 < k" "\<not> is_digit c"
  shows "read_number (fixed k x @ c # r) = Some (fixed k x, c # r)"
proof -
  define h where "h = nat \<bar>round_even (\<bar>x\<bar> * 10 ^ k)\<bar>"
  define a where "a = dec (h div 10 ^ k)"
  define b where "b = pad_digits k (h mod 10 ^ k)"
  define sg :: bytes where "sg = (if x < 0 then [45] else [])"
  have f: "fixed k x = sg @ a @ 46 # b" using assms(1) by (simp add: fixed_def Let_def h_def a_def b_def sg_def)
  have da: "\<forall>c\<in>set a. is_digit c" "a \<noteq> []" using dec_digits by (auto simp: a_def)
  have db: "\<forall>c\<in>set b. is_digit c" "b \<noteq> []" using dec_digits by (auto simp: b_def pad_digits_def is_digit_def)
  have run: "takeWhile is_digit (a @ 46 # b @ c # r) = a" "dropWhile is_digit (a @ 46 # b @ c # r) = 46 # b @ c # r"
    "takeWhile is_digit (b @ c # r) = b" "dropWhile is_digit (b @ c # r) = c # r"
    using digits_run [OF da(1), of 46] digits_run [OF db(1) assms(2)] by (simp_all add: is_digit_def)
  obtain d ds where d: "a = d # ds" using da(2) by (cases a) auto
  then have "d \<noteq> 45" using da(1) by (auto simp: is_digit_def word_le_nat_alt)
  then have sign: "takeWhile (\<lambda>c. c = 45) (take 1 (sg @ a @ 46 # b @ c # r)) = sg" by (simp add: sg_def d)
  have "drop (length sg) (sg @ a @ 46 # b @ c # r) = a @ 46 # b @ c # r" by simp
  then show ?thesis
    unfolding f by (simp only: read_number_def Let_def append_assoc append_Cons sign run) (use da(2) db(2) run in simp)
qed

lemma read_value_fixed:
  assumes "0 < k" "\<not> is_digit c"
  shows "read_value (Suc n) (32 # fixed k x @ c # r) = Some (JNumber (fixed k x), c # r)"
proof -
  have "\<exists>d t. fixed k x = d # t \<and> (is_digit d \<or> d = 45)"
    using dec_first [of "nat \<bar>round_even (\<bar>x\<bar> * 10 ^ k)\<bar> div 10 ^ k"] by (auto simp: fixed_def Let_def)
  then obtain d t where d: "fixed k x = d # t" "is_digit d \<or> d = 45" by blast
  have "d \<noteq> 34" "d \<noteq> 123" "d \<noteq> 91" "d \<noteq> 116" "d \<noteq> 102" "\<not> is_ws d"
    using d(2) by (auto simp: is_digit_def is_ws_def word_le_nat_alt)
  then show ?thesis using read_number_fixed [OF assms, of x r] d(1) by (simp add: read_value.simps is_ws_def)
qed

lemma member_fixed:
  "plain k \<Longrightarrow> 0 < d \<Longrightarrow> read_members (Suc (Suc n)) (10 # key (str ''  '') k @ fixed d x @ comma_nl @ r) =
     map_option (apfst ((#) (k, JNumber (fixed d x)))) (read_members (Suc n) (10 # r))"
  using read_value_fixed [of d 44 n x "10 # r"] by (intro read_members_more) (simp_all add: comma_nl_def is_digit_def)

lemma read_value_line:
  "printable l \<Longrightarrow> read_value (Suc n) (10 # string_line l @ r) = Some (JString l, r)"
  by (simp add: string_line_def read_value.simps is_ws_def quoted_def read_string_escape)

lemma read_elems_lines:
  "\<forall>l\<in>set ls. printable l \<Longrightarrow> read_elems (n + Suc (Suc (length ls))) (10 # json_lines (map string_line ls) @ 32 # 32 # 93 # r) =
     Some (map JString ls, r)"
proof (induction ls)
  case Nil
  then show ?case by (simp add: read_elems.simps is_ws_def)
next
  case (Cons l ls)
  have hd: "dropWhile is_ws (10 # string_line l @ t) = 34 # json_escape l @ 34 # t" for t
    by (simp add: string_line_def quoted_def is_ws_def)
  have val: "read_value (n + Suc (Suc (length ls))) (10 # string_line l @ t) = Some (JString l, t)" for t
    using read_value_line [of l "n + Suc (length ls)" t] Cons.prems by simp
  show ?case
  proof (cases ls)
    case Nil
    then show ?thesis using hd [of "10 # 32 # 32 # 93 # r"] val [of "10 # 32 # 32 # 93 # r"]
      by (simp add: read_elems.simps is_ws_def)
  next
    case (Cons l' ls')
    let ?t = "comma_nl @ json_lines (map string_line ls) @ 32 # 32 # 93 # r"
    have "10 # json_lines (map string_line (l # ls)) @ 32 # 32 # 93 # r = 10 # string_line l @ ?t"
      using Cons by simp
    moreover have "read_elems (n + Suc (Suc (length ls))) (10 # json_lines (map string_line ls) @ 32 # 32 # 93 # r) =
        Some (map JString ls, r)" using Cons.IH Cons.prems by simp
    ultimately show ?thesis using hd [of ?t] val [of ?t] by (simp add: read_elems.simps is_ws_def comma_nl_def)
  qed
qed

definition dht_fields :: "performance \<Rightarrow> bytes list \<Rightarrow> (bytes \<times> json) list" where
  "dht_fields d ls =
     [(str ''bootstrap_skipped'', JBool (pf_bootstrap_skipped d)),
      (if pf_bootstrap_skipped d then (str ''loaded_entries_at_start'', JNumber (dec (pf_loaded d)))
       else (str ''bootstrap_latency_sec'', JNumber (fixed 3 (of_int (pf_bootstrap_latency d) / 1000000000)))),
      (str ''routing_table_total'', JNumber (dec (pf_total d))), (str ''routing_table_good'', JNumber (dec (pf_good d))),
      (str ''uptime'', JString (format_duration_hours_minutes (nat (pf_uptime d div 1000000000)))),
      (str ''buckets'', JArray (map JString ls))]"

lemma printable_hours [simp]: "printable (format_duration_hours_minutes n)"
  by (simp add: format_duration_hours_minutes_def Let_def)

lemma last_array:
  assumes "plain k" "\<forall>l\<in>set ls. printable l"
  shows "read_members (Suc (Suc (n + Suc (Suc (length ls))))) (10 # key (str ''  '') k @
      (91 # 10 # json_lines (map string_line ls) @ [32, 32, 93]) @ 10 # 125 # r) = Some ([(k, JArray (map JString ls))], r)"
  using read_elems_lines [OF assms(2), of n "10 # 125 # r"] assms(1)
  by (intro read_members_last) (simp_all add: read_value.simps is_ws_def)

lemma dht_json_reads:
  assumes "\<forall>l\<in>set ls. printable l"
  shows "read_value (n + length ls + 10) (dht_json d ls) = Some (JObject (dht_fields d ls), [10])"
proof -
  have n: "n + length ls + 10 = Suc (Suc (Suc (Suc (Suc (Suc (Suc (Suc (n + Suc (Suc (length ls))))))))))" by simp
  show ?thesis
    unfolding n dht_json_def dht_fields_def Let_def
    using last_array [OF _ assms, simplified, of "str ''buckets''" n "[10]", simplified]
    by (cases "pf_bootstrap_skipped d")
      (simp_all add: read_value.simps is_ws_def members [simplified] member_fixed [simplified] plain_def)
qed

lemma printable_bucket_lines: "l \<in> set (format_dht_bucket_lines occ rec) \<Longrightarrow> printable l"
  by (auto simp: format_dht_bucket_lines_def)

text \<open>
  A name with a quote breaks the summary of all torrents, which does not escape
  it, and a name with a control character other than tab and line ends breaks
  that of the torrent.
\<close>

lemma batch_quote_breaks:
  "rs_torrent_name s = str ''a'' @ [34] @ str ''b'' \<Longrightarrow> read_value (n + 3) (batch_entry s @ r) = None"
proof -
  have n: "n + 3 = Suc (Suc (Suc n))" by simp
  assume "rs_torrent_name s = str ''a'' @ [34] @ str ''b''"
  then show ?thesis
    unfolding n batch_entry_def Let_def by (simp add: read_value.simps read_members.simps is_ws_def key_def quoted_def)
qed

lemma control_character_breaks:
  "rs_torrent_name s = [1] \<Longrightarrow> read_value (n + 3) (torrent_json s m) = None"
proof -
  have n: "n + 3 = Suc (Suc (Suc n))" by simp
  assume "rs_torrent_name s = [1]"
  then show ?thesis
    unfolding n torrent_json_def Let_def
    by (simp add: read_value.simps read_members.simps is_ws_def key_def quoted_def json_escape_def escape_char_def)
qed

subsection \<open>Properties\<close>

text \<open>The summary file of a torrent is JSON and says what the torrent manager knows:
  for a torrent whose name has no control characters besides tab and line ends,
  whatever quotes and backslashes it contains, a reader gets back the name, the
  info hash, the counters and the state, in this order and nothing else. The
  summary of the DHT client is read back the same way for every state.\<close>

theorem summaries_read_back:
  assumes "printable (ts_name s)"
  shows "read_value (n + 17) (torrent_json (build_run_summary now s) reference_match) =
      Some (JObject (torrent_fields (build_run_summary now s) reference_match), [10]) \<and>
    (\<exists>k. read_value k (dht_json (performance_snapshot t node) (format_dht_bucket_lines occ received)) =
      Some (JObject (dht_fields (performance_snapshot t node) (format_dht_bucket_lines occ received)), [10]))"
proof
  show "read_value (n + 17) (torrent_json (build_run_summary now s) reference_match) =
      Some (JObject (torrent_fields (build_run_summary now s) reference_match), [10])"
    by (rule torrent_json_reads) (use assms in \<open>simp_all add: build_run_summary_def info_hash_hex_def Let_def\<close>)
  show "\<exists>k. read_value k (dht_json (performance_snapshot t node) (format_dht_bucket_lines occ received)) =
      Some (JObject (dht_fields (performance_snapshot t node) (format_dht_bucket_lines occ received)), [10])"
    using dht_json_reads [of "format_dht_bucket_lines occ received" 0] printable_bucket_lines by blast
qed

theorem summaries_read_back_witness:
  "\<forall>tm. read_value 17 (torrent_json (build_run_summary 0 \<lparr>ts_name = str ''a'' @ [34, 92, 10], ts_tm = tm, ts_peak = 0\<rparr>) (Some True)) =
     Some (JObject (torrent_fields (build_run_summary 0 \<lparr>ts_name = str ''a'' @ [34, 92, 10], ts_tm = tm, ts_peak = 0\<rparr>) (Some True)), [10])"
proof
  fix tm
  show "read_value 17 (torrent_json (build_run_summary 0 \<lparr>ts_name = str ''a'' @ [34, 92, 10], ts_tm = tm, ts_peak = 0\<rparr>) (Some True)) =
     Some (JObject (torrent_fields (build_run_summary 0 \<lparr>ts_name = str ''a'' @ [34, 92, 10], ts_tm = tm, ts_peak = 0\<rparr>) (Some True)), [10])"
    using summaries_read_back [of "\<lparr>ts_name = str ''a'' @ [34, 92, 10], ts_tm = tm, ts_peak = 0\<rparr>" 0 0 "Some True"] by simp
qed

end
