(* ===== verification/Status_Text.thy ===== *)
theory Status_Text
  imports Run_Summary
begin

section \<open>The status display\<close>

text \<open>
  The text \<^verbatim>\<open>SessionManager::print_status_locked\<close> writes after it has updated the
  speeds, and the pacing of \<^verbatim>\<open>status_thread_main\<close>. A percentage of a torrent
  without bytes is not a number; its text is an argument. Quotients are exact, so
  the served share, which the code cuts off after a floating-point product, can
  differ from the code's by one.
\<close>

definition pad_right :: "nat \<Rightarrow> bytes \<Rightarrow> bytes" where
  "pad_right n s = s @ replicate (n - length s) 32"

definition pad_left :: "nat \<Rightarrow> bytes \<Rightarrow> bytes" where
  "pad_left n s = replicate (n - length s) 32 @ s"

definition progress_text :: "bytes \<Rightarrow> torrent_manager \<Rightarrow> bytes" where
  "progress_text nan t =
     (if mg_total_length (tm_manager t) = 0 then nan
      else fixed 2 (of_nat (downloaded_bytes t) / of_nat (mg_total_length (tm_manager t)) * 100))"

definition peer_line :: "peer_stat \<Rightarrow> bytes" where
  "peer_line p = str ''      '' @ pad_right 26 (ps_address p) @ str ''  '' @ format_byte_size (ps_bytes p) @ [10]"

definition seeded_line :: "rat \<Rightarrow> torrent_manager \<Rightarrow> bytes" where
  "seeded_line up_speed t =
     str ''    seeded: '' @ format_byte_size (uploaded_bytes t) @ str '' in '' @ dec (blocks_uploaded t) @ str '' blocks'' @
     (if 0 < tm_total_size t
      then str ''  (~'' @ dec (uploaded_bytes t * 100 div tm_total_size t) @ str ''% of torrent size)'' else []) @
     str ''  up '' @ format_byte_rate up_speed @ [10]"

definition session_text :: "bytes \<Rightarrow> torrent_session \<Rightarrow> rat \<Rightarrow> rat \<Rightarrow> bytes" where
  "session_text nan s speed up_speed =
     (let t = ts_tm s; seeding = is_seeding t; peers = top_peers 10 t; up_peers = top_upload_peers 10 t
      in str ''  '' @ pad_right 48 (take 48 (ts_name s)) @ pad_left 7 (progress_text nan t) @ str ''%  '' @
         pad_right 24 (str ''('' @ format_byte_size (downloaded_bytes t) @ str '' / '' @ format_byte_size (tm_total_size t) @ str '')'') @
         str ''  '' @ pad_right 14 (format_byte_rate speed) @ str ''  '' @
         (if seeding then str ''seeding'' else str ''active'') @ [10] @
         str ''    DHT peers discovered: '' @ dec (tm_dht_peers t) @ [10] @
         (if seeding then seeded_line up_speed t else []) @
         (if \<not> seeding \<and> peers \<noteq> []
          then str ''    ---- top peers (download) ----'' @ [10] @ concat (map peer_line peers) else []) @
         (if up_peers \<noteq> []
          then str ''    ---- seeding to ('' @ dec (length up_peers) @ str '') ----'' @ [10] @ concat (map peer_line up_peers)
          else []))"

definition nth_or_zero :: "rat list \<Rightarrow> nat \<Rightarrow> rat" where
  "nth_or_zero xs i = (if i < length xs then xs ! i else 0)"

definition status_text :: "bytes \<Rightarrow> session_manager \<Rightarrow> bytes" where
  "status_text nan m =
     str ''---- sessions ('' @ dec (length (sm_sessions m)) @ str '') ----'' @ [10] @
     concat (map (\<lambda>i. session_text nan (sm_sessions m ! i) (nth_or_zero (sm_speeds m) i) (nth_or_zero (sm_up_speeds m) i))
       [0..<length (sm_sessions m)])"

text \<open>One call of \<^verbatim>\<open>print_status\<close>.\<close>

definition print_status :: "bytes \<Rightarrow> nat \<Rightarrow> session_manager \<Rightarrow> bytes \<times> session_manager" where
  "print_status nan now m = (let m = update_status now m in (status_text nan m, m))"

text \<open>
  The pause between two displays, in slices of at most 200 milliseconds; the
  flags are what the thread reads before each slice. The result is how long it
  slept.
\<close>

fun status_pause :: "nat \<Rightarrow> bool list \<Rightarrow> nat" where
  "status_pause remaining [] = 0"
| "status_pause remaining (halt # stops) =
     (if remaining = 0 \<or> halt then 0
      else let step = min remaining 200 in step + status_pause (remaining - step) stops)"

subsection \<open>What is shown\<close>

lemma length_pad [simp]: "length (pad_right n s) = max n (length s)" "length (pad_left n s) = max n (length s)"
  by (simp_all add: pad_right_def pad_left_def)

text \<open>A torrent that is not complete is never shown as seeding, and never with its served share.\<close>

lemma incomplete_active:
  "\<not> is_complete (tm_manager (ts_tm s)) \<Longrightarrow> session_text nan s v u = session_text nan s v u'"
  by (simp add: session_text_def is_seeding_def Let_def)

text \<open>
  The thread sleeps its interval when nobody stops it, never longer, and stops
  within one slice once the flag is set.
\<close>

lemma status_pause_le: "status_pause r stops \<le> r"
proof (induction r stops rule: status_pause.induct)
  case (2 r halt stops)
  then show ?case by (cases "r = 0 \<or> halt") (auto simp: Let_def min_def)
qed simp

lemma status_pause_full: "\<forall>s\<in>set stops. \<not> s \<Longrightarrow> r \<le> 200 * length stops \<Longrightarrow> status_pause r stops = r"
proof (induction r stops rule: status_pause.induct)
  case (2 r halt stops)
  then show ?case by (cases "r = 0") (auto simp: Let_def min_def)
qed simp

lemma status_pause_stop: "k < length stops \<Longrightarrow> stops ! k \<Longrightarrow> status_pause r stops \<le> 200 * k"
proof (induction r stops arbitrary: k rule: status_pause.induct)
  case (2 r halt stops)
  show ?case
  proof (cases "r = 0 \<or> halt")
    case False
    then obtain j where j: "k = Suc j" using 2(3) by (cases k) auto
    have "status_pause (r - min r 200) stops \<le> 200 * j"
      by (rule 2(1)) (use False 2(2,3) j in auto)
    then show ?thesis using False j by (simp add: Let_def)
  qed auto
qed simp

end
