(* ===== verification/Bencode_Fields.thy ===== *)
theory Bencode_Fields
  imports Bencode
begin

section \<open>Typed fields of bencoded dictionaries\<close>

text \<open>
  How the readers of torrent files and tracker responses take a dictionary
  apart: \<^verbatim>\<open>get_val<T>(key)->content\<close> and \<^verbatim>\<open>as<T>(value)->content\<close> for each
  bencode type, which throw when the key is missing or the type is wrong, and
  the sequencing of steps that may throw.
\<close>

subsection \<open>Steps that may throw\<close>

definition bind_res :: "'e + 'a \<Rightarrow> ('a \<Rightarrow> 'e + 'b) \<Rightarrow> 'e + 'b" where
  "bind_res x f = (case x of Inl e \<Rightarrow> Inl e | Inr a \<Rightarrow> f a)"

fun map_res :: "('a \<Rightarrow> 'e + 'b) \<Rightarrow> 'a list \<Rightarrow> 'e + 'b list" where
  "map_res f [] = Inr []"
| "map_res f (x # xs) = bind_res (f x) (\<lambda>y. bind_res (map_res f xs) (\<lambda>ys. Inr (y # ys)))"

definition wrap :: "('e \<Rightarrow> 'f) \<Rightarrow> 'e + 'a \<Rightarrow> 'f + 'a" where
  "wrap g x = (case x of Inl e \<Rightarrow> Inl (g e) | Inr a \<Rightarrow> Inr a)"

lemma bind_res_simps [simp]: "bind_res (Inl e) f = Inl e" "bind_res (Inr a) f = f a"
  by (simp_all add: bind_res_def)

lemma bind_res_Inr [simp]: "bind_res x f = Inr r \<longleftrightarrow> (\<exists>a. x = Inr a \<and> f a = Inr r)"
  by (cases x) simp_all

lemma guard_Inr: "(if b then Inl e else x) = Inr r \<longleftrightarrow> \<not> b \<and> x = Inr r"
  by simp

lemma wrap_simps [simp]: "wrap g (Inr a) = Inr a" "wrap g (Inl e) = Inl (g e)"
  by (simp_all add: wrap_def)

lemma wrap_Inr [simp]: "wrap g x = Inr r \<longleftrightarrow> x = Inr r"
  by (cases x) simp_all

lemma map_res_Inr: "map_res f xs = Inr ys \<longleftrightarrow> list_all2 (\<lambda>x y. f x = Inr y) xs ys"
  by (induction xs arbitrary: ys) (auto simp: list_all2_Cons1)

subsection \<open>Contents\<close>

fun string_content :: "btype \<Rightarrow> bytes" where
  "string_content (BString s) = s" | "string_content _ = []"

fun integer_value :: "btype \<Rightarrow> int" where
  "integer_value (BInteger v) = v" | "integer_value _ = 0"

fun list_content :: "btype \<Rightarrow> btype list" where
  "list_content (BList l) = l" | "list_content _ = []"

fun dict_content :: "btype \<Rightarrow> (bytes \<times> btype) list" where
  "dict_content (BDict m) = m" | "dict_content _ = []"

definition get_bstring :: "(bytes \<times> btype) list \<Rightarrow> bytes \<Rightarrow> btype_error + bytes" where
  "get_bstring m key = bind_res (get_val TString m key) (\<lambda>v. Inr (string_content v))"

definition get_binteger :: "(bytes \<times> btype) list \<Rightarrow> bytes \<Rightarrow> btype_error + int" where
  "get_binteger m key = bind_res (get_val TInteger m key) (\<lambda>v. Inr (integer_value v))"

definition get_blist :: "(bytes \<times> btype) list \<Rightarrow> bytes \<Rightarrow> btype_error + btype list" where
  "get_blist m key = bind_res (get_val TList m key) (\<lambda>v. Inr (list_content v))"

definition get_bdict :: "(bytes \<times> btype) list \<Rightarrow> bytes \<Rightarrow> btype_error + (bytes \<times> btype) list" where
  "get_bdict m key = bind_res (get_val TDictionary m key) (\<lambda>v. Inr (dict_content v))"

definition as_bstring :: "btype \<Rightarrow> btype_error + bytes" where
  "as_bstring v = bind_res (as_type TString v) (\<lambda>v. Inr (string_content v))"

definition as_blist :: "btype \<Rightarrow> btype_error + btype list" where
  "as_blist v = bind_res (as_type TList v) (\<lambda>v. Inr (list_content v))"

definition as_bdict :: "btype \<Rightarrow> btype_error + (bytes \<times> btype) list" where
  "as_bdict v = bind_res (as_type TDictionary v) (\<lambda>v. Inr (dict_content v))"

text \<open>A signed integer assigned to a \<^verbatim>\<open>uint64_t\<close>.\<close>

definition to_u64 :: "int \<Rightarrow> nat" where
  "to_u64 v = nat (v mod 2 ^ 64)"

lemma to_u64_less: "to_u64 v < 2 ^ 64"
  by (simp add: to_u64_def)

lemma to_u64_id: "0 \<le> v \<Longrightarrow> v < 2 ^ 64 \<Longrightarrow> to_u64 v = nat v"
  by (simp add: to_u64_def)

subsection \<open>What an accessor returns\<close>

lemma get_field_Inr:
  "get_bstring m key = Inr s \<longleftrightarrow> map_of m key = Some (BString s)"
  "get_binteger m key = Inr i \<longleftrightarrow> map_of m key = Some (BInteger i)"
  "get_blist m key = Inr l \<longleftrightarrow> map_of m key = Some (BList l)"
  "get_bdict m key = Inr d \<longleftrightarrow> map_of m key = Some (BDict d)"
proof -
  have *: "get_val t m key = Inr v \<longleftrightarrow> map_of m key = Some v \<and> type_of v = t" for t v
    by (auto simp: get_val_def split: option.splits)
  have t: "type_of v = TString \<longleftrightarrow> (\<exists>s. v = BString s)" "type_of v = TInteger \<longleftrightarrow> (\<exists>i. v = BInteger i)"
    "type_of v = TList \<longleftrightarrow> (\<exists>l. v = BList l)" "type_of v = TDictionary \<longleftrightarrow> (\<exists>d. v = BDict d)" for v
    by (cases v; simp)+
  show "get_bstring m key = Inr s \<longleftrightarrow> map_of m key = Some (BString s)"
    "get_binteger m key = Inr i \<longleftrightarrow> map_of m key = Some (BInteger i)"
    "get_blist m key = Inr l \<longleftrightarrow> map_of m key = Some (BList l)"
    "get_bdict m key = Inr d \<longleftrightarrow> map_of m key = Some (BDict d)"
    by (auto simp: get_bstring_def get_binteger_def get_blist_def get_bdict_def * t)
qed

lemma as_type_Inr:
  "as_bstring v = Inr s \<longleftrightarrow> v = BString s" "as_blist v = Inr l \<longleftrightarrow> v = BList l" "as_bdict v = Inr d \<longleftrightarrow> v = BDict d"
  by (cases v; auto simp: as_bstring_def as_blist_def as_bdict_def as_type_def)+

end
