(* ===== verification/Torrent_File.thy ===== *)
theory Torrent_File
  imports Bencode_Fields Torrent_Manager
begin

section \<open>Torrent files: from metadata to a manager\<close>

text \<open>
  \<^verbatim>\<open>bencode::Parser::parse\<close>, which reads the outer dictionary of a
  \<^verbatim>\<open>.torrent\<close> file and keeps the raw bytes of its info value, the constructor
  of \<^verbatim>\<open>TorrentFile\<close> (\<^verbatim>\<open>src/torrent_file.cpp\<close>) with one error value per
  throw site, \<^verbatim>\<open>file_layout\<close>, and the constructor of \<^verbatim>\<open>TorrentManager\<close>
  that hands the fields to the disk writer and the piece manager.
  SHA-1 is a parameter.
\<close>

unbundle bit_operations_syntax

datatype torrent_error =
    NotADictionary | NotProperlyTerminated | MetadataError parse_error
  | NoInfoBytes | NoAnnounce | NoInfo | PieceLengthNotPowerOfTwo | PieceLengthTooSmall | FilesNotDictionaries
  | FieldError btype_error | AnnounceError url_error

record tfile =
  tf_length :: nat
  tf_path :: path
  tf_mtime :: bytes
  tf_sha1 :: bytes
  tf_crc32 :: bytes
  tf_md5 :: bytes

record torrent_file =
  to_name :: bytes
  to_is_multifile :: bool
  to_total_size :: nat
  to_piece_size :: nat
  to_files :: "tfile list"
  to_is_private :: bool
  to_info_hash :: info_hash
  to_pieces :: "bytes list"
  to_announce_tracker :: tracker_details
  to_announce_list :: "tracker_details list list"

definition is_power_of_two :: "64 word \<Rightarrow> bool" where
  "is_power_of_two n = (0 < n \<and> n AND (n - 1) = 0)"

subsection \<open>The constructor\<close>

definition load_list_of_bstrings :: "btype list \<Rightarrow> torrent_error + bytes list" where
  "load_list_of_bstrings = map_res (\<lambda>e. wrap FieldError (as_bstring e))"

definition load_tier :: "btype \<Rightarrow> torrent_error + tracker_details list" where
  "load_tier elem =
     bind_res (wrap FieldError (as_blist elem)) (\<lambda>l.
     bind_res (load_list_of_bstrings l) (\<lambda>vec.
     map_res (\<lambda>v. wrap AnnounceError (extract_tracker_information v)) vec))"

definition optional_string :: "(bytes \<times> btype) list \<Rightarrow> string \<Rightarrow> torrent_error + bytes" where
  "optional_string m key =
     (if has_key m (str key) then wrap FieldError (get_bstring m (str key)) else Inr [])"

definition load_file :: "btype \<Rightarrow> torrent_error + tfile" where
  "load_file elem =
     (if type_of elem \<noteq> TDictionary then Inl FilesNotDictionaries
      else let m = dict_content elem in
        bind_res (optional_string m ''crc32'') (\<lambda>crc32.
        bind_res (wrap FieldError (get_binteger m (str ''length''))) (\<lambda>len.
        bind_res (optional_string m ''md5'') (\<lambda>md5.
        bind_res (optional_string m ''mtime'') (\<lambda>mtime.
        bind_res (optional_string m ''sha1'') (\<lambda>sha1.
        bind_res (wrap FieldError (get_blist m (str ''path''))) (\<lambda>path.
        bind_res (load_list_of_bstrings path) (\<lambda>parts.
        Inr \<lparr>tf_length = to_u64 len, tf_path = foldl path_join [] parts,
             tf_mtime = mtime, tf_sha1 = sha1, tf_crc32 = crc32, tf_md5 = md5\<rparr>))))))))"

definition sum_lengths :: "tfile list \<Rightarrow> nat" where
  "sum_lengths fs = foldl (\<lambda>n f. u64 (n + tf_length f)) 0 fs"

definition split_hashes :: "bytes \<Rightarrow> bytes list" where
  "split_hashes s = map (\<lambda>i. take 20 (drop (i * 20) s)) [0..<length s div 20]"

definition torrent_file_new ::
    "(bytes \<Rightarrow> bytes) \<Rightarrow> (bytes \<times> btype) list \<Rightarrow> bytes \<Rightarrow> torrent_error + torrent_file" where
  "torrent_file_new sha1 meta info_bytes =
     (if info_bytes = [] then Inl NoInfoBytes
      else if \<not> has_key meta (str ''announce'') then Inl NoAnnounce
      else
        bind_res (wrap FieldError (get_bstring meta (str ''announce''))) (\<lambda>ann.
        bind_res (wrap AnnounceError (extract_tracker_information ann)) (\<lambda>tracker.
        bind_res (if has_key meta (str ''announce-list'')
                  then bind_res (wrap FieldError (get_blist meta (str ''announce-list''))) (\<lambda>l. map_res load_tier l)
                  else Inr []) (\<lambda>tiers.
        if \<not> has_key meta (str ''info'') then Inl NoInfo
        else
          bind_res (wrap FieldError (get_bdict meta (str ''info''))) (\<lambda>info.
          bind_res (wrap FieldError (get_bstring info (str ''name''))) (\<lambda>name.
          bind_res (wrap FieldError (get_binteger info (str ''piece length''))) (\<lambda>pl.
          let size = to_u64 pl in
          if \<not> is_power_of_two (of_nat size) then Inl PieceLengthNotPowerOfTwo
          else if size < 16 * 1024 then Inl PieceLengthTooSmall
          else
            let multi = has_key info (str ''files'') in
            bind_res (if multi
                      then bind_res (wrap FieldError (get_blist info (str ''files''))) (\<lambda>l. map_res load_file l)
                      else Inr []) (\<lambda>files.
            bind_res (if multi then Inr (sum_lengths files)
                      else bind_res (wrap FieldError (get_binteger info (str ''length''))) (\<lambda>v. Inr (to_u64 v))) (\<lambda>total.
            bind_res (wrap FieldError (get_bstring info (str ''pieces''))) (\<lambda>ps.
            Inr \<lparr>to_name = name, to_is_multifile = multi, to_total_size = total,
                 to_piece_size = size, to_files = files, to_is_private = False, to_info_hash = sha1 info_bytes,
                 to_pieces = split_hashes ps, to_announce_tracker = tracker,
                 to_announce_list = tiers\<rparr>))))))))))"

definition file_layout :: "torrent_file \<Rightarrow> (path \<times> nat) list" where
  "file_layout t =
     (if to_is_multifile t then map (\<lambda>f. (tf_path f, tf_length f)) (to_files t)
      else [(to_name t, to_total_size t)])"

subsection \<open>Reading a torrent file\<close>

text \<open>
  The loop of \<^verbatim>\<open>Parser::parse\<close> over the entries of the outer dictionary. As in
  \<open>parse_value\<close> one unit of fuel per input byte is enough, since every entry
  consumes input.
\<close>

primrec parse_meta_loop ::
    "nat \<Rightarrow> bytes \<Rightarrow> nat \<Rightarrow> (bytes \<times> btype) list \<Rightarrow> bytes \<Rightarrow> parse_error + ((bytes \<times> btype) list \<times> bytes \<times> nat)" where
  "parse_meta_loop 0 d pos meta raw = Inl Out_of_fuel"
| "parse_meta_loop (Suc n) d pos meta raw =
     (case peek d pos of
        Inl e \<Rightarrow> Inl e
      | Inr c \<Rightarrow>
          if c \<noteq> of_char CHR ''e'' then
            (case parse_byte_string d pos of
               Inl e \<Rightarrow> Inl e
             | Inr (key, s) \<Rightarrow>
                 (case parse_bencoding_type (length d + 1) d s of
                    Inl e \<Rightarrow> Inl e
                  | Inr (v, q) \<Rightarrow>
                      parse_meta_loop n d q (map_put key v meta)
                        (if key = str ''info'' then take (q - s) (drop s d) else raw)))
          else Inr (meta, raw, pos))"

definition parse_torrent :: "(bytes \<Rightarrow> bytes) \<Rightarrow> bytes \<Rightarrow> torrent_error + torrent_file" where
  "parse_torrent sha1 d =
     (case get d 0 of
        Inl e \<Rightarrow> Inl (MetadataError e)
      | Inr (c, p) \<Rightarrow>
          if c \<noteq> of_char CHR ''d'' then Inl NotADictionary
          else (case parse_meta_loop (length d + 1) d p [] [] of
                  Inl e \<Rightarrow> Inl (MetadataError e)
                | Inr (meta, raw, q) \<Rightarrow>
                    (case get d q of
                       Inl e \<Rightarrow> Inl (MetadataError e)
                     | Inr (c', _) \<Rightarrow>
                         if c' \<noteq> of_char CHR ''e'' then Inl NotProperlyTerminated
                         else torrent_file_new sha1 meta raw)))"

subsection \<open>The manager of a torrent\<close>

text \<open>The two member initialisers of \<^verbatim>\<open>TorrentManager\<close> that can throw.\<close>

datatype construct_error = WriterError disk_error | ManagerError manager_error

definition construct_manager :: "torrent_file \<Rightarrow> path \<Rightarrow> disk \<Rightarrow> construct_error + piece_manager" where
  "construct_manager t output_dir d =
     bind_res (wrap WriterError (dw_new (to_piece_size t) (to_total_size t) (file_layout t) output_dir)) (\<lambda>dw.
     wrap ManagerError (mg_new (u32 (length (to_pieces t))) (u32 (to_piece_size t)) (to_total_size t) (to_pieces t) dw d))"

subsection \<open>Powers of two\<close>

lemma and_pred_nat: "0 < n \<Longrightarrow> n AND (n - 1) = 0 \<longleftrightarrow> (\<exists>k. n = 2 ^ k)" for n :: nat
proof (induction n rule: less_induct)
  case (less n)
  show ?case
  proof (cases "even n")
    case True
    then obtain m where m: "n = 2 * m" "0 < m" using less.prems by (auto elim: evenE)
    have "n AND (n - 1) = 2 * (m AND (m - 1))"
      using m by (subst and_rec) (cases m; simp)
    moreover have "(\<exists>k. n = 2 ^ k) \<longleftrightarrow> (\<exists>k. m = 2 ^ k)"
    proof
      assume "\<exists>k. n = 2 ^ k"
      then obtain k where k: "n = 2 ^ k" ..
      then have "k \<noteq> 0" using True by (cases k) auto
      then show "\<exists>k. m = 2 ^ k" using k m by (cases k) auto
    next
      assume "\<exists>k. m = 2 ^ k"
      then show "\<exists>k. n = 2 ^ k" using m by (metis power_Suc)
    qed
    ultimately show ?thesis using less.IH [of m] m by simp
  next
    case False
    then obtain m where m: "n = 2 * m + 1" by (auto elim: oddE)
    have "n AND (n - 1) = 2 * m" using m by (subst and_rec) simp
    moreover have "(\<exists>k. n = 2 ^ k) \<longleftrightarrow> m = 0"
    proof
      assume "\<exists>k. n = 2 ^ k"
      then obtain k where k: "n = 2 ^ k" ..
      then have "k = 0" using False by (cases k) auto
      then show "m = 0" using k m by simp
    qed (use m in \<open>auto intro: exI [of _ 0]\<close>)
    ultimately show ?thesis by simp
  qed
qed

lemma is_power_of_two_iff: "is_power_of_two w \<longleftrightarrow> (\<exists>k<64. unat w = 2 ^ k)"
proof (cases "w = 0")
  case True
  then show ?thesis by (simp add: is_power_of_two_def)
next
  case False
  then have pos: "0 < unat w" "0 < w" by (simp_all add: unat_gt_0 word_neq_0_conv)
  have "w AND (w - 1) = 0 \<longleftrightarrow> unat w AND (unat w - 1) = 0"
    using False by (metis unsigned_and_eq unat_minus_one unsigned_0 unsigned_eq_0_iff)
  also have "\<dots> \<longleftrightarrow> (\<exists>k. unat w = 2 ^ k)" using and_pred_nat [OF pos(1)] .
  also have "\<dots> \<longleftrightarrow> (\<exists>k<64. unat w = 2 ^ k)"
    using unsigned_less [where 'a = nat and w = w] power_less_imp_less_exp [of "2 :: nat" _ 64] by auto
  finally show ?thesis using pos by (simp add: is_power_of_two_def)
qed

subsection \<open>The layout and its size\<close>

lemma sum_lengths_eq: "sum_lengths fs = u64 (sum_list (map tf_length fs))"
  unfolding sum_lengths_def foldl_u64 by (simp add: u64_def)

lemma layout_entries_total:
  "off < 2 ^ 64 \<Longrightarrow> snd (layout_entries off layout) = u64 (off + sum_list (map snd layout))"
  by (induction off layout rule: layout_entries.induct) (auto simp: u64_def mod_simps add.assoc split: prod.splits)

lemma layout_entries_Nil: "fst (layout_entries off layout) = [] \<longleftrightarrow> layout = []"
  by (cases layout) (auto split: prod.splits)

text \<open>What the constructor has checked of a torrent it accepts.\<close>

lemma torrent_file_new_checks:
  assumes "torrent_file_new sha1 meta raw = Inr t"
  shows "is_power_of_two (of_nat (to_piece_size t))" "16384 \<le> to_piece_size t" "to_piece_size t < 2 ^ 64"
    "to_total_size t = u64 (sum_list (map snd (file_layout t)))"
    "\<forall>h\<in>set (to_pieces t). length h = 20" "to_info_hash t = sha1 raw"
proof -
  obtain ann tracker tiers info name pl files ps total where f:
    "raw \<noteq> []" "get_bdict meta (str ''info'') = Inr info"
    "is_power_of_two (of_nat (to_u64 pl))" "\<not> to_u64 pl < 16 * 1024"
    "(if has_key info (str ''files'') then Inr (sum_lengths files)
      else bind_res (wrap FieldError (get_binteger info (str ''length''))) (\<lambda>v. Inr (to_u64 v))) = Inr total"
    "t = \<lparr>to_name = name, to_is_multifile = has_key info (str ''files''), to_total_size = total,
       to_piece_size = to_u64 pl, to_files = files, to_is_private = False, to_info_hash = sha1 raw,
       to_pieces = split_hashes ps, to_announce_tracker = tracker, to_announce_list = tiers\<rparr>"
    using assms unfolding torrent_file_new_def Let_def
    by (simp only: guard_Inr bind_res_Inr wrap_Inr sum.inject) blast
  show "is_power_of_two (of_nat (to_piece_size t))" "16384 \<le> to_piece_size t" "to_piece_size t < 2 ^ 64"
    "to_info_hash t = sha1 raw"
    using f to_u64_less [of pl] by simp_all
  show "\<forall>h\<in>set (to_pieces t). length h = 20" using f(6) by (auto simp: split_hashes_def)
  show "to_total_size t = u64 (sum_list (map snd (file_layout t)))"
    using f(5) to_u64_less by (auto simp: f(6) file_layout_def sum_lengths_eq comp_def u64_def split: if_splits)
qed

lemma torrent_file_new_info:
  "torrent_file_new sha1 meta raw = Inr t \<Longrightarrow> raw \<noteq> [] \<and> (\<exists>info. map_of meta (str ''info'') = Some (BDict info))"
  unfolding torrent_file_new_def Let_def by (simp only: guard_Inr bind_res_Inr wrap_Inr get_field_Inr) blast

subsection \<open>The outer dictionary\<close>

text \<open>What the raw bytes are: nothing before an info entry was read, else exactly the input a value was parsed from.\<close>

definition info_at :: "bytes \<Rightarrow> (bytes \<times> btype) list \<Rightarrow> bytes \<Rightarrow> bool" where
  "info_at d meta raw =
     (if map_of meta (str ''info'') = None then raw = []
      else \<exists>s q v. map_of meta (str ''info'') = Some v \<and> parse_bencoding_type (length d + 1) d s = Inr (v, q) \<and>
             s < q \<and> q \<le> length d \<and> raw = take (q - s) (drop s d))"

lemma parse_meta_loop_info:
  "parse_meta_loop n d pos meta raw = Inr (meta', raw', q) \<Longrightarrow> info_at d meta raw \<Longrightarrow> info_at d meta' raw'"
proof (induction n arbitrary: pos meta raw)
  case (Suc n)
  from Suc.prems(1) obtain c where c: "peek d pos = Inr c" by (auto split: sum.splits)
  show ?case
  proof (cases "c = 101")
    case True
    then show ?thesis using Suc.prems c by simp
  next
    case False
    then obtain key s v e where e: "parse_byte_string d pos = Inr (key, s)"
      "parse_bencoding_type (length d + 1) d s = Inr (v, e)"
      "parse_meta_loop n d e (map_put key v meta) (if key = str ''info'' then take (e - s) (drop s d) else raw) = Inr (meta', raw', q)"
      using Suc.prems(1) c by (auto simp del: str_Cons split: sum.splits prod.splits)
    have "s < e \<and> e \<le> length d" using advances_parse_bencoding_type [of d "length d + 1"] e(2) by (auto simp: advances_def)
    then have "info_at d (map_put key v meta) (if key = str ''info'' then take (e - s) (drop s d) else raw)"
      using Suc.prems(2) e(2) by (auto simp del: str_Cons parse_bencoding_type.simps simp: info_at_def map_of_map_put)
    then show ?thesis by (rule Suc.IH [OF e(3)])
  qed
qed simp

lemma parse_meta_loop_fuel:
  "pos \<le> length d \<Longrightarrow> length d - pos < n \<Longrightarrow> parse_meta_loop n d pos meta raw \<noteq> Inl Out_of_fuel"
proof (induction n arbitrary: pos meta raw)
  case (Suc n)
  have "parse_meta_loop n d e m r \<noteq> Inl Out_of_fuel"
    if "parse_byte_string d pos = Inr (key, s)" "parse_bencoding_type (length d + 1) d s = Inr (v, e)" for key s v e m r
  proof -
    have "pos < s" "s < e" "e \<le> length d"
      using parse_byte_string_bounds [OF that(1)] advances_parse_bencoding_type [of d "length d + 1"] that(2)
      by (auto simp: advances_def)
    then show ?thesis using Suc.prems by (intro Suc.IH) auto
  qed
  moreover have "parse_bencoding_type (length d + 1) d s \<noteq> Inl Out_of_fuel" for s
    by (rule parse_bencoding_type_fuel) simp
  ultimately show ?case
    by (auto simp del: str_Cons parse_bencoding_type.simps simp: peek_def split: sum.splits prod.splits)
qed simp

lemma parse_meta_loop_encode:
  fixes ents defines "ents \<equiv> \<lambda>kvs. concat (map (\<lambda>kv. bencode_string (fst kv) @ encode (snd kv)) kvs)"
  assumes "\<forall>kv\<in>set kvs. parses (snd kv)" "sorted_keys (meta @ kvs)" "d = pre @ ents kvs @ [101]" "length d < 2 ^ 64"
    "length (ents kvs) < n"
  shows "parse_meta_loop n d (length pre) meta raw = Inr (meta @ kvs,
    (case map_of kvs (str ''info'') of None \<Rightarrow> raw | Some v \<Rightarrow> encode v), length pre + length (ents kvs))"
  using assms(2-)
proof (induction kvs arbitrary: n pre meta raw)
  case Nil
  then obtain n' where "n = Suc n'" by (cases n) auto
  with Nil show ?case by (simp add: peek_def ents_def)
next
  case (Cons kv kvs)
  obtain n' where n: "n = Suc n'" using Cons.prems by (cases n) auto
  obtain k v where kv: "kv = (k, v)" by fastforce
  have d: "d = pre @ bencode_string k @ encode v @ (ents kvs @ [101])"
    using Cons.prems(3) by (simp add: ents_def kv)
  let ?raw = "if k = str ''info'' then encode v else raw"
  have "length (encode v @ (ents kvs @ [101])) < length d + 1" by (simp add: d)
  note entry = dict_entry_encode [OF _ d Cons.prems(4) this]
  have pv: "parses v" using Cons.prems(1) by (simp add: kv)
  have put: "map_put k v meta = meta @ [kv]"
    using Cons.prems(2) by (subst map_put_last) (auto simp: kv sorted_keys_def sorted_wrt_append)
  have fresh: "map_of kvs k = None"
    using Cons.prems(2) by (auto simp: kv sorted_keys_def sorted_wrt_append map_of_eq_None_iff)
  have loop: "parse_meta_loop n' d (length (pre @ bencode_string k @ encode v)) (meta @ [kv]) ?raw =
      Inr ((meta @ [kv]) @ kvs, (case map_of kvs (str ''info'') of None \<Rightarrow> ?raw | Some v \<Rightarrow> encode v),
        length (pre @ bencode_string k @ encode v) + length (ents kvs))"
    using Cons.prems n hd_encode [of v] d by (intro Cons.IH) (auto simp: neq_Nil_conv ents_def kv)
  have cut: "take (length (pre @ bencode_string k @ encode v) - length (pre @ bencode_string k)) (drop (length (pre @ bencode_string k)) d) = encode v"
    by (simp add: d)
  show ?case
    using entry [OF pv] put loop fresh cut n
    by (auto simp del: str_Cons parse_bencoding_type.simps simp: ents_def kv split: option.splits)
qed

lemma parse_torrent_encode:
  assumes "wf_btype (BDict meta)" "length (encode (BDict meta)) < 2 ^ 64"
  shows "parse_torrent sha1 (encode (BDict meta)) =
    torrent_file_new sha1 meta (case map_of meta (str ''info'') of None \<Rightarrow> [] | Some v \<Rightarrow> encode v)"
proof -
  let ?e = "concat (map (\<lambda>kv. bencode_string (fst kv) @ encode (snd kv)) meta)" and ?d = "encode (BDict meta)"
  have d: "?d = [100] @ ?e @ [101]" by (simp add: bencode_dict_def comp_def)
  have "\<forall>kv\<in>set meta. parses (snd kv)" "sorted_keys ([] @ meta)" using assms(1) parses_wf by auto
  note loop = parse_meta_loop_encode [OF this d assms(2), of "length ?d + 1" "[]"]
  have "length ?e < length ?d + 1" unfolding d by simp
  note loop = loop [OF this]
  have "get ?d 0 = Inr (100, 1)" "get ?d (1 + length ?e) = Inr (101, 2 + length ?e)"
    unfolding d by (simp_all add: get_def nth_append)
  then show ?thesis using loop by (simp add: parse_torrent_def del: encode.simps str_Cons parse_meta_loop.simps)
qed

subsection \<open>A sample torrent\<close>

definition sample_info :: btype where
  "sample_info = BDict [(str ''length'', BInteger 5), (str ''name'', BString (str ''a'')),
     (str ''piece length'', BInteger 16384), (str ''pieces'', BString (replicate 20 7))]"

definition sample_meta :: "(bytes \<times> btype) list" where
  "sample_meta = [(str ''announce'', BString (str ''udp://t:80/a'')), (str ''info'', sample_info)]"

definition sample_torrent :: torrent_file where
  "sample_torrent = \<lparr>to_name = str ''a'', to_is_multifile = False, to_total_size = 5, to_piece_size = 16384,
     to_files = [], to_is_private = False, to_info_hash = replicate 20 9, to_pieces = [replicate 20 7],
     to_announce_tracker = \<lparr>td_protocol = UDP, td_hostname = str ''t'', td_port = 80, td_path = str ''/a''\<rparr>,
     to_announce_list = []\<rparr>"

lemma sample_file_new: "raw \<noteq> [] \<Longrightarrow> torrent_file_new (\<lambda>b. replicate 20 9) sample_meta raw = Inr sample_torrent"
proof -
  assume "raw \<noteq> []"
  moreover have "extract_tracker_information (str ''udp://t:80/a'') =
      Inr \<lparr>td_protocol = UDP, td_hostname = str ''t'', td_port = 80, td_path = str ''/a''\<rparr>" by code_simp
  moreover have "is_power_of_two (of_nat 16384)" by code_simp
  ultimately show ?thesis
    by (simp add: torrent_file_new_def sample_meta_def sample_info_def sample_torrent_def has_key_def get_bstring_def
        get_bdict_def get_binteger_def get_val_def to_u64_def split_hashes_def)
qed

lemma sample_wf: "wf_btype (BDict sample_meta)" "length (encode (BDict sample_meta)) < 2 ^ 64"
  by (simp_all add: sample_meta_def sample_info_def bencode_dict_def bencode_string_def bencode_integer_def dec_int_def dec.simps)

lemma sample_parsed: "parse_torrent (\<lambda>b. replicate 20 9) (encode (BDict sample_meta)) = Inr sample_torrent"
proof -
  have "map_of sample_meta (str ''info'') = Some sample_info" by (simp add: sample_meta_def)
  then show ?thesis
    using parse_torrent_encode [OF sample_wf] sample_file_new [of "encode sample_info"] hd_encode [of sample_info] by simp
qed

subsection \<open>From the constructor to a running manager\<close>

lemma construct_manager_ok:
  assumes "16384 \<le> to_piece_size t" "to_total_size t = u64 (sum_list (map snd (file_layout t)))" "0 < to_total_size t"
    "length (to_pieces t) < 2 ^ 32"
  shows "\<exists>dw. dw_new (to_piece_size t) (to_total_size t) (file_layout t) dir = Inr dw \<and>
    construct_manager t dir d = Inr \<lparr>mg_total_length = to_total_size t, mg_downloaded = 0,
      mg_num_pieces = length (to_pieces t), mg_nominal = u32 (to_piece_size t), mg_hashes = to_pieces t,
      mg_have = replicate (length (to_pieces t)) False, mg_claimed = replicate (length (to_pieces t)) False,
      mg_completed = 0, mg_hash_failures = 0, mg_writer = dw, mg_disk = d\<rparr>"
proof -
  obtain fs where fs: "layout_entries 0 (file_layout t) = (fs, to_total_size t)"
    using layout_entries_total [of 0 "file_layout t"] assms(2) by (cases "layout_entries 0 (file_layout t)") simp
  have "file_layout t \<noteq> []" using assms(2,3) by (auto simp: u64_def)
  then have "fs \<noteq> []" using layout_entries_Nil [of 0 "file_layout t"] fs by simp
  then show ?thesis
    using assms(1,3,4) fs by (simp add: construct_manager_def dw_new_def mg_new_def u32_id)
qed

lemma start_manager:
  assumes "preallocate_files (mg_writer m) (mg_disk m) = (None, dw, d)"
  shows "fst (start tracker peer_id now (tm_new h listen_port nbytes m)) = None \<and>
    tm_manager (snd (start tracker peer_id now (tm_new h listen_port nbytes m))) = m\<lparr>mg_writer := dw, mg_disk := d\<rparr>"
  using assms by (simp add: start_def tm_new_def Let_def start_pool_def append_unique_peers_def spawn_manager)

lemma started_inv:
  assumes "disk_ok dw d" "mg_writer m = dw" "mg_disk m = d" "mg_nominal m = dw_piece_size dw"
    "mg_total_length m = dw_total_size dw" "0 < dw_total_size dw" "0 < dw_piece_size dw"
    "mg_num_pieces m = (dw_total_size dw + dw_piece_size dw - 1) div dw_piece_size dw" "mg_num_pieces m < 2 ^ 32"
    "length (mg_hashes m) = mg_num_pieces m" "mg_have m = replicate (mg_num_pieces m) False"
    "length (mg_claimed m) = mg_num_pieces m" "mg_completed m = 0"
  shows "mg_inv sha1 {} m"
proof -
  let ?s = "dw_piece_size dw" and ?t = "dw_total_size dw" and ?n = "mg_num_pieces m"
  have div: "?n * ?s \<le> ?t + ?s - 1" "?t + ?s - 1 < ?n * ?s + ?s"
    using div_mult_mod_eq [of "?t + ?s - 1" ?s] mod_less_divisor [OF assms(7), of "?t + ?s - 1"] unfolding assms(8) by linarith+
  then have "0 < ?n" using assms(6) by (cases ?n) auto
  moreover from this have "(?n - 1) * ?s < ?t" using div(1) assms(6,7) by (cases ?n) auto
  moreover have "?t \<le> ?n * ?s" using div(2) assms(7) by linarith
  ultimately have "geometry m"
    using assms disk_ok_files [OF assms(1)] by (simp add: geometry_def)
  moreover have "held m = {}" using assms(11) by (auto simp: held_def)
  ultimately show ?thesis using assms(13) by (simp add: mg_inv_def)
qed

subsection \<open>Properties\<close>



text \<open>C38: The info hash survives the file format: a torrent file written by the encoder
  from any well-formed dictionary is read back as that dictionary, with the
  encoding of its info value as the bytes that are hashed.\<close>

theorem info_hash_round_trip:
  assumes "wf_btype (BDict meta)" "length (encode (BDict meta)) < 2 ^ 64" "map_of meta (str ''info'') = Some info"
  shows "parse_torrent sha1 (encode (BDict meta)) = torrent_file_new sha1 meta (encode info) \<and>
    (\<forall>t. parse_torrent sha1 (encode (BDict meta)) = Inr t \<longrightarrow> to_info_hash t = sha1 (encode info))"
  using parse_torrent_encode [OF assms(1,2), of sha1] assms(3) torrent_file_new_checks(6) by simp

text \<open>C10: A sound torrent starts: when the announced piece count fits the total size, the
  piece length fits 32 bits, the paths are distinct and the disk accepts them,
  the constructors succeed, start preallocates the files without an error, and
  the piece manager it leaves satisfies the invariant the peer threads rely on.\<close>

theorem torrent_starts:
  assumes "parse_torrent sha1 b = Inr t" "to_piece_size t < 2 ^ 32" "0 < to_total_size t"
    "sum_list (map snd (file_layout t)) + to_piece_size t < 2 ^ 64"
    "length (to_pieces t) = (to_total_size t + to_piece_size t - 1) div to_piece_size t" "length (to_pieces t) < 2 ^ 32"
    "distinct (map (\<lambda>e. path_join dir (fst e)) (file_layout t))"
    "\<forall>(p, n)\<in>set (file_layout t). n \<le> 2 ^ 63 \<and> dk_openable d (path_join dir p) \<and> dk_writable d (path_join dir p)"
  shows "\<exists>m r. construct_manager t dir d = Inr m \<and>
    start tracker peer_id now (tm_new (to_info_hash t) listen_port (to_total_size t) m) = (None, r) \<and>
    mg_inv sha1 {} (tm_manager r) \<and> mg_num_pieces (tm_manager r) = length (to_pieces t)"
proof -
  obtain meta raw where "torrent_file_new sha1 meta raw = Inr t"
    using assms(1) by (auto simp del: str_Cons parse_meta_loop.simps simp: parse_torrent_def split: sum.splits prod.splits if_splits)
  note c = torrent_file_new_checks [OF this]
  obtain dw where dw: "dw_new (to_piece_size t) (to_total_size t) (file_layout t) dir = Inr dw"
    and m: "construct_manager t dir d = Inr \<lparr>mg_total_length = to_total_size t, mg_downloaded = 0,
      mg_num_pieces = length (to_pieces t), mg_nominal = u32 (to_piece_size t), mg_hashes = to_pieces t,
      mg_have = replicate (length (to_pieces t)) False, mg_claimed = replicate (length (to_pieces t)) False,
      mg_completed = 0, mg_hash_failures = 0, mg_writer = dw, mg_disk = d\<rparr>" (is "_ = Inr ?m")
    using construct_manager_ok [OF c(2,4) assms(3,6)] by blast
  note ok = dw_new_ok [OF dw assms(2,4,7,8)]
  from disk_ok_preallocated [OF ok(1,2)] obtain d' where d': "preallocate_files dw d = (None, dw\<lparr>dw_preallocated := True\<rparr>, d')"
    "disk_ok (dw\<lparr>dw_preallocated := True\<rparr>) d'" by blast
  let ?r = "start tracker peer_id now (tm_new (to_info_hash t) listen_port (to_total_size t) ?m)"
  have r: "fst ?r = None" "tm_manager (snd ?r) = ?m\<lparr>mg_writer := dw\<lparr>dw_preallocated := True\<rparr>, mg_disk := d'\<rparr>"
    using start_manager [of ?m "dw\<lparr>dw_preallocated := True\<rparr>" d'] d'(1) by simp_all
  have "mg_inv sha1 {} (tm_manager (snd ?r))"
    unfolding r(2) using started_inv [OF d'(2)] ok(3-5) assms(2,5,6) c(2) by (simp add: u32_id)
  moreover have "?r = (None, snd ?r)" by (rule prod_eqI) (simp_all add: r(1))
  ultimately show ?thesis using m r(2) by (intro exI [of _ ?m] exI [of _ "snd ?r"]) simp
qed

theorem torrent_starts_witness:
  "\<exists>m r. construct_manager sample_torrent (str ''out'') (sample_disk\<lparr>dk_openable := \<lambda>_. True, dk_writable := \<lambda>_. True\<rparr>) = Inr m \<and>
    start (\<lambda>_. None) [] 0 (tm_new (replicate 20 9) 6881 5 m) = (None, r) \<and> mg_inv (\<lambda>b. replicate 20 9) {} (tm_manager r)"
  using torrent_starts [OF sample_parsed, of "str ''out''" "sample_disk\<lparr>dk_openable := \<lambda>_. True, dk_writable := \<lambda>_. True\<rparr>" "\<lambda>_. None" "[]" 0 6881]
  by (force simp: sample_torrent_def file_layout_def)

theorem info_hash_round_trip_witness:
  "parse_torrent (\<lambda>b. replicate 20 9) (encode (BDict sample_meta)) = Inr sample_torrent \<and> to_info_hash sample_torrent = replicate 20 9"
  using info_hash_round_trip [OF sample_wf, of sample_info "\<lambda>b. replicate 20 9"] sample_parsed
  by (simp add: sample_meta_def del: encode.simps)

text \<open>
  The number of piece hashes is not compared with the total size: a torrent of
  five bytes with two hashes is accepted, and its second piece lies outside the
  layout, so the download can never be complete.
\<close>

lemma piece_count_unchecked:
  defines "t \<equiv> sample_torrent\<lparr>to_pieces := [replicate 20 7, replicate 20 8]\<rparr>"
  shows "\<exists>m. construct_manager t dir d = Inr m \<and> mg_num_pieces m = 2 \<and> dw_piece_length (mg_writer m) 1 = Inl PieceOutOfRange"
proof -
  have "\<exists>dw. dw_new (to_piece_size t) (to_total_size t) (file_layout t) dir = Inr dw \<and>
    construct_manager t dir d = Inr \<lparr>mg_total_length = to_total_size t, mg_downloaded = 0,
      mg_num_pieces = length (to_pieces t), mg_nominal = u32 (to_piece_size t), mg_hashes = to_pieces t,
      mg_have = replicate (length (to_pieces t)) False, mg_claimed = replicate (length (to_pieces t)) False,
      mg_completed = 0, mg_hash_failures = 0, mg_writer = dw, mg_disk = d\<rparr>"
    by (rule construct_manager_ok) (simp_all add: t_def sample_torrent_def file_layout_def u64_def)
  then show ?thesis
    by (auto simp: t_def sample_torrent_def dw_new_def dw_piece_length_def piece_global_offset_def u64_def Let_def
        split: if_splits prod.splits)
qed

text \<open>A piece length of four gigabytes passes the checks and reaches the piece manager as 0.\<close>

lemma piece_length_truncated:
  assumes "to_piece_size t = 2 ^ 32" "construct_manager t dir d = Inr m"
  shows "mg_nominal m = 0"
  using assms by (auto simp: construct_manager_def mg_new_def u32_def split: if_splits)

end
