(* ===== verification/Http_Tracker.thy ===== *)
theory Http_Tracker
  imports Bencode_Fields Tracker
begin

section \<open>HTTP trackers\<close>

text \<open>
  \<^verbatim>\<open>HTTPTrackerCommunicator\<close> (\<^verbatim>\<open>src/trackers/http_tracker_communicator.cpp\<close>):
  the announce and scrape requests, the split of the HTTP response into status
  and body, the loop over the addresses of the tracker and the readers of the
  two bencoded responses. Name resolution and the exchange of bytes over TCP or
  TLS are the fields of an argument: an exchange that throws is \<open>None\<close>.
\<close>

datatype http_error =
    NoHeaderEnd | MalformedStatusLine | BadStatusCode
  | DnsLookupFailed | AddressesExhausted
  | BodyError parse_error | BodyField btype_error
  | TrackerFailed bytes | UnexpectedPeersType

record http_net =
  hn_dns :: "bytes \<Rightarrow> bytes \<Rightarrow> bytes list"
  hn_exchange :: "bool \<Rightarrow> bytes \<Rightarrow> bytes \<Rightarrow> bytes \<Rightarrow> bytes option"

record scrape_stats =
  sc_complete :: nat
  sc_incomplete :: nat
  sc_downloaded :: "nat option"

datatype communicator = UdpCommunicator | HttpCommunicator

fun create_communicator :: "tracker_protocol \<Rightarrow> communicator" where
  "create_communicator UDP = UdpCommunicator"
| "create_communicator HTTP = HttpCommunicator"
| "create_communicator HTTPS = HttpCommunicator"

subsection \<open>Requests\<close>

definition event_to_string :: "32 word \<Rightarrow> bytes" where
  "event_to_string event =
     (if event = 1 then str ''completed'' else if event = 2 then str ''started''
      else if event = 3 then str ''stopped'' else [])"

definition build_query_string :: "tracker_request \<Rightarrow> bytes" where
  "build_query_string r =
     (let ev = event_to_string (event_code (an_event r))
      in str ''info_hash='' @ url_encode (an_info_hash r) @
         str ''&peer_id='' @ url_encode (an_peer_id r) @
         str ''&port='' @ dec (unat (an_port r)) @
         str ''&uploaded='' @ dec (an_uploaded r) @
         str ''&downloaded='' @ dec (an_downloaded r) @
         str ''&left='' @ dec (an_left r) @
         str ''&compact=1'' @
         (if ev \<noteq> [] then str ''&event='' @ ev else []))"

definition build_host_header :: "tracker_details \<Rightarrow> bytes" where
  "build_host_header t =
     (if td_protocol t = HTTP \<and> td_port t = 80 \<or> td_protocol t = HTTPS \<and> td_port t = 443
      then td_hostname t
      else td_hostname t @ str '':'' @ dec (unat (td_port t)))"

definition build_http_request :: "tracker_details \<Rightarrow> bytes \<Rightarrow> bytes" where
  "build_http_request t query =
     str ''GET '' @ td_path t @ str ''?'' @ query @ str '' HTTP/1.1'' @ crlf @
     str ''Host: '' @ build_host_header t @ crlf @
     str ''Connection: close'' @ crlf @
     str ''Accept-Encoding: identity'' @ crlf @ crlf"

subsection \<open>Responses\<close>

record http_response =
  hr_status :: int
  hr_body :: bytes

definition parse_http_response :: "bytes \<Rightarrow> http_error + http_response" where
  "parse_http_response raw =
     (case find_from raw (crlf @ crlf) 0 of
        None \<Rightarrow> Inl NoHeaderEnd
      | Some header_end \<Rightarrow>
          let status_line = (case find_from raw crlf 0 of Some k \<Rightarrow> take k raw | None \<Rightarrow> raw)
          in case find_from status_line (str '' '') 0 of
               None \<Rightarrow> Inl MalformedStatusLine
             | Some space1 \<Rightarrow>
                 let space2 = (case find_from status_line (str '' '') (space1 + 1) of
                                 Some k \<Rightarrow> k | None \<Rightarrow> length status_line)
                 in case stoi (take (space2 - space1 - 1) (drop (space1 + 1) status_line)) of
                      None \<Rightarrow> Inl BadStatusCode
                    | Some code \<Rightarrow> Inr \<lparr>hr_status = code, hr_body = drop (header_end + 4) raw\<rparr>)"

definition parse_peer_entry :: "btype \<Rightarrow> http_error + peer_address" where
  "parse_peer_entry entry =
     bind_res (wrap BodyField (as_bdict entry)) (\<lambda>pd.
     bind_res (wrap BodyField (get_bstring pd (str ''ip''))) (\<lambda>a.
     bind_res (wrap BodyField (get_binteger pd (str ''port''))) (\<lambda>p.
     Inr (PeerAddress a (of_int p)))))"

definition parse_tracker_response :: "bytes \<Rightarrow> http_error + peer_address list" where
  "parse_tracker_response body =
     bind_res (wrap BodyError (parse_value body)) (\<lambda>(root, _).
     bind_res (wrap BodyField (as_bdict root)) (\<lambda>dict.
     if has_key dict (str ''failure reason'')
     then bind_res (wrap BodyField (get_bstring dict (str ''failure reason''))) (\<lambda>reason. Inl (TrackerFailed reason))
     else
       bind_res (if has_key dict (str ''interval'') then wrap BodyField (get_binteger dict (str ''interval'')) else Inr 0) (\<lambda>_.
       if \<not> has_key dict (str ''peers'') then Inr []
       else
         bind_res (wrap BodyField (subscript dict (str ''peers''))) (\<lambda>peers_val.
         case type_of peers_val of
           TString \<Rightarrow> bind_res (wrap BodyField (as_bstring peers_val)) (\<lambda>compact. Inr (parse_compact_peers compact))
         | TList \<Rightarrow> bind_res (wrap BodyField (as_blist peers_val)) (map_res parse_peer_entry)
         | _ \<Rightarrow> Inl UnexpectedPeersType))))"

subsection \<open>The exchange\<close>

fun try_hosts :: "(bytes \<Rightarrow> bytes option) \<Rightarrow> bytes list \<Rightarrow> bytes option" where
  "try_hosts exch [] = None"
| "try_hosts exch (addr # addrs) =
     (case exch addr of
        None \<Rightarrow> try_hosts exch addrs
      | Some raw \<Rightarrow>
          if raw = [] then try_hosts exch addrs
          else case parse_http_response raw of
                 Inl e \<Rightarrow> try_hosts exch addrs
               | Inr r \<Rightarrow> if hr_status r \<noteq> 200 then try_hosts exch addrs else Some (hr_body r))"

definition send_http_tracker_get :: "http_net \<Rightarrow> tracker_details \<Rightarrow> bytes \<Rightarrow> http_error + bytes" where
  "send_http_tracker_get net t query =
     (let request = build_http_request t query;
          addresses = hn_dns net (td_hostname t) (dec (unat (td_port t)))
      in if addresses = [] then Inl DnsLookupFailed
         else case try_hosts (\<lambda>a. hn_exchange net (td_protocol t = HTTPS) (td_hostname t) a request) addresses of
                None \<Rightarrow> Inl AddressesExhausted
              | Some body \<Rightarrow> Inr body)"

definition http_announce :: "http_net \<Rightarrow> tracker_details \<Rightarrow> tracker_request \<Rightarrow> http_error + peer_address list" where
  "http_announce net t r = bind_res (send_http_tracker_get net t (build_query_string r)) parse_tracker_response"

subsection \<open>Scrape\<close>

definition build_scrape_query_string :: "info_hash \<Rightarrow> bytes" where
  "build_scrape_query_string h = str ''info_hash='' @ url_encode h"

definition announce_path_to_scrape_path :: "bytes \<Rightarrow> bytes" where
  "announce_path_to_scrape_path path =
     (let n = length (str ''/announce'')
      in if n \<le> length path \<and> drop (length path - n) path = str ''/announce''
         then take (length path - n) path @ str ''/scrape''
         else case find_from path (str ''/announce'') 0 of
                Some pos \<Rightarrow> take pos path @ str ''/scrape'' @ drop (pos + n) path
              | None \<Rightarrow> if path = str ''announce'' then str ''scrape'' else str ''/scrape'')"

definition scrape_tracker_from_announce :: "tracker_details \<Rightarrow> tracker_details" where
  "scrape_tracker_from_announce t = t\<lparr>td_path := announce_path_to_scrape_path (td_path t)\<rparr>"

definition counter :: "(bytes \<times> btype) list \<Rightarrow> string \<Rightarrow> nat \<Rightarrow> http_error + nat" where
  "counter m key z =
     (if has_key m (str key) then bind_res (wrap BodyField (get_binteger m (str key))) (\<lambda>v. Inr (to_u64 v))
      else Inr z)"

definition parse_http_scrape_response :: "bytes \<Rightarrow> info_hash \<Rightarrow> http_error + scrape_stats" where
  "parse_http_scrape_response body h =
     (let none = \<lparr>sc_complete = 0, sc_incomplete = 0, sc_downloaded = None\<rparr> in
      bind_res (wrap BodyError (parse_value body)) (\<lambda>(root, _).
      bind_res (wrap BodyField (as_bdict root)) (\<lambda>dict.
      if has_key dict (str ''failure reason'')
      then bind_res (wrap BodyField (get_bstring dict (str ''failure reason''))) (\<lambda>reason. Inl (TrackerFailed reason))
      else if \<not> has_key dict (str ''files'') then Inr none
      else
        bind_res (wrap BodyField (subscript dict (str ''files''))) (\<lambda>fv.
        bind_res (wrap BodyField (as_bdict fv)) (\<lambda>files.
        if \<not> has_key files (to_raw h) then Inr none
        else
          bind_res (wrap BodyField (subscript files (to_raw h))) (\<lambda>sv.
          bind_res (wrap BodyField (as_bdict sv)) (\<lambda>stats.
          bind_res (counter stats ''complete'' 0) (\<lambda>complete.
          bind_res (counter stats ''incomplete'' 0) (\<lambda>incomplete.
          bind_res (if has_key stats (str ''downloaded'')
                    then bind_res (wrap BodyField (get_binteger stats (str ''downloaded''))) (\<lambda>v. Inr (Some (to_u64 v)))
                    else if has_key stats (str ''download'')
                    then bind_res (wrap BodyField (get_binteger stats (str ''download''))) (\<lambda>v. Inr (Some (to_u64 v)))
                    else Inr None) (\<lambda>downloaded.
          Inr \<lparr>sc_complete = complete, sc_incomplete = incomplete, sc_downloaded = downloaded\<rparr>))))))))))"

definition http_scrape :: "http_net \<Rightarrow> tracker_details \<Rightarrow> info_hash \<Rightarrow> http_error + scrape_stats" where
  "http_scrape net t h =
     bind_res (send_http_tracker_get net (scrape_tracker_from_announce t) (build_scrape_query_string h))
       (\<lambda>body. parse_http_scrape_response body h)"

subsection \<open>Queries as a tracker reads them\<close>

text \<open>A query is split at the ampersands, each field at its first equals sign, and the value decoded.\<close>

fun split_on :: "byte \<Rightarrow> bytes \<Rightarrow> bytes list" where
  "split_on c [] = [[]]"
| "split_on c (x # xs) =
     (if x = c then [] # split_on c xs
      else case split_on c xs of [] \<Rightarrow> [[x]] | y # ys \<Rightarrow> (x # y) # ys)"

definition query_fields :: "bytes \<Rightarrow> (bytes \<times> bytes) list" where
  "query_fields q = map (\<lambda>f. (takeWhile (\<lambda>b. b \<noteq> 61) f, url_decode (tl (dropWhile (\<lambda>b. b \<noteq> 61) f)))) (split_on 38 q)"

lemma split_on_cut: "c \<notin> set a \<Longrightarrow> split_on c (a @ c # b) = a # split_on c b"
  by (induction a) auto

lemma split_on_last: "c \<notin> set a \<Longrightarrow> split_on c a = [a]"
  by (induction a) auto

lemma url_encode_plain:
  assumes "b \<in> set (url_encode h)"
  shows "b \<noteq> 38 \<and> b \<noteq> 61"
proof -
  have x: "hex_digit_upper d \<noteq> 38 \<and> hex_digit_upper d \<noteq> 61" if "d < 16" for d
    using unat_hex_digit_upper [OF that] by (auto split: if_splits)
  have un: "url_unreserved c \<Longrightarrow> c \<noteq> 38 \<and> c \<noteq> 61" for c
    by (auto simp: url_unreserved_def is_alnum_def is_digit_def)
  obtain c where c: "b \<in> set (if url_unreserved c then [c]
      else [of_char CHR ''%'', hex_digit_upper (unat c div 16), hex_digit_upper (unat c mod 16)])"
    using assms unfolding url_encode_def set_concat set_map by (metis (no_types, lifting) UN_E imageE)
  have "unat c div 16 < 16" "unat c mod 16 < 16" using unat_byte_less [of c] by linarith+
  then show ?thesis using c x un by (cases "url_unreserved c") auto
qed

lemma url_decode_id: "37 \<notin> set s \<Longrightarrow> url_decode s = s"
  by (induction s) (auto simp: url_decode_plain)

lemma dec_plain: "b \<in> set (dec n) \<Longrightarrow> b \<noteq> 37 \<and> b \<noteq> 38 \<and> b \<noteq> 61"
  using dec_digits [of b n] by (auto simp: is_digit_def)

lemma event_to_string_plain: "b \<in> set (event_to_string e) \<Longrightarrow> b \<noteq> 37 \<and> b \<noteq> 38 \<and> b \<noteq> 61"
  by (auto simp: event_to_string_def split: if_splits)

subsection \<open>Splitting a response\<close>

lemma find_from_skip:
  assumes "\<forall>k. i \<le> k \<and> k < j \<longrightarrow> take (length pat) (drop k s) \<noteq> pat" "i \<le> j"
  shows "find_from s pat i = find_from s pat j"
proof (cases "find_from s pat j")
  case None
  then have "find_from s pat i = None" using assms(1) unfolding find_from_None by (meson not_le)
  then show ?thesis using None by simp
next
  case (Some m)
  note m = find_from_Some [OF Some]
  have "find_from s pat i \<noteq> None"
    using m assms(2) unfolding find_from_None by (meson le_trans)
  then obtain n where n: "find_from s pat i = Some n" by auto
  note nn = find_from_Some [OF n]
  have "n = m"
  proof (rule ccontr)
    assume "n \<noteq> m"
    then consider "n < j" | "j \<le> n" "n < m" | "m < n" by linarith
    then show False using assms m nn by cases (meson order_trans)+
  qed
  then show ?thesis using n Some by simp
qed

lemma occurs_nth:
  assumes "take (length p) (drop k s) = p" "j < length p"
  shows "k + j < length s \<and> s ! (k + j) = p ! j"
proof -
  have "length (take (length p) (drop k s)) = length p" using assms(1) by simp
  then have k: "k + j < length s" using assms(2) by simp
  have "p ! j = take (length p) (drop k s) ! j" by (simp only: assms(1))
  also have "\<dots> = s ! (k + j)" using k assms(2) by simp
  finally show ?thesis using k by simp
qed

text \<open>A line that is not empty does not end the header.\<close>

lemma header_line:
  assumes "13 \<notin> set l" "l \<noteq> []" "rest = [] \<or> hd rest \<noteq> 13"
  shows "find_from (pre @ l @ crlf @ rest) (crlf @ crlf) (length pre) =
    find_from (pre @ l @ crlf @ rest) (crlf @ crlf) (length pre + length l + 2)"
proof (rule find_from_skip)
  let ?s = "pre @ l @ crlf @ rest"
  show "\<forall>k. length pre \<le> k \<and> k < length pre + length l + 2 \<longrightarrow> take (length (crlf @ crlf)) (drop k ?s) \<noteq> crlf @ crlf"
  proof (intro allI impI notI)
    fix k assume k: "length pre \<le> k \<and> k < length pre + length l + 2"
      and eq: "take (length (crlf @ crlf)) (drop k ?s) = crlf @ crlf"
    have at: "?s ! k = 13" "?s ! (k + 2) = 13" "k + 2 < length ?s"
      using occurs_nth [OF eq, of 0] occurs_nth [OF eq, of 2] by (simp_all add: crlf_def)
    consider "k < length pre + length l" | "k = length pre + length l" | "k = length pre + length l + 1"
      using k by linarith
    then show False
    proof cases
      case 1
      then have lt: "k - length pre < length l" using k by linarith
      then have "?s ! k = l ! (k - length pre)" using k by (simp add: nth_append)
      moreover note lt
      ultimately show False using at(1) assms(1) by (metis nth_mem)
    next
      case 2
      then show False using at(2,3) assms(3) by (cases rest) (auto simp: crlf_def nth_append)
    next
      case 3
      then show False using at(1) by (simp add: crlf_def nth_append)
    qed
  qed
qed simp

fun header_text :: "bytes list \<Rightarrow> bytes" where
  "header_text [] = []"
| "header_text (l # ls) = l @ crlf @ header_text ls"

lemma find_header_end:
  assumes "\<forall>l\<in>set ls. l \<noteq> [] \<and> 13 \<notin> set l" "ls \<noteq> []"
  shows "find_from (pre @ header_text ls @ crlf @ body) (crlf @ crlf) (length pre) =
    Some (length pre + length (header_text ls) - 2)"
  using assms
proof (induction ls arbitrary: pre)
  case (Cons l ls)
  let ?s = "pre @ header_text (l # ls) @ crlf @ body"
  show ?case
  proof (cases ls)
    case Nil
    have "find_from (pre @ l @ (crlf @ crlf) @ body) (crlf @ crlf) (length pre) = Some (length pre + length l)"
      using Cons.prems by (intro find_from_at) (auto simp: crlf_def)
    then show ?thesis using Nil by (simp add: crlf_def)
  next
    case (Cons l' ls')
    have l': "l' \<noteq> [] \<and> 13 \<notin> set l'" using Cons.prems Cons by auto
    have s: "?s = pre @ l @ crlf @ (header_text ls @ crlf @ body)" by simp
    have hd: "hd (header_text ls @ crlf @ body) \<noteq> 13" using l' Cons by (cases l') auto
    have "find_from ?s (crlf @ crlf) (length pre) = find_from ?s (crlf @ crlf) (length pre + length l + 2)"
      unfolding s using Cons.prems hd by (intro header_line) auto
    also have "\<dots> = find_from ((pre @ l @ crlf) @ header_text ls @ crlf @ body) (crlf @ crlf) (length (pre @ l @ crlf))"
      by (simp add: crlf_def)
    also have "\<dots> = Some (length (pre @ l @ crlf) + length (header_text ls) - 2)"
      using Cons.prems Cons by (intro Cons.IH) auto
    finally show ?thesis by (simp add: crlf_def)
  qed
qed simp

lemma parse_http_ok:
  assumes "\<forall>l\<in>set ls. l \<noteq> [] \<and> 13 \<notin> set l"
  shows "parse_http_response (header_text (str ''HTTP/1.1 200 OK'' # ls) @ crlf @ body) = Inr \<lparr>hr_status = 200, hr_body = body\<rparr>"
proof -
  let ?h = "header_text (str ''HTTP/1.1 200 OK'' # ls)" and ?sl = "str ''HTTP/1.1 200 OK''"
  let ?raw = "?h @ crlf @ body"
  have 1: "find_from ?raw (crlf @ crlf) 0 = Some (length ?h - 2)"
    using find_header_end [of "?sl # ls" "[]" body] assms by simp
  have "find_from ([] @ ?sl @ crlf @ (header_text ls @ crlf @ body)) crlf (length ([] :: bytes)) = Some (length ([] :: bytes) + length ?sl)"
    by (rule find_from_at) (simp_all add: crlf_def)
  then have 2: "find_from ?raw crlf 0 = Some 15" by simp
  have 3: "take 15 ?raw = ?sl" by simp
  have 4: "find_from ?sl (str '' '') 0 = Some 8" "find_from ?sl (str '' '') 9 = Some 12"
    by (simp_all add: find_from.simps)
  have 5: "stoi (take 3 (drop 9 ?sl)) = Some 200" by code_simp
  have len: "length ?h - 2 + 4 = length (?h @ crlf)" by (simp add: crlf_def)
  have 6: "drop (length ?h - 2 + 4) ?raw = body" unfolding len by simp
  show ?thesis
    unfolding parse_http_response_def 1 2 option.case Let_def 3 4 6
    using 4 5 by (simp del: str_Cons)
qed

lemma try_hosts_first:
  assumes "\<forall>b\<in>set pre. exch b = None \<or> exch b = Some []" "exch a = Some raw" "raw \<noteq> []"
    "parse_http_response raw = Inr r" "hr_status r = 200"
  shows "try_hosts exch (pre @ a # post) = Some (hr_body r)"
  using assms by (induction pre) auto

lemma try_hosts_source:
  "try_hosts exch addrs = Some body \<Longrightarrow>
   \<exists>a\<in>set addrs. \<exists>raw r. exch a = Some raw \<and> parse_http_response raw = Inr r \<and> hr_status r = 200 \<and> hr_body r = body"
proof (induction addrs)
  case (Cons a addrs)
  then show ?case by (auto split: option.splits sum.splits if_splits)
qed simp

subsection \<open>Properties\<close>



text \<open>Peers come only from a tracker that answered: whatever the addresses send, an
  announce that returns peers got a response with status 200 from one of them,
  whose body is a bencoded dictionary without a failure reason, and the peers
  are none, the entries of its compact string, or its list of dictionaries.\<close>

lemma http_announce_sound:
  assumes "http_announce net t r = Inr peers"
  shows "\<exists>a\<in>set (hn_dns net (td_hostname t) (dec (unat (td_port t)))). \<exists>raw resp dict p.
    hn_exchange net (td_protocol t = HTTPS) (td_hostname t) a (build_http_request t (build_query_string r)) = Some raw \<and>
    parse_http_response raw = Inr resp \<and> hr_status resp = 200 \<and> parse_value (hr_body resp) = Inr (BDict dict, p) \<and>
    \<not> has_key dict (str ''failure reason'') \<and>
    (case map_of dict (str ''peers'') of
       None \<Rightarrow> peers = []
     | Some (BString s) \<Rightarrow> peers = parse_compact_peers s
     | Some (BList l) \<Rightarrow> list_all2 (\<lambda>e pa. parse_peer_entry e = Inr pa) l peers
     | _ \<Rightarrow> False)"
proof -
  let ?exch = "\<lambda>a. hn_exchange net (td_protocol t = HTTPS) (td_hostname t) a (build_http_request t (build_query_string r))"
  let ?as = "hn_dns net (td_hostname t) (dec (unat (td_port t)))"
  obtain body where body: "try_hosts ?exch ?as = Some body" "parse_tracker_response body = Inr peers"
    using assms by (auto simp: http_announce_def send_http_tracker_get_def Let_def split: if_splits option.splits)
  from try_hosts_source [OF body(1)] obtain a raw resp where src: "a \<in> set ?as" "?exch a = Some raw"
    "parse_http_response raw = Inr resp" "hr_status resp = 200" "hr_body resp = body" by blast
  obtain dict p where d: "parse_value body = Inr (BDict dict, p)" "\<not> has_key dict (str ''failure reason'')"
    "if \<not> has_key dict (str ''peers'') then Inr [] = (Inr peers :: http_error + _)
     else bind_res (wrap BodyField (subscript dict (str ''peers''))) (\<lambda>peers_val.
         case type_of peers_val of
           TString \<Rightarrow> bind_res (wrap BodyField (as_bstring peers_val)) (\<lambda>compact. Inr (parse_compact_peers compact))
         | TList \<Rightarrow> bind_res (wrap BodyField (as_blist peers_val)) (map_res parse_peer_entry)
         | _ \<Rightarrow> Inl UnexpectedPeersType) = Inr peers"
    using body(2) unfolding parse_tracker_response_def by (auto simp del: str_Cons simp: as_type_Inr split: if_splits)
  have "case map_of dict (str ''peers'') of
       None \<Rightarrow> peers = []
     | Some (BString s) \<Rightarrow> peers = parse_compact_peers s
     | Some (BList l) \<Rightarrow> list_all2 (\<lambda>e pa. parse_peer_entry e = Inr pa) l peers
     | _ \<Rightarrow> False"
    using d(3)
    by (auto simp del: str_Cons simp: has_key_def subscript_def as_type_Inr map_res_Inr split: if_splits option.splits btype.splits)
  then show ?thesis using src d(1,2) by blast
qed

text \<open>The announce query can be taken apart by any tracker: split at the ampersands
  and percent-decoded, it lists the info hash, the peer identifier, the port
  and the counters of the request, and the event exactly when there is one.\<close>

theorem query_round_trip:
  "query_fields (build_query_string r) =
     [(str ''info_hash'', an_info_hash r), (str ''peer_id'', an_peer_id r), (str ''port'', dec (unat (an_port r))),
      (str ''uploaded'', dec (an_uploaded r)), (str ''downloaded'', dec (an_downloaded r)),
      (str ''left'', dec (an_left r)), (str ''compact'', str ''1'')] @
     (if an_event r = EventNone then [] else [(str ''event'', event_to_string (event_code (an_event r)))])"
proof -
  have d: "37 \<notin> set (dec n)" "38 \<notin> set (dec n)" for n using dec_plain [of _ n] by auto
  have u: "38 \<notin> set (url_encode h)" for h using url_encode_plain by auto
  show ?thesis
    by (cases "an_event r")
      (simp_all add: build_query_string_def event_to_string_def query_fields_def split_on_cut [of 38] split_on_last
        d u url_decode_encode url_decode_id)
qed

text \<open>
  The request target is always the path, a question mark and the query, so an
  announce URL that has a query of its own gets two question marks.
\<close>

lemma path_query_doubled:
  "take 25 (build_http_request \<lparr>td_protocol = HTTP, td_hostname = str ''t'', td_port = 80, td_path = str ''/announce?key=1''\<rparr>
     (str ''info_hash=x'')) = str ''GET /announce?key=1?info_''"
  by (simp add: build_http_request_def)

text \<open>An announce path maps to the scrape path that trackers use for it.\<close>

lemma scrape_path_announce: "announce_path_to_scrape_path (p @ str ''/announce'') = p @ str ''/scrape''"
  by (simp add: announce_path_to_scrape_path_def)

end
