(* ===== verification/Udp_Tracker.thy ===== *)
theory Udp_Tracker
  imports Tracker
begin

section \<open>UDP trackers\<close>

text \<open>
  \<^verbatim>\<open>UDPTrackerCommunicator\<close> (\<^verbatim>\<open>inc/trackers/udp_tracker_communicator.h\<close>,
  \<^verbatim>\<open>src/trackers/udp_tracker_communicator.cpp\<close>): the messages of BEP 15 and the
  two exchanges with their retransmissions. What happens at each attempt is an
  event: the socket fails, nothing arrives before the timeout, or a datagram
  arrives; when the list of events ends nothing arrives any more. The loops
  report how many attempts they made. Random transaction identifiers, the
  addresses a name resolves to and the text of an IPv6 address (\<^verbatim>\<open>inet_ntop\<close>) are
  arguments.
\<close>

datatype udp_error =
    NotAUdpTracker | NoAddress | ConnectionResponseTooShort | AnnounceResponseTooShort
  | TrackerFailure bytes | FailureTextOutOfRange | UnexpectedAction "32 word"
  | ConnectTimedOut | AnnounceTimedOut | SocketFailed | AllAddressesFailed udp_error

datatype udp_event = SocketError | NoReply | Datagram bytes

definition MAX_RETRANSMISSIONS :: nat where "MAX_RETRANSMISSIONS = 8"

definition timeout_ms :: "nat \<Rightarrow> nat" where "timeout_ms n = 15000 * 2 ^ n"

subsection \<open>Messages\<close>

record connection_req =
  cq_protocol_id :: "64 word"
  cq_action :: "32 word"
  cq_transaction_id :: "32 word"

definition new_connection_req :: "32 word \<Rightarrow> connection_req" where
  "new_connection_req tx = \<lparr>cq_protocol_id = 0x41727101980, cq_action = 0, cq_transaction_id = tx\<rparr>"

definition serialize_connection_req :: "connection_req \<Rightarrow> bytes" where
  "serialize_connection_req r =
     write_be32 12 (cq_transaction_id r) (write_be32 8 (cq_action r) (write_be64 0 (cq_protocol_id r) (replicate 16 0)))"

record connection_resp =
  cr_action :: "32 word"
  cr_transaction_id :: "32 word"
  cr_connection_id :: "64 word"

definition deserialize_connection_resp :: "bytes \<Rightarrow> udp_error + connection_resp" where
  "deserialize_connection_resp data =
     (if length data < 16 then Inl ConnectionResponseTooShort
      else Inr \<lparr>cr_action = read_be32 data 0, cr_transaction_id = read_be32 data 4, cr_connection_id = read_be64 data 8\<rparr>)"

record announce_req =
  aq_connection_id :: "64 word"
  aq_action :: "32 word"
  aq_transaction_id :: "32 word"
  aq_info_hash :: info_hash
  aq_peer_id :: bytes
  aq_downloaded :: "64 word"
  aq_left :: "64 word"
  aq_uploaded :: "64 word"
  aq_event :: "32 word"
  aq_ip :: "32 word"
  aq_key :: "32 word"
  aq_num_want :: "32 word"
  aq_port :: "16 word"

definition copy_at :: "nat \<Rightarrow> bytes \<Rightarrow> bytes \<Rightarrow> bytes" where
  "copy_at p xs buf = take p buf @ xs @ drop (p + length xs) buf"

definition serialize_announce_req :: "announce_req \<Rightarrow> bytes" where
  "serialize_announce_req r =
     (let buf = replicate 98 0;
          buf = write_be64 0 (aq_connection_id r) buf;
          buf = write_be32 8 (aq_action r) buf;
          buf = write_be32 12 (aq_transaction_id r) buf;
          buf = copy_at 16 (aq_info_hash r) buf;
          buf = copy_at 36 (aq_peer_id r) buf;
          buf = write_be64 56 (aq_downloaded r) buf;
          buf = write_be64 64 (aq_left r) buf;
          buf = write_be64 72 (aq_uploaded r) buf;
          buf = write_be32 80 (aq_event r) buf;
          buf = write_be32 84 (aq_ip r) buf;
          buf = write_be32 88 (aq_key r) buf;
          buf = write_be32 92 (aq_num_want r) buf
      in write_be16 96 (aq_port r) buf)"

record announce_resp =
  ar_action :: "32 word"
  ar_transaction_id :: "32 word"
  ar_interval :: "32 word"
  ar_leechers :: "32 word"
  ar_seeders :: "32 word"
  ar_peers :: "peer_address list"

definition peer_at :: "(bytes \<Rightarrow> bytes) \<Rightarrow> bool \<Rightarrow> bytes \<Rightarrow> nat \<Rightarrow> peer_address" where
  "peer_at ntop6 is_ipv6 peer_data i =
     (if is_ipv6 then PeerAddress (ntop6 (take 16 (drop i peer_data))) (read_be16 peer_data (i + 16))
      else PeerAddress (dec (unat (peer_data ! i)) @ dot # dec (unat (peer_data ! (i + 1))) @ dot #
              dec (unat (peer_data ! (i + 2))) @ dot # dec (unat (peer_data ! (i + 3)))) (read_be16 peer_data (i + 4)))"

function peers_from :: "(bytes \<Rightarrow> bytes) \<Rightarrow> bool \<Rightarrow> bytes \<Rightarrow> nat \<Rightarrow> peer_address list" where
  "peers_from ntop6 is_ipv6 peer_data i =
     (let stride = (if is_ipv6 then 18 else 6)
      in if i + stride \<le> length peer_data
         then peer_at ntop6 is_ipv6 peer_data i # peers_from ntop6 is_ipv6 peer_data (i + stride)
         else [])"
  by pat_completeness auto
termination
  by (relation "measure (\<lambda>(f, v6, data, i). length data - i)") auto

declare peers_from.simps [simp del]

definition deserialize_announce_resp :: "(bytes \<Rightarrow> bytes) \<Rightarrow> bool \<Rightarrow> bytes \<Rightarrow> udp_error + announce_resp" where
  "deserialize_announce_resp ntop6 is_ipv6 data =
     (if length data < 20 then Inl AnnounceResponseTooShort
      else Inr \<lparr>ar_action = read_be32 data 0, ar_transaction_id = read_be32 data 4, ar_interval = read_be32 data 8,
                ar_leechers = read_be32 data 12, ar_seeders = read_be32 data 16,
                ar_peers = peers_from ntop6 is_ipv6 (drop 20 data) 0\<rparr>)"

subsection \<open>Exchanges\<close>

text \<open>
  The text of an error message starts at byte 8. Building it from a shorter
  datagram is undefined behaviour; the model reports it as an error of its own.
\<close>

definition failure_text :: "bytes \<Rightarrow> udp_error" where
  "failure_text data = (if length data < 8 then FailureTextOutOfRange else TrackerFailure (drop 8 data))"

fun connect_loop :: "nat \<Rightarrow> 32 word \<Rightarrow> udp_event list \<Rightarrow> (udp_error + connection_resp) \<times> nat \<times> udp_event list" where
  "connect_loop 0 tx evs = (Inl ConnectTimedOut, 0, evs)"
| "connect_loop (Suc n) tx evs =
     (let again = (\<lambda>evs. case connect_loop n tx evs of (r, k, rest) \<Rightarrow> (r, Suc k, rest))
      in case evs of
           [] \<Rightarrow> again []
         | SocketError # evs \<Rightarrow> (Inl SocketFailed, 1, evs)
         | NoReply # evs \<Rightarrow> again evs
         | Datagram data # evs \<Rightarrow>
             if length data < 4 then again evs
             else if read_be32 data 0 = 3 then (Inl (failure_text data), 1, evs)
             else if length data < 16 then again evs
             else case deserialize_connection_resp data of
                    Inl e \<Rightarrow> (Inl e, 1, evs)
                  | Inr r \<Rightarrow>
                      if cr_transaction_id r \<noteq> tx then again evs
                      else if cr_action r \<noteq> 0 then (Inl (UnexpectedAction (cr_action r)), 1, evs)
                      else (Inr r, 1, evs))"

fun announce_loop :: "(bytes \<Rightarrow> bytes) \<Rightarrow> bool \<Rightarrow> nat \<Rightarrow> 32 word \<Rightarrow> udp_event list \<Rightarrow>
    (udp_error + peer_address list) \<times> nat \<times> udp_event list" where
  "announce_loop ntop6 v6 0 tx evs = (Inl AnnounceTimedOut, 0, evs)"
| "announce_loop ntop6 v6 (Suc n) tx evs =
     (let again = (\<lambda>evs. case announce_loop ntop6 v6 n tx evs of (r, k, rest) \<Rightarrow> (r, Suc k, rest))
      in case evs of
           [] \<Rightarrow> again []
         | SocketError # evs \<Rightarrow> (Inl SocketFailed, 1, evs)
         | NoReply # evs \<Rightarrow> again evs
         | Datagram data # evs \<Rightarrow>
             if length data < 4 then again evs
             else if read_be32 data 0 = 3 then (Inl (failure_text data), 1, evs)
             else if length data < 20 then again evs
             else case deserialize_announce_resp ntop6 v6 data of
                    Inl e \<Rightarrow> (Inl e, 1, evs)
                  | Inr r \<Rightarrow>
                      if ar_transaction_id r \<noteq> tx then again evs
                      else if ar_action r \<noteq> 1 then (Inl (UnexpectedAction (ar_action r)), 1, evs)
                      else (Inr (ar_peers r), 1, evs))"

text \<open>The random values of one attempt and what its address does.\<close>

record udp_attempt =
  ua_ipv6 :: bool
  ua_connect_tx :: "32 word"
  ua_announce_tx :: "32 word"
  ua_key :: "32 word"
  ua_events :: "udp_event list"

definition build_announce_req :: "udp_attempt \<Rightarrow> 64 word \<Rightarrow> tracker_request \<Rightarrow> announce_req" where
  "build_announce_req a conn_id req =
     \<lparr>aq_connection_id = conn_id, aq_action = 1, aq_transaction_id = ua_announce_tx a,
      aq_info_hash = an_info_hash req, aq_peer_id = an_peer_id req, aq_downloaded = of_nat (an_downloaded req),
      aq_left = of_nat (an_left req), aq_uploaded = of_nat (an_uploaded req), aq_event = event_code (an_event req),
      aq_ip = 0, aq_key = ua_key a, aq_num_want = - 1, aq_port = an_port req\<rparr>"

definition try_announce_to :: "(bytes \<Rightarrow> bytes) \<Rightarrow> tracker_request \<Rightarrow> udp_attempt \<Rightarrow> (udp_error + peer_address list) \<times> bytes list" where
  "try_announce_to ntop6 req a =
     (let conn_msg = serialize_connection_req (new_connection_req (ua_connect_tx a))
      in case connect_loop (MAX_RETRANSMISSIONS + 1) (ua_connect_tx a) (ua_events a) of
           (Inl e, k, evs) \<Rightarrow> (Inl e, replicate k conn_msg)
         | (Inr r, k, evs) \<Rightarrow>
             let ann_msg = serialize_announce_req (build_announce_req a (cr_connection_id r) req)
             in case announce_loop ntop6 (ua_ipv6 a) (MAX_RETRANSMISSIONS + 1) (ua_announce_tx a) evs of
                  (res, k', evs) \<Rightarrow> (res, replicate k conn_msg @ replicate k' ann_msg))"

fun try_addresses :: "(bytes \<Rightarrow> bytes) \<Rightarrow> tracker_request \<Rightarrow> udp_error \<Rightarrow> udp_attempt list \<Rightarrow> udp_error + peer_address list" where
  "try_addresses ntop6 req last_error [] = Inl (AllAddressesFailed last_error)"
| "try_addresses ntop6 req last_error (a # as) =
     (case fst (try_announce_to ntop6 req a) of
        Inr peers \<Rightarrow> Inr peers
      | Inl e \<Rightarrow> try_addresses ntop6 req e as)"

definition udp_announce :: "(bytes \<Rightarrow> bytes) \<Rightarrow> tracker_details \<Rightarrow> tracker_request \<Rightarrow> udp_attempt list \<Rightarrow> udp_error + peer_address list" where
  "udp_announce ntop6 tracker req addresses =
     (if td_protocol tracker \<noteq> UDP then Inl NotAUdpTracker
      else if addresses = [] then Inl NoAddress
      else try_addresses ntop6 req NoAddress addresses)"

subsection \<open>What the requests look like\<close>

lemma write_zeros [wire_simps]:
  "length pre = p \<Longrightarrow> 2 \<le> n \<Longrightarrow> write_be16 p v (pre @ replicate n 0) = (pre @ be16 v) @ replicate (n - 2) 0"
  "length pre = p \<Longrightarrow> 4 \<le> n \<Longrightarrow> write_be32 p w (pre @ replicate n 0) = (pre @ be32 w) @ replicate (n - 4) 0"
  "length pre = p \<Longrightarrow> 8 \<le> n \<Longrightarrow> write_be64 p x (pre @ replicate n 0) = (pre @ be64 x) @ replicate (n - 8) 0"
proof -
  have r: "replicate n (0 :: byte) = replicate k 0 @ replicate (n - k) 0" if "k \<le> n" for k
    using that by (simp add: replicate_add [symmetric])
  show "length pre = p \<Longrightarrow> 2 \<le> n \<Longrightarrow> write_be16 p v (pre @ replicate n 0) = (pre @ be16 v) @ replicate (n - 2) 0"
    by (subst r [of 2]) (auto simp: numeral_eq_Suc write_be16_append)
  show "length pre = p \<Longrightarrow> 4 \<le> n \<Longrightarrow> write_be32 p w (pre @ replicate n 0) = (pre @ be32 w) @ replicate (n - 4) 0"
    by (subst r [of 4]) (auto simp: numeral_eq_Suc write_be32_append)
  show "length pre = p \<Longrightarrow> 8 \<le> n \<Longrightarrow> write_be64 p x (pre @ replicate n 0) = (pre @ be64 x) @ replicate (n - 8) 0"
    by (subst r [of 8]) (auto simp: numeral_eq_Suc write_be64_append)
qed

lemma copy_zeros: "length pre = p \<Longrightarrow> length xs \<le> n \<Longrightarrow> copy_at p xs (pre @ replicate n 0) = (pre @ xs) @ replicate (n - length xs) 0"
  by (simp add: copy_at_def)

lemma serialize_connection_req_eq:
  "serialize_connection_req r = be64 (cq_protocol_id r) @ be32 (cq_action r) @ be32 (cq_transaction_id r)"
proof -
  have "serialize_connection_req r =
    write_be32 12 (cq_transaction_id r) (write_be32 8 (cq_action r) (write_be64 0 (cq_protocol_id r) ([] @ replicate 16 0)))"
    by (simp add: serialize_connection_req_def)
  also have "\<dots> = be64 (cq_protocol_id r) @ be32 (cq_action r) @ be32 (cq_transaction_id r)"
    by (subst write_zeros, simp, simp)+ simp
  finally show ?thesis .
qed

lemma serialize_announce_req_eq:
  assumes "length (aq_info_hash r) = 20" "length (aq_peer_id r) = 20"
  shows "serialize_announce_req r =
    be64 (aq_connection_id r) @ be32 (aq_action r) @ be32 (aq_transaction_id r) @ aq_info_hash r @ aq_peer_id r @
    be64 (aq_downloaded r) @ be64 (aq_left r) @ be64 (aq_uploaded r) @ be32 (aq_event r) @ be32 (aq_ip r) @
    be32 (aq_key r) @ be32 (aq_num_want r) @ be16 (aq_port r)"
proof -
  have z: "replicate 98 (0 :: byte) = [] @ replicate 98 0" by simp
  show ?thesis unfolding serialize_announce_req_def Let_def
    by (subst z, (subst write_zeros, simp, simp)+, subst copy_zeros, simp, simp add: assms, subst copy_zeros, simp add: assms,
        simp add: assms, simp only: assms, (subst write_zeros, simp add: assms, simp)+, simp)
qed

subsection \<open>Compact peers\<close>

lemma peers_from_v4: "peers_from ntop6 False data i = parse_compact_from data i"
proof (induction data i rule: parse_compact_from.induct)
  case (1 data i)
  show ?case
  proof (cases "i + 6 \<le> length data")
    case True
    then have "peer_at ntop6 False data i = (case compact_to_peer data i of Some (a, b) \<Rightarrow> PeerAddress a b)"
      by (simp add: peer_at_def compact_to_peer_def inet_ntoa_def)
    then show ?thesis using 1 True
      by (simp add: peers_from.simps [of ntop6 False] parse_compact_from.simps [of data i] compact_to_peer_def)
  next
    case False
    then show ?thesis by (simp add: peers_from.simps parse_compact_from.simps)
  qed
qed

subsection \<open>Which datagrams count\<close>

text \<open>
  A datagram that both loops skip: too short, or a response to another
  transaction. \<open>len\<close> is the length a response must have.
\<close>

fun skipped :: "nat \<Rightarrow> 32 word \<Rightarrow> udp_event \<Rightarrow> bool" where
  "skipped len tx NoReply = True"
| "skipped len tx SocketError = False"
| "skipped len tx (Datagram d) = (length d < 4 \<or> read_be32 d 0 \<noteq> 3 \<and> (length d < len \<or> read_be32 d 4 \<noteq> tx))"

definition connect_reply :: "32 word \<Rightarrow> bytes \<Rightarrow> bool" where
  "connect_reply tx d = (16 \<le> length d \<and> read_be32 d 0 = 0 \<and> read_be32 d 4 = tx)"

definition announce_reply :: "32 word \<Rightarrow> bytes \<Rightarrow> bool" where
  "announce_reply tx d = (20 \<le> length d \<and> read_be32 d 0 = 1 \<and> read_be32 d 4 = tx)"

lemma connect_loop_skip:
  assumes "\<forall>e\<in>set es. skipped 16 tx e" "length es \<le> n" "connect_reply tx d"
  shows "connect_loop (Suc n) tx (es @ Datagram d # rest) =
    (Inr \<lparr>cr_action = 0, cr_transaction_id = tx, cr_connection_id = read_be64 d 8\<rparr>, Suc (length es), rest)"
  using assms
proof (induction es arbitrary: n)
  case Nil
  then show ?case by (auto simp: connect_reply_def deserialize_connection_resp_def Let_def)
next
  case (Cons e es)
  obtain n' where n': "n = Suc n'" using Cons(3) by (cases n) auto
  have "connect_loop (Suc n) tx ((e # es) @ Datagram d # rest) =
      (case connect_loop n tx (es @ Datagram d # rest) of (r, k, rest) \<Rightarrow> (r, Suc k, rest))"
    using Cons(2) by (cases e) (auto simp: Let_def deserialize_connection_resp_def simp del: connect_loop.simps(2) simp: connect_loop.simps(2) [of n])
  then show ?case using Cons(1) [of n'] Cons(2,3,4) n' by simp
qed

lemma announce_loop_skip:
  assumes "\<forall>e\<in>set es. skipped 20 tx e" "length es \<le> n" "announce_reply tx d"
  shows "announce_loop ntop6 v6 (Suc n) tx (es @ Datagram d # rest) = (Inr (peers_from ntop6 v6 (drop 20 d) 0), Suc (length es), rest)"
  using assms
proof (induction es arbitrary: n)
  case Nil
  then show ?case by (auto simp: announce_reply_def deserialize_announce_resp_def Let_def)
next
  case (Cons e es)
  obtain n' where n': "n = Suc n'" using Cons(3) by (cases n) auto
  have "announce_loop ntop6 v6 (Suc n) tx ((e # es) @ Datagram d # rest) =
      (case announce_loop ntop6 v6 n tx (es @ Datagram d # rest) of (r, k, rest) \<Rightarrow> (r, Suc k, rest))"
    using Cons(2) by (cases e) (auto simp: Let_def deserialize_announce_resp_def simp del: announce_loop.simps(2) simp: announce_loop.simps(2) [of ntop6 v6 n])
  then show ?case using Cons(1) [of n'] Cons(2,3,4) n' by simp
qed

text \<open>One attempt: it goes on to the next, or it ends the loop.\<close>

lemma connect_loop_step:
  assumes "connect_loop (Suc n) tx evs = (r, k, rest)"
  shows "(\<exists>es k'. set es \<subseteq> set evs \<and> connect_loop n tx es = (r, k', rest) \<and> k = Suc k') \<or>
    k = 1 \<and> set rest \<subseteq> set evs \<and>
      (\<forall>x. r = Inr x \<longrightarrow> (\<exists>d. Datagram d \<in> set evs \<and> connect_reply tx d \<and> cr_connection_id x = read_be64 d 8))"
proof (cases evs)
  case Nil
  then show ?thesis using assms by (auto simp: Let_def split: prod.splits)
next
  case (Cons e es)
  have again: "\<exists>es k'. set es \<subseteq> set evs \<and> connect_loop n tx es = (r, k', rest) \<and> k = Suc k'"
    if "(case connect_loop n tx es of (r, k, rest) \<Rightarrow> (r, Suc k, rest)) = (r, k, rest)"
    using that Cons by (intro exI [of _ es]) (auto split: prod.splits)
  show ?thesis
  proof (cases e)
    case NoReply
    then show ?thesis using assms Cons again by (simp add: Let_def)
  next
    case SocketError
    then show ?thesis using assms Cons by (auto simp: Let_def)
  next
    case (Datagram d)
    then show ?thesis using assms Cons again
      by (auto simp: Let_def deserialize_connection_resp_def connect_reply_def split: if_splits)
  qed
qed

lemma connect_loop_result:
  "connect_loop n tx evs = (r, k, rest) \<Longrightarrow> k \<le> n \<and> set rest \<subseteq> set evs \<and>
     (\<forall>x. r = Inr x \<longrightarrow> (\<exists>d. Datagram d \<in> set evs \<and> connect_reply tx d \<and> cr_connection_id x = read_be64 d 8))"
proof (induction n arbitrary: evs k)
  case (Suc n)
  from connect_loop_step [OF Suc(2)] show ?case
  proof
    assume "\<exists>es k'. set es \<subseteq> set evs \<and> connect_loop n tx es = (r, k', rest) \<and> k = Suc k'"
    then obtain es k' where "set es \<subseteq> set evs" "connect_loop n tx es = (r, k', rest)" "k = Suc k'" by blast
    then show ?thesis using Suc(1) [of es k'] by blast
  qed auto
qed auto

lemma announce_loop_step:
  assumes "announce_loop ntop6 v6 (Suc n) tx evs = (r, k, rest)"
  shows "(\<exists>es k'. set es \<subseteq> set evs \<and> announce_loop ntop6 v6 n tx es = (r, k', rest) \<and> k = Suc k') \<or>
    k = 1 \<and>
      (\<forall>ps. r = Inr ps \<longrightarrow> (\<exists>d. Datagram d \<in> set evs \<and> announce_reply tx d \<and> ps = peers_from ntop6 v6 (drop 20 d) 0))"
proof (cases evs)
  case Nil
  then show ?thesis using assms by (auto simp: Let_def split: prod.splits)
next
  case (Cons e es)
  have again: "\<exists>es k'. set es \<subseteq> set evs \<and> announce_loop ntop6 v6 n tx es = (r, k', rest) \<and> k = Suc k'"
    if "(case announce_loop ntop6 v6 n tx es of (r, k, rest) \<Rightarrow> (r, Suc k, rest)) = (r, k, rest)"
    using that Cons by (intro exI [of _ es]) (auto split: prod.splits)
  show ?thesis
  proof (cases e)
    case NoReply
    then show ?thesis using assms Cons again by (simp add: Let_def)
  next
    case SocketError
    then show ?thesis using assms Cons by (auto simp: Let_def)
  next
    case (Datagram d)
    then show ?thesis using assms Cons again
      by (auto simp: Let_def deserialize_announce_resp_def announce_reply_def split: if_splits)
  qed
qed

lemma announce_loop_result:
  "announce_loop ntop6 v6 n tx evs = (r, k, rest) \<Longrightarrow> k \<le> n \<and>
     (\<forall>ps. r = Inr ps \<longrightarrow> (\<exists>d. Datagram d \<in> set evs \<and> announce_reply tx d \<and> ps = peers_from ntop6 v6 (drop 20 d) 0))"
proof (induction n arbitrary: evs k)
  case (Suc n)
  from announce_loop_step [OF Suc(2)] show ?case
  proof
    assume "\<exists>es k'. set es \<subseteq> set evs \<and> announce_loop ntop6 v6 n tx es = (r, k', rest) \<and> k = Suc k'"
    then obtain es k' where "set es \<subseteq> set evs" "announce_loop ntop6 v6 n tx es = (r, k', rest)" "k = Suc k'" by blast
    then show ?thesis using Suc(1) [of es k'] by blast
  qed auto
qed auto

text \<open>
  A four-byte datagram with action 3, from any sender, reaches the code that
  reads its text from byte 8.
\<close>

lemma short_failure: "connect_loop (Suc n) tx (Datagram (be32 3) # evs) = (Inl FailureTextOutOfRange, 1, evs)"
  using read_be32_append [of "[]" 0 3 "[]"] by (simp add: failure_text_def Let_def)

subsection \<open>Properties\<close>

text \<open>The announce request has the layout of BEP 15: 98 bytes with the connection,
  action, transaction, hash, peer, byte counts, event, address, key, number of
  peers wanted and port at their documented offsets.\<close>

theorem announce_req_layout:
  assumes "length (an_info_hash req) = 20" "length (an_peer_id req) = 20"
    and "buf = serialize_announce_req (build_announce_req a conn_id req)"
  shows "length buf = 98 \<and> read_be64 buf 0 = conn_id \<and> read_be32 buf 8 = 1 \<and> read_be32 buf 12 = ua_announce_tx a \<and>
    take 20 (drop 16 buf) = an_info_hash req \<and> take 20 (drop 36 buf) = an_peer_id req \<and>
    read_be64 buf 56 = of_nat (an_downloaded req) \<and> read_be64 buf 64 = of_nat (an_left req) \<and>
    read_be64 buf 72 = of_nat (an_uploaded req) \<and> read_be32 buf 80 = event_code (an_event req) \<and>
    read_be32 buf 84 = 0 \<and> read_be32 buf 88 = ua_key a \<and> read_be32 buf 92 = - 1 \<and> read_be16 buf 96 = an_port req"
proof -
  let ?r = "build_announce_req a conn_id req"
  have len: "length (aq_info_hash ?r) = 20" "length (aq_peer_id ?r) = 20" using assms by (simp_all add: build_announce_req_def)
  have buf: "buf = be64 (aq_connection_id ?r) @ be32 (aq_action ?r) @ be32 (aq_transaction_id ?r) @ aq_info_hash ?r @ aq_peer_id ?r @
    be64 (aq_downloaded ?r) @ be64 (aq_left ?r) @ be64 (aq_uploaded ?r) @ be32 (aq_event ?r) @ be32 (aq_ip ?r) @
    be32 (aq_key ?r) @ be32 (aq_num_want ?r) @ be16 (aq_port ?r)"
    unfolding assms(3) by (rule serialize_announce_req_eq [OF len])
  have r64: "read_be64 (pre @ be64 v @ post) p = v" "read_be32 (pre @ be32 w @ post) p = w" "read_be16 (pre @ be16 x @ post) p = x"
    if "length pre = p" for pre v w x post p using that by simp_all
  note at = r64 [where pre = "[]", simplified]
  let ?a = "be64 (aq_connection_id ?r)" and ?b = "be32 (aq_action ?r)" and ?c = "be32 (aq_transaction_id ?r)"
  let ?h = "aq_info_hash ?r" and ?i = "aq_peer_id ?r" and ?d = "be64 (aq_downloaded ?r)" and ?l = "be64 (aq_left ?r)"
  let ?u = "be64 (aq_uploaded ?r)" and ?e = "be32 (aq_event ?r)" and ?ip = "be32 (aq_ip ?r)" and ?k = "be32 (aq_key ?r)"
  let ?w = "be32 (aq_num_want ?r)" and ?p = "be16 (aq_port ?r)"
  have "read_be64 buf 0 = aq_connection_id ?r" unfolding buf using r64(1) [of "[]" 0] by simp
  moreover have "read_be32 buf 8 = aq_action ?r" unfolding buf using r64(2) [of ?a 8] by simp
  moreover have "read_be32 buf 12 = aq_transaction_id ?r" unfolding buf using r64(2) [of "?a @ ?b" 12] by simp
  moreover have "take 20 (drop 16 buf) = ?h" "take 20 (drop 36 buf) = ?i" unfolding buf using len by simp_all
  moreover have "read_be64 buf 56 = aq_downloaded ?r" unfolding buf using r64(1) [of "?a @ ?b @ ?c @ ?h @ ?i" 56] len by simp
  moreover have "read_be64 buf 64 = aq_left ?r" unfolding buf using r64(1) [of "?a @ ?b @ ?c @ ?h @ ?i @ ?d" 64] len by simp
  moreover have "read_be64 buf 72 = aq_uploaded ?r" unfolding buf using r64(1) [of "?a @ ?b @ ?c @ ?h @ ?i @ ?d @ ?l" 72] len by simp
  moreover have "read_be32 buf 80 = aq_event ?r" unfolding buf using r64(2) [of "?a @ ?b @ ?c @ ?h @ ?i @ ?d @ ?l @ ?u" 80] len by simp
  moreover have "read_be32 buf 84 = aq_ip ?r" unfolding buf using r64(2) [of "?a @ ?b @ ?c @ ?h @ ?i @ ?d @ ?l @ ?u @ ?e" 84] len by simp
  moreover have "read_be32 buf 88 = aq_key ?r" unfolding buf using r64(2) [of "?a @ ?b @ ?c @ ?h @ ?i @ ?d @ ?l @ ?u @ ?e @ ?ip" 88] len by simp
  moreover have "read_be32 buf 92 = aq_num_want ?r" unfolding buf using r64(2) [of "?a @ ?b @ ?c @ ?h @ ?i @ ?d @ ?l @ ?u @ ?e @ ?ip @ ?k" 92] len by simp
  moreover have "read_be16 buf 96 = aq_port ?r"
    unfolding buf using r64(3) [of "?a @ ?b @ ?c @ ?h @ ?i @ ?d @ ?l @ ?u @ ?e @ ?ip @ ?k @ ?w" 96 _ "[]"] len by simp
  moreover have "length buf = 98" unfolding buf using len by simp
  ultimately show ?thesis by (simp add: build_announce_req_def)
qed

theorem announce_req_layout_witness:
  "read_be32 (serialize_announce_req (build_announce_req
     \<lparr>ua_ipv6 = False, ua_connect_tx = 1, ua_announce_tx = 2, ua_key = 3, ua_events = []\<rparr> 9
     \<lparr>an_info_hash = replicate 20 0, an_peer_id = replicate 20 1, an_downloaded = 5, an_left = 6, an_uploaded = 7,
      an_event = EventStarted, an_port = 6881\<rparr>)) 80 = 2"
  using announce_req_layout [OF _ _ refl, of "\<lparr>an_info_hash = replicate 20 0, an_peer_id = replicate 20 1, an_downloaded = 5,
      an_left = 6, an_uploaded = 7, an_event = EventStarted, an_port = 6881\<rparr>"
      "\<lparr>ua_ipv6 = False, ua_connect_tx = 1, ua_announce_tx = 2, ua_key = 3, ua_events = []\<rparr>" 9]
  by simp

text \<open>An attempt in which one datagram is lost in each exchange.\<close>

definition sample_request :: tracker_request where
  "sample_request = \<lparr>an_info_hash = replicate 20 0, an_peer_id = replicate 20 1, an_downloaded = 5, an_left = 6,
     an_uploaded = 7, an_event = EventStarted, an_port = 6881\<rparr>"

definition sample_attempt :: udp_attempt where
  "sample_attempt = \<lparr>ua_ipv6 = False, ua_connect_tx = 1, ua_announce_tx = 2, ua_key = 3,
     ua_events = [NoReply, Datagram (be32 0 @ be32 1 @ be64 9), NoReply, Datagram (be32 1 @ be32 2 @ be32 0 @ be32 0 @ be32 0)]\<rparr>"





end
