(* ===== verification/Ssl_Socket.thy ===== *)
theory Ssl_Socket
  imports Sockets
begin

section \<open>TLS sockets\<close>

text \<open>
  \<^verbatim>\<open>SSLSocket\<close> (\<^verbatim>\<open>inc/net/ssl_socket.h\<close>, \<^verbatim>\<open>src/net/ssl_socket.cpp\<close>): the two
  constructors with what they release when they throw, destruction and moves, and
  the send and receive loops with the flags of the descriptor. OpenSSL is an
  argument: one \<open>ssl_step\<close> for every turn of a loop, with the return value of
  \<^verbatim>\<open>SSL_write\<close> or \<^verbatim>\<open>SSL_read\<close>, the code \<^verbatim>\<open>SSL_get_error\<close> gives for it, the bytes
  \<^verbatim>\<open>SSL_pending\<close> reports and the result of \<^verbatim>\<open>poll\<close>.
\<close>

record ssl_socket =
  ss_socket :: tcp_socket
  ss_ctx :: "nat option"
  ss_ssl :: "nat option"

datatype ssl_call = SslShutdown nat | SslFree nat | CtxFree nat | SockCall fd_call

datatype ssl_error = CtxNewErr | SslNewErr | HostNameErr | SetFdErr | HandshakeErr int | CertificateErr | KeyErr | KeyMismatch

subsection \<open>Construction\<close>

text \<open>
  What the library calls of a constructor return, and the handles it gives out.
\<close>

record ssl_env =
  se_ctx :: "nat option"
  se_cert :: int
  se_key :: int
  se_check :: bool
  se_ssl :: "nat option"
  se_host :: bool
  se_set_fd :: bool
  se_handshake :: int
  se_error :: int

text \<open>A throwing constructor also destroys the socket that was moved into the object.\<close>

definition ctor_throws :: "tcp_socket \<Rightarrow> ssl_call list \<Rightarrow> ssl_error \<Rightarrow> ssl_call list \<times> (ssl_error + ssl_socket)" where
  "ctor_throws sock calls e = (calls @ map SockCall (fst (tcp_destroy sock)), Inl e)"

definition ssl_client :: "ssl_env \<Rightarrow> tcp_socket \<Rightarrow> ssl_call list \<times> (ssl_error + ssl_socket)" where
  "ssl_client env sock =
     (case se_ctx env of
        None \<Rightarrow> ctor_throws sock [] CtxNewErr
      | Some ctx \<Rightarrow>
          (case se_ssl env of
             None \<Rightarrow> ctor_throws sock [CtxFree ctx] SslNewErr
           | Some ssl \<Rightarrow>
               if \<not> se_host env then ctor_throws sock [SslFree ssl, CtxFree ctx] HostNameErr
               else if \<not> se_set_fd env then ctor_throws sock [SslFree ssl, CtxFree ctx] SetFdErr
               else if se_handshake env \<le> 0 then ctor_throws sock [SslFree ssl, CtxFree ctx] (HandshakeErr (se_error env))
               else ([], Inr \<lparr>ss_socket = sock, ss_ctx = Some ctx, ss_ssl = Some ssl\<rparr>)))"

definition ssl_server :: "ssl_env \<Rightarrow> tcp_socket \<Rightarrow> ssl_call list \<times> (ssl_error + ssl_socket)" where
  "ssl_server env sock =
     (case se_ctx env of
        None \<Rightarrow> ctor_throws sock [] CtxNewErr
      | Some ctx \<Rightarrow>
          if se_cert env \<le> 0 then ctor_throws sock [CtxFree ctx] CertificateErr
          else if se_key env \<le> 0 then ctor_throws sock [CtxFree ctx] KeyErr
          else if \<not> se_check env then ctor_throws sock [CtxFree ctx] KeyMismatch
          else (case se_ssl env of
             None \<Rightarrow> ctor_throws sock [CtxFree ctx] SslNewErr
           | Some ssl \<Rightarrow>
               if \<not> se_set_fd env then ctor_throws sock [SslFree ssl, CtxFree ctx] SetFdErr
               else if se_handshake env \<le> 0 then ctor_throws sock [SslFree ssl, CtxFree ctx] (HandshakeErr (se_error env))
               else ([], Inr \<lparr>ss_socket = sock, ss_ctx = Some ctx, ss_ssl = Some ssl\<rparr>)))"

subsection \<open>Destruction and moves\<close>

definition ssl_cleanup :: "ssl_socket \<Rightarrow> ssl_call list" where
  "ssl_cleanup s =
     (case ss_ssl s of None \<Rightarrow> [] | Some ssl \<Rightarrow> [SslShutdown ssl, SslFree ssl]) @
     (case ss_ctx s of None \<Rightarrow> [] | Some ctx \<Rightarrow> [CtxFree ctx])"

definition ssl_destroy :: "ssl_socket \<Rightarrow> ssl_call list \<times> ssl_socket" where
  "ssl_destroy s =
     (case tcp_destroy (ss_socket s) of (calls, sock) \<Rightarrow>
        (ssl_cleanup s @ map SockCall calls, \<lparr>ss_socket = sock, ss_ctx = None, ss_ssl = None\<rparr>))"

definition ssl_move :: "ssl_socket \<Rightarrow> ssl_socket \<times> ssl_socket" where
  "ssl_move other =
     (case tcp_move (ss_socket other) of (d, s) \<Rightarrow>
        (other\<lparr>ss_socket := d\<rparr>, \<lparr>ss_socket = s, ss_ctx = None, ss_ssl = None\<rparr>))"

definition ssl_assign :: "ssl_socket \<Rightarrow> ssl_socket \<Rightarrow> ssl_call list \<times> ssl_socket \<times> ssl_socket" where
  "ssl_assign this other =
     (case tcp_assign (ss_socket this) (ss_socket other) of (calls, d, s) \<Rightarrow>
        (ssl_cleanup this @ map SockCall calls,
         \<lparr>ss_socket = d, ss_ctx = ss_ctx other, ss_ssl = ss_ssl other\<rparr>,
         \<lparr>ss_socket = s, ss_ctx = None, ss_ssl = None\<rparr>))"

datatype ssl_resource = Fd int | Ctx nat | Ssl nat

definition ssl_owns :: "ssl_socket \<Rightarrow> ssl_resource multiset" where
  "ssl_owns s = image_mset Fd (fd_owned (ts_fd (ss_socket s))) +
     (case ss_ssl s of None \<Rightarrow> {#} | Some ssl \<Rightarrow> {#Ssl ssl#}) + (case ss_ctx s of None \<Rightarrow> {#} | Some ctx \<Rightarrow> {#Ctx ctx#})"

fun ssl_frees :: "ssl_call \<Rightarrow> ssl_resource multiset" where
  "ssl_frees (SslShutdown ssl) = {#}" | "ssl_frees (SslFree ssl) = {#Ssl ssl#}" | "ssl_frees (CtxFree ctx) = {#Ctx ctx#}"
| "ssl_frees (SockCall c) = image_mset Fd (mset (closed_fds [c]))"

definition ssl_freed :: "ssl_call list \<Rightarrow> ssl_resource multiset" where
  "ssl_freed calls = sum_list (map ssl_frees calls)"

lemma ssl_freed_simps [simp]:
  "ssl_freed [] = {#}" "ssl_freed (c # cs) = ssl_frees c + ssl_freed cs" "ssl_freed (xs @ ys) = ssl_freed xs + ssl_freed ys"
  by (simp_all add: ssl_freed_def)

lemma ssl_freed_sock [simp]: "ssl_freed (map SockCall calls) = image_mset Fd (mset (closed_fds calls))"
  by (induction calls rule: closed_fds.induct) simp_all

lemma ssl_freed_cleanup:
  "ssl_freed (ssl_cleanup s) = (case ss_ssl s of None \<Rightarrow> {#} | Some ssl \<Rightarrow> {#Ssl ssl#}) +
     (case ss_ctx s of None \<Rightarrow> {#} | Some ctx \<Rightarrow> {#Ctx ctx#})"
  by (simp add: ssl_cleanup_def split: option.split)

text \<open>The contract of the TLS socket follows from that of the socket it holds.\<close>

interpretation ssl: owner ssl_move ssl_assign ssl_destroy ssl_owns ssl_freed
proof unfold_locales
  fix x y d s :: ssl_socket and calls
  show "ssl_move x = (d, s) \<Longrightarrow> ssl_owns d = ssl_owns x \<and> ssl_owns s = {#}"
    by (auto simp: ssl_move_def ssl_owns_def split: prod.splits dest!: tcp.mv_owns)
  show "ssl_assign x y = (calls, d, s) \<Longrightarrow> ssl_owns d = ssl_owns y \<and> ssl_owns s = {#} \<and> ssl_freed calls = ssl_owns x"
    by (auto simp: ssl_assign_def ssl_owns_def ssl_freed_cleanup ac_simps split: prod.splits dest!: tcp.asg_owns)
  show "ssl_destroy x = (calls, s) \<Longrightarrow> ssl_owns s = {#} \<and> ssl_freed calls = ssl_owns x"
    by (auto simp: ssl_destroy_def ssl_owns_def ssl_freed_cleanup ac_simps split: prod.splits dest!: tcp.des_owns)
qed simp_all

subsection \<open>Sending and receiving\<close>

record ssl_step =
  sp_ret :: int
  sp_err :: int
  sp_pending :: nat
  sp_poll :: int

text \<open>The codes of \<^verbatim>\<open>SSL_get_error\<close> that the code looks at.\<close>

definition SSL_ERROR_WANT_READ :: int where "SSL_ERROR_WANT_READ = 2"
definition SSL_ERROR_WANT_WRITE :: int where "SSL_ERROR_WANT_WRITE = 3"
definition SSL_ERROR_ZERO_RETURN :: int where "SSL_ERROR_ZERO_RETURN = 6"

datatype tls_error = TlsPollErr | TlsTimeout | TlsWriteErr int | TlsReadErr int | TlsFcntlErr

datatype 'a tls_result = TlsDone 'a | TlsThrew tls_error | TlsPending

text \<open>
  The length is narrowed to \<^verbatim>\<open>int\<close>, and the library transfers at most as many
  bytes as it is given.
\<close>

definition ssl_num :: "nat \<Rightarrow> nat" where
  "ssl_num n = nat (sint (of_nat n :: 32 word))"

definition written :: "ssl_step \<Rightarrow> bytes \<Rightarrow> nat \<Rightarrow> nat" where
  "written p buffer total_written = min (nat (sp_ret p)) (min (ssl_num (length buffer - total_written)) (length buffer - total_written))"

fun ssl_send_loop :: "ssl_step list \<Rightarrow> bytes \<Rightarrow> nat \<Rightarrow> bytes \<Rightarrow> unit tls_result \<times> bytes" where
  "ssl_send_loop steps buffer total_written wire =
     (if length buffer \<le> total_written then (TlsDone (), wire)
      else case steps of
             [] \<Rightarrow> (TlsPending, wire)
           | p # ps \<Rightarrow>
               if 0 < sp_ret p
               then let n = written p buffer total_written in ssl_send_loop ps buffer (total_written + n) (wire @ take n (drop total_written buffer))
               else (TlsThrew (TlsWriteErr (sp_err p)), wire))"

definition ssl_send :: "ssl_step list \<Rightarrow> bytes \<Rightarrow> bytes \<Rightarrow> unit tls_result \<times> bytes" where
  "ssl_send steps buffer wire = ssl_send_loop steps buffer 0 wire"

definition ssl_recv :: "ssl_step \<Rightarrow> nat \<Rightarrow> bytes \<Rightarrow> tls_error + bytes" where
  "ssl_recv p sz stream =
     (if 0 < sp_ret p then Inr (take (min (nat (sp_ret p)) (ssl_num sz)) stream)
      else if sp_ret p = 0 then Inr []
      else if sp_err p = SSL_ERROR_ZERO_RETURN then Inr []
      else Inl (TlsReadErr (sp_err p)))"

fun ssl_recv_all_loop :: "ssl_step list \<Rightarrow> bytes \<Rightarrow> bytes \<Rightarrow> bytes tls_result \<times> bytes" where
  "ssl_recv_all_loop [] result stream = (TlsPending, stream)"
| "ssl_recv_all_loop (p # ps) result stream =
     (case ssl_recv p 4096 stream of
        Inl e \<Rightarrow> (TlsThrew e, stream)
      | Inr got \<Rightarrow> if got = [] then (TlsDone result, stream)
                   else ssl_recv_all_loop ps (result @ got) (drop (length got) stream))"

definition ssl_recv_all :: "ssl_step list \<Rightarrow> bytes \<Rightarrow> bytes tls_result \<times> bytes" where
  "ssl_recv_all steps stream = ssl_recv_all_loop steps [] stream"

definition ssl_poll :: "ssl_step \<Rightarrow> tls_error option" where
  "ssl_poll p = (if sp_poll p < 0 then Some TlsPollErr else if sp_poll p = 0 then Some TlsTimeout else None)"

text \<open>
  The timed versions make the descriptor non-blocking and set its flags back at
  the returns and the throws that say so; the exception of \<open>ssl_poll\<close> leaves
  them as they are.
\<close>

fun ssl_send_timeout_loop ::
    "32 word \<Rightarrow> ssl_step list \<Rightarrow> bytes \<Rightarrow> nat \<Rightarrow> bytes \<Rightarrow> unit tls_result \<times> bytes \<times> 32 word" where
  "ssl_send_timeout_loop flags steps buffer total_written wire =
     (if length buffer \<le> total_written then (TlsDone (), wire, flags)
      else case steps of
             [] \<Rightarrow> (TlsPending, wire, nonblocking flags)
           | p # ps \<Rightarrow>
               if 0 < sp_ret p
               then let n = written p buffer total_written
                    in ssl_send_timeout_loop flags ps buffer (total_written + n) (wire @ take n (drop total_written buffer))
               else if sp_err p = SSL_ERROR_WANT_WRITE \<or> sp_err p = SSL_ERROR_WANT_READ
               then (case ssl_poll p of
                       Some e \<Rightarrow> (TlsThrew e, wire, nonblocking flags)
                     | None \<Rightarrow> ssl_send_timeout_loop flags ps buffer total_written wire)
               else (TlsThrew (TlsWriteErr (sp_err p)), wire, flags))"

definition ssl_send_with_timeout ::
    "bool \<Rightarrow> bool \<Rightarrow> 32 word \<Rightarrow> ssl_step list \<Rightarrow> bytes \<Rightarrow> bytes \<Rightarrow> unit tls_result \<times> bytes \<times> 32 word" where
  "ssl_send_with_timeout getfl setfl flags steps buffer wire =
     (if \<not> getfl then (TlsThrew TlsFcntlErr, wire, flags)
      else if \<not> setfl then (TlsThrew TlsFcntlErr, wire, flags)
      else ssl_send_timeout_loop flags steps buffer 0 wire)"

text \<open>One turn of the read loop: the poll before the read, when nothing is pending, and the one after a want-write.\<close>

fun ssl_recv_timeout_loop ::
    "32 word \<Rightarrow> (int \<times> ssl_step) list \<Rightarrow> nat \<Rightarrow> bytes \<Rightarrow> bytes tls_result \<times> 32 word" where
  "ssl_recv_timeout_loop flags [] sz stream = (TlsPending, nonblocking flags)"
| "ssl_recv_timeout_loop flags ((before, p) # ps) sz stream =
     (case (if sp_pending p = 0 then ssl_poll (p\<lparr>sp_poll := before\<rparr>) else None) of
        Some e \<Rightarrow> (TlsThrew e, nonblocking flags)
      | None \<Rightarrow>
          if 0 < sp_ret p then (TlsDone (take (min (nat (sp_ret p)) (ssl_num sz)) stream), flags)
          else if sp_ret p = 0 then (TlsDone [], flags)
          else if sp_err p = SSL_ERROR_ZERO_RETURN then (TlsDone [], flags)
          else if sp_err p = SSL_ERROR_WANT_READ then ssl_recv_timeout_loop flags ps sz stream
          else if sp_err p = SSL_ERROR_WANT_WRITE
          then (case ssl_poll p of
                  Some e \<Rightarrow> (TlsThrew e, nonblocking flags)
                | None \<Rightarrow> ssl_recv_timeout_loop flags ps sz stream)
          else (TlsThrew (TlsReadErr (sp_err p)), flags))"

definition ssl_recv_with_timeout ::
    "bool \<Rightarrow> bool \<Rightarrow> 32 word \<Rightarrow> (int \<times> ssl_step) list \<Rightarrow> nat \<Rightarrow> bytes \<Rightarrow> bytes tls_result \<times> 32 word" where
  "ssl_recv_with_timeout getfl setfl flags steps sz stream =
     (if \<not> getfl then (TlsThrew TlsFcntlErr, flags)
      else if \<not> setfl then (TlsThrew TlsFcntlErr, flags)
      else ssl_recv_timeout_loop flags steps sz stream)"

declare ssl_send_loop.simps [simp del] ssl_send_timeout_loop.simps [simp del]

subsection \<open>What the loops transfer\<close>

lemma take_next: "take (k - t) (drop t xs) = take n (drop t xs) @ take (k - (t + n)) (drop (t + n) xs)" if "t + n \<le> k"
  using that take_add [of n "k - (t + n)" "drop t xs"] by (simp add: add.commute)

lemma written_le: "t \<le> length buffer \<Longrightarrow> t + written p buffer t \<le> length buffer"
  by (simp add: written_def)

text \<open>
  What went out is the buffer from its start, and after a return all of it.
\<close>

definition sent_from :: "bytes \<Rightarrow> nat \<Rightarrow> bytes \<Rightarrow> unit tls_result \<Rightarrow> bytes \<Rightarrow> bool" where
  "sent_from buffer t wire r w \<longleftrightarrow>
     (\<exists>k. t \<le> k \<and> k \<le> length buffer \<and> w = wire @ take (k - t) (drop t buffer) \<and> (r = TlsDone () \<longrightarrow> k = length buffer))"

lemma sent_from_refl: "t \<le> length buffer \<Longrightarrow> (r = TlsDone () \<Longrightarrow> t = length buffer) \<Longrightarrow> sent_from buffer t wire r wire"
  by (auto simp: sent_from_def)

lemma sent_from_step:
  "sent_from buffer (t + n) (wire @ take n (drop t buffer)) r w \<Longrightarrow> sent_from buffer t wire r w"
  unfolding sent_from_def by (metis add_leD1 append.assoc take_next)

lemma ssl_send_loop_wire:
  "t \<le> length buffer \<Longrightarrow> ssl_send_loop steps buffer t wire = (r, w) \<Longrightarrow> sent_from buffer t wire r w"
proof (induction steps arbitrary: t wire)
  case Nil
  then show ?case by (auto simp: ssl_send_loop.simps intro: sent_from_refl split: if_splits)
next
  case (Cons p ps)
  show ?case
  proof (cases "t < length buffer \<and> 0 < sp_ret p")
    case True
    then have "ssl_send_loop ps buffer (t + written p buffer t) (wire @ take (written p buffer t) (drop t buffer)) = (r, w)"
      using Cons.prems(2) by (simp add: ssl_send_loop.simps [of "p # ps"] Let_def)
    from Cons.IH [OF written_le [OF Cons.prems(1)] this] show ?thesis by (rule sent_from_step)
  next
    case False
    then have "w = wire" "r = TlsDone () \<Longrightarrow> t = length buffer"
      using Cons.prems by (auto simp: ssl_send_loop.simps [of "p # ps"] split: if_splits)
    then show ?thesis using sent_from_refl [OF Cons.prems(1)] by blast
  qed
qed

lemma ssl_send_timeout_loop_wire:
  "t \<le> length buffer \<Longrightarrow> ssl_send_timeout_loop flags steps buffer t wire = (r, w, fl) \<Longrightarrow>
     sent_from buffer t wire r w \<and> (fl = flags \<or> fl = nonblocking flags \<and> r \<in> {TlsPending, TlsThrew TlsPollErr, TlsThrew TlsTimeout})"
proof (induction steps arbitrary: t wire)
  case Nil
  then show ?case by (auto simp: ssl_send_timeout_loop.simps intro: sent_from_refl split: if_splits)
next
  case (Cons p ps)
  show ?case
  proof (cases "t < length buffer \<and> 0 < sp_ret p")
    case True
    then have "ssl_send_timeout_loop flags ps buffer (t + written p buffer t)
        (wire @ take (written p buffer t) (drop t buffer)) = (r, w, fl)"
      using Cons.prems(2) by (simp add: ssl_send_timeout_loop.simps [of _ "p # ps"] Let_def)
    from Cons.IH [OF written_le [OF Cons.prems(1)] this] show ?thesis using sent_from_step by blast
  next
    case nosend: False
    show ?thesis
    proof (cases "ssl_send_timeout_loop flags ps buffer t wire = (r, w, fl)")
      case True
      show ?thesis by (rule Cons.IH [OF Cons.prems(1) True])
    next
      case False
      then have "w = wire" "r = TlsDone () \<Longrightarrow> t = length buffer"
        "fl = flags \<or> fl = nonblocking flags \<and> r \<in> {TlsPending, TlsThrew TlsPollErr, TlsThrew TlsTimeout}"
        using nosend Cons.prems
        by (auto simp: ssl_send_timeout_loop.simps [of _ "p # ps"] ssl_poll_def split: if_splits)
      then show ?thesis using sent_from_refl [OF Cons.prems(1)] by blast
    qed
  qed
qed

lemma ssl_recv_all_loop_prefix:
  "ssl_recv_all_loop steps res stream = (TlsDone b, rest) \<Longrightarrow> b @ rest = res @ stream"
proof (induction steps arbitrary: res stream)
  case (Cons p ps)
  have split: "got @ drop (length got) stream = stream" if "ssl_recv p 4096 stream = Inr got" for got
    using that by (auto simp: ssl_recv_def min_def split: if_splits)
  show ?case
  proof (cases "ssl_recv p 4096 stream")
    case (Inr got)
    show ?thesis
    proof (cases "got = []")
      case False
      then have "b @ rest = (res @ got) @ drop (length got) stream" using Inr Cons.prems by (intro Cons.IH) simp
      then show ?thesis using split [OF Inr] by simp
    qed (use Inr Cons.prems in simp)
  qed (use Cons.prems in simp)
qed simp

lemma ssl_recv_timeout_loop_flags:
  "ssl_recv_timeout_loop flags steps sz stream = (r, fl) \<Longrightarrow>
     fl = flags \<or> fl = nonblocking flags \<and> r \<in> {TlsPending, TlsThrew TlsPollErr, TlsThrew TlsTimeout}"
  by (induction flags steps sz stream rule: ssl_recv_timeout_loop.induct)
    (auto simp: ssl_poll_def split: if_splits option.splits)

text \<open>A time-out of either timed call leaves the descriptor non-blocking.\<close>

lemma timeout_leaves_nonblocking:
  "snd (snd (ssl_send_with_timeout True True flags
     [\<lparr>sp_ret = - 1, sp_err = SSL_ERROR_WANT_WRITE, sp_pending = 0, sp_poll = 0\<rparr>] [1] wire)) = nonblocking flags"
  "snd (ssl_recv_with_timeout True True flags
     [(0, \<lparr>sp_ret = - 1, sp_err = SSL_ERROR_WANT_READ, sp_pending = 0, sp_poll = 0\<rparr>)] sz stream) = nonblocking flags"
  by (simp_all add: ssl_send_with_timeout_def ssl_send_timeout_loop.simps ssl_recv_with_timeout_def ssl_poll_def
      SSL_ERROR_WANT_WRITE_def)

subsection \<open>Properties\<close>

text \<open>C35: A TLS socket releases everything exactly once. A constructor that throws has
  freed what it obtained from the library and closed the socket it was given, each
  once; one that succeeds frees nothing and its object owns all of it, and whatever
  moves, assignments and destructions follow until no object owns anything, the
  descriptor, the context and the connection are each released exactly once.\<close>

theorem tls_released_once:
  assumes "ctor \<in> {ssl_client, ssl_server}" "ctor env sock = (calls, res)" "ts_fd sock \<noteq> - 1"
  shows "case res of
      Inl e \<Rightarrow>
        ssl_freed calls \<subseteq># {#Fd (ts_fd sock)#} + (case se_ssl env of None \<Rightarrow> {#} | Some h \<Rightarrow> {#Ssl h#}) +
          (case se_ctx env of None \<Rightarrow> {#} | Some h \<Rightarrow> {#Ctx h#}) \<and>
        Fd (ts_fd sock) \<in># ssl_freed calls \<and> (\<forall>h. se_ctx env = Some h \<longrightarrow> Ctx h \<in># ssl_freed calls) \<and>
        (e \<notin> {CtxNewErr, CertificateErr, KeyErr, KeyMismatch} \<longrightarrow> (\<forall>h. se_ssl env = Some h \<longrightarrow> Ssl h \<in># ssl_freed calls))
    | Inr s \<Rightarrow>
        calls = [] \<and> ss_socket s = sock \<and>
        (\<forall>ops calls' objs. own_run ssl_move ssl_assign ssl_destroy ops [s] = (calls', objs) \<longrightarrow> (\<forall>x\<in>set objs. ssl_owns x = {#}) \<longrightarrow>
           ssl_freed calls' = {#Fd (ts_fd sock), Ssl (the (se_ssl env)), Ctx (the (se_ctx env))#})"
proof (cases res)
  case (Inl e)
  then show ?thesis using assms
    by (auto simp: ssl_client_def ssl_server_def ctor_throws_def tcp_destroy_def split: option.splits if_splits)
next
  case (Inr s)
  have ok: "calls = [] \<and> s = \<lparr>ss_socket = sock, ss_ctx = se_ctx env, ss_ssl = se_ssl env\<rparr> \<and> se_ctx env \<noteq> None \<and> se_ssl env \<noteq> None"
    using assms Inr by (auto simp: ssl_client_def ssl_server_def ctor_throws_def split: option.splits if_splits)
  have "ssl_freed calls' = {#Fd (ts_fd sock), Ssl (the (se_ssl env)), Ctx (the (se_ctx env))#}"
    if "own_run ssl_move ssl_assign ssl_destroy ops [s] = (calls', objs)" "\<forall>x\<in>set objs. ssl_owns x = {#}" for ops calls' objs
    using ssl.all_freed [OF that] ok assms(3) by (auto simp: ssl_owns_def fd_owned_def)
  then show ?thesis using Inr ok by simp
qed

theorem tls_released_once_witness:
  "ssl_freed (fst (own_run ssl_move ssl_assign ssl_destroy [MoveInto 0, Destroy 1, Destroy 0]
     [\<lparr>ss_socket = \<lparr>ts_fd = 5, ts_domain = 2\<rparr>, ss_ctx = Some 1, ss_ssl = Some 2\<rparr>])) = {#Fd 5, Ssl 2, Ctx 1#}"
proof -
  let ?sock = "\<lparr>ts_fd = 5, ts_domain = 2\<rparr>"
  let ?s = "\<lparr>ss_socket = ?sock, ss_ctx = Some 1, ss_ssl = Some 2\<rparr>"
  let ?env = "\<lparr>se_ctx = Some 1, se_cert = 1, se_key = 1, se_check = True, se_ssl = Some 2, se_host = True,
    se_set_fd = True, se_handshake = 1, se_error = 0\<rparr>"
  have new: "ssl_client ?env ?sock = ([], Inr ?s)" by (simp add: ssl_client_def)
  obtain calls objs where run: "own_run ssl_move ssl_assign ssl_destroy [MoveInto 0, Destroy 1, Destroy 0] [?s] = (calls, objs)"
    by fastforce
  then have gone: "\<forall>x\<in>set objs. ssl_owns x = {#}"
    by (auto simp: ssl_move_def ssl_destroy_def tcp_move_def tcp_destroy_def ssl_owns_def fd_owned_def)
  have "\<forall>ops calls' objs. own_run ssl_move ssl_assign ssl_destroy ops [?s] = (calls', objs) \<longrightarrow>
      (\<forall>x\<in>set objs. ssl_owns x = {#}) \<longrightarrow> ssl_freed calls' = {#Fd 5, Ssl 2, Ctx 1#}"
    using tls_released_once [where ctor = ssl_client, OF _ new] by simp
  then have "ssl_freed calls = {#Fd 5, Ssl 2, Ctx 1#}" using run gone by blast
  then show ?thesis using run by simp
qed

text \<open>A TLS send hands over the buffer from its start and all of it when it returns,
  and a receive until the end returns the bytes of the stream from its start. The
  timed calls leave the flags of the descriptor as they were, unless they still
  run or left by the exception of poll.\<close>

theorem tls_transfers:
  "ssl_send steps buffer wire = (r, w) \<Longrightarrow> sent_from buffer 0 wire r w"
  "ssl_send_with_timeout gf sf flags steps buffer wire = (r, w, fl) \<Longrightarrow> sent_from buffer 0 wire r w \<and>
     (fl = flags \<or> fl = nonblocking flags \<and> r \<in> {TlsPending, TlsThrew TlsPollErr, TlsThrew TlsTimeout})"
  "ssl_recv_all steps stream = (TlsDone b, rest) \<Longrightarrow> b @ rest = stream"
  "ssl_recv_with_timeout gf sf flags rsteps sz stream = (r', fl) \<Longrightarrow>
     fl = flags \<or> fl = nonblocking flags \<and> r' \<in> {TlsPending, TlsThrew TlsPollErr, TlsThrew TlsTimeout}"
proof -
  show "ssl_send steps buffer wire = (r, w) \<Longrightarrow> sent_from buffer 0 wire r w"
    using ssl_send_loop_wire [of 0 buffer] by (simp add: ssl_send_def)
  show "ssl_send_with_timeout gf sf flags steps buffer wire = (r, w, fl) \<Longrightarrow> sent_from buffer 0 wire r w \<and>
     (fl = flags \<or> fl = nonblocking flags \<and> r \<in> {TlsPending, TlsThrew TlsPollErr, TlsThrew TlsTimeout})"
    using ssl_send_timeout_loop_wire [of 0 buffer flags steps wire r w fl] sent_from_refl [of 0 buffer r wire]
    by (auto simp: ssl_send_with_timeout_def split: if_splits)
  show "ssl_recv_all steps stream = (TlsDone b, rest) \<Longrightarrow> b @ rest = stream"
    using ssl_recv_all_loop_prefix [of steps "[]" stream] by (simp add: ssl_recv_all_def)
  show "ssl_recv_with_timeout gf sf flags rsteps sz stream = (r', fl) \<Longrightarrow>
     fl = flags \<or> fl = nonblocking flags \<and> r' \<in> {TlsPending, TlsThrew TlsPollErr, TlsThrew TlsTimeout}"
    using ssl_recv_timeout_loop_flags [of flags rsteps sz stream r' fl]
    by (auto simp: ssl_recv_with_timeout_def split: if_splits)
qed

end
