(* ===== verification/Krpc_Log.thy ===== *)
theory Krpc_Log
  imports Krpc Routing_Table_Store
begin

section \<open>The text of a KRPC message\<close>

text \<open>
  The one-line summaries of messages that the DHT client logs:
  \<^verbatim>\<open>format_krpc_summary\<close> and its helpers at the end of \<^verbatim>\<open>src/dht/krpc.cpp\<close>, and
  the line \<^verbatim>\<open>DhtClient::log_krpc\<close> makes of one.
\<close>

definition bytes_to_hex :: "bytes \<Rightarrow> bytes" where
  "bytes_to_hex bs = (if bs = [] then [] else concat (map hex_byte bs))"

definition format_node_id_prefix :: "node_id \<Rightarrow> bytes" where
  "format_node_id_prefix i =
     (let hex = id_hex i in if length hex \<le> 8 then hex else take 8 hex @ str ''...'')"

definition node_text :: "nat list \<Rightarrow> nat \<Rightarrow> routing_entry \<Rightarrow> bytes" where
  "node_text counts i e =
     (let repeat = (if i < length counts then counts ! i else 1)
      in str ''id='' @ format_node_id_prefix (re_id e) @ str '' @ '' @ ip (re_pa e) @ str '':'' @ dec (unat (port (re_pa e))) @
         (if 1 < repeat then str '' x'' @ dec repeat else []))"

fun join_nodes :: "nat list \<Rightarrow> nat \<Rightarrow> routing_entry list \<Rightarrow> bytes" where
  "join_nodes counts i [] = []"
| "join_nodes counts i (e # es) =
     (if 0 < i then str '', '' else []) @ node_text counts i e @ join_nodes counts (i + 1) es"

definition format_nodes :: "routing_entry list \<Rightarrow> nat list \<Rightarrow> bytes" where
  "format_nodes nodes counts = str ''['' @ join_nodes counts 0 nodes @ str '']''"

fun format_peers_loop :: "bytes list \<Rightarrow> nat \<Rightarrow> bytes \<Rightarrow> nat \<times> bytes" where
  "format_peers_loop [] n oss = (n, oss @ str '']'')"
| "format_peers_loop (c # cs) n oss =
     (case compact_to_peer c 0 of
        None \<Rightarrow> format_peers_loop cs n oss
      | Some (a, p) \<Rightarrow>
          format_peers_loop cs (n + 1) (oss @ (if 0 < n then str '', '' else []) @ a @ str '':'' @ dec (unat p)))"

definition format_peers :: "bytes list \<Rightarrow> nat \<times> bytes" where
  "format_peers compact_peers = format_peers_loop compact_peers 0 (str ''['')"

definition hash_text :: "info_hash option \<Rightarrow> bytes" where
  "hash_text h = (case h of Some h \<Rightarrow> take 8 (to_hex h) @ str ''...'' | None \<Rightarrow> str ''?'')"

fun query_text :: "krpc_message \<Rightarrow> krpc_query \<Rightarrow> bytes" where
  "query_text msg Ping = str '' PING''"
| "query_text msg FindNode = str '' FIND_NODE target='' @ take 8 (id_hex (km_target msg)) @ str ''...''"
| "query_text msg GetPeers = str '' GET_PEERS info_hash='' @ hash_text (km_info_hash msg)"
| "query_text msg AnnouncePeer = str '' ANNOUNCE_PEERS info_hash='' @ hash_text (km_info_hash msg) @
     str '' port='' @ dec (unat (km_peer_port msg)) @ (if km_implied_port msg then str '' implied_port=1'' else [])"

definition indent :: bytes where
  "indent = 10 # str ''    ''"

definition response_text :: "krpc_message \<Rightarrow> bytes" where
  "response_text msg =
     (if km_nodes msg \<noteq> []
      then indent @ str ''nodes('' @
           dec (if km_node_counts msg \<noteq> [] then sum_list (km_node_counts msg) else length (km_nodes msg)) @
           str '')='' @ format_nodes (km_nodes msg) (km_node_counts msg) else []) @
     (if km_values msg \<noteq> []
      then (case format_peers (km_values msg) of (peer_count, peer_list) \<Rightarrow>
              indent @ str ''values('' @ dec peer_count @ str '')='' @ peer_list) else []) @
     (if km_token msg \<noteq> [] then indent @ str ''token='' @ bytes_to_hex (km_token msg) else []) @
     (if \<not> is_zero (km_sender msg) then indent @ str ''id='' @ take 8 (id_hex (km_sender msg)) @ str ''...'' else [])"

definition type_text :: "krpc_message \<Rightarrow> bytes" where
  "type_text msg =
     (case km_type msg of
        Query \<Rightarrow> str '' QUERY'' @ (case km_query msg of None \<Rightarrow> str '' q=?'' | Some q \<Rightarrow> query_text msg q)
      | Response \<Rightarrow> str '' RESPONSE'' @ response_text msg
      | Error \<Rightarrow> str '' ERROR code='' @ dec_int (km_error_code msg) @ str '' msg='' @ [34] @ km_error_msg msg @ [34])"

definition format_krpc_summary :: "krpc_message \<Rightarrow> bytes" where
  "format_krpc_summary msg =
     str ''transaction_id='' @ bytes_to_hex (km_txn msg) @ type_text msg @
     (if \<not> is_zero (km_sender msg) \<and> km_type msg \<noteq> Response
      then str '' id='' @ take 8 (id_hex (km_sender msg)) @ str ''...'' else [])"

definition log_krpc :: "time \<Rightarrow> bytes \<Rightarrow> bytes \<Rightarrow> peer_address \<Rightarrow> bytes" where
  "log_krpc now direction msg pa =
     str ''[KRPC] '' @ direction @ str '' '' @ pa_to_string pa @
     (case parse_krpc now msg of
        Some m \<Rightarrow> str '' '' @ format_krpc_summary m
      | None \<Rightarrow> str '' (unparsed, '' @ dec (length msg) @ str '' bytes)'')"

subsection \<open>What the text shows\<close>

lemma bytes_to_hex_id: "bytes_to_hex bs = id_hex bs"
  by (simp add: bytes_to_hex_def id_hex_def)

lemma bytes_to_hex_inj: "bytes_to_hex xs = bytes_to_hex ys \<Longrightarrow> xs = ys"
proof -
  assume eq: "bytes_to_hex xs = bytes_to_hex ys"
  then have "length xs = length ys" by (metis bytes_to_hex_id length_id_hex nat_mult_eq_cancel1 zero_less_numeral)
  then show ?thesis using eq by (metis bytes_to_hex_id hex_bytes_hex option.inject)
qed

lemma bytes_to_hex_not_space: "b \<in> set (bytes_to_hex xs) \<Longrightarrow> b \<noteq> 32"
  using id_hex_plain [of b xs] by (auto simp: bytes_to_hex_id is_space_def)

text \<open>The transaction identifier can be read off a summary.\<close>

lemma type_text_space: "\<exists>r. type_text msg = 32 # r"
  by (cases "km_type msg") (simp_all add: type_text_def)

lemma summary_transaction:
  "takeWhile (\<lambda>b. b \<noteq> 32) (drop 15 (format_krpc_summary msg)) = bytes_to_hex (km_txn msg)"
proof -
  obtain r where r: "type_text msg = 32 # r" using type_text_space by blast
  have "drop 15 (format_krpc_summary msg) = bytes_to_hex (km_txn msg) @ 32 # (r @
     (if \<not> is_zero (km_sender msg) \<and> km_type msg \<noteq> Response
      then str '' id='' @ take 8 (id_hex (km_sender msg)) @ str ''...'' else []))"
    by (simp add: format_krpc_summary_def r)
  then show ?thesis using bytes_to_hex_not_space by (simp add: takeWhile_append)
qed

text \<open>The list of peers shows every well-formed one and says how many there are.\<close>

lemma format_peers_count: "fst (format_peers cs) = length (filter (\<lambda>c. 6 \<le> length c) cs)"
proof -
  have "fst (format_peers_loop cs n oss) = n + length (filter (\<lambda>c. 6 \<le> length c) cs)" for n oss
    by (induction cs n oss rule: format_peers_loop.induct) (auto simp: compact_to_peer_def split: option.splits if_splits)
  then show ?thesis by (simp add: format_peers_def)
qed

text \<open>The text of a remote error goes into the line as it is, line feeds included.\<close>

lemma error_text_unescaped:
  "format_krpc_summary (empty_message\<lparr>km_type := Error, km_error_msg := [120, 10] @ str ''[KRPC] forged''\<rparr>) =
     str ''transaction_id= ERROR code=0 msg='' @ [34, 120, 10] @ str ''[KRPC] forged'' @ [34]"
  by (simp add: format_krpc_summary_def type_text_def bytes_to_hex_def empty_message_def dec_int_def dec.simps zero_id_def
      digit_byte_def eval_nat_numeral)

subsection \<open>Properties\<close>

text \<open>Two messages with the same summary have the same transaction identifier, so the
  lines of a query and of its answer can be matched.\<close>

theorem summary_determines_transaction:
  "format_krpc_summary m = format_krpc_summary m' \<Longrightarrow> km_txn m = km_txn m'"
  using summary_transaction bytes_to_hex_inj by metis

end
