(* ===== verification/Logger.thy ===== *)
theory Logger
  imports Prelude
begin

section \<open>The logger\<close>

text \<open>
  \<^verbatim>\<open>logger::Logger\<close> (\<^verbatim>\<open>inc/logger.h\<close>): levels, the choice between console and
  file, and the text of a line. The time stamp is an argument. What is written
  goes to one of three places; the file is the path that was opened.
\<close>

datatype level = DEBUG | INFO | WARNING | ERROR | NONE

fun level_num :: "level \<Rightarrow> nat" where
  "level_num DEBUG = 0" | "level_num INFO = 1" | "level_num WARNING = 2" | "level_num ERROR = 3" | "level_num NONE = 4"

record logger =
  lg_min_level :: level
  lg_to_file :: bool
  lg_console :: bool
  lg_prefix :: bytes
  lg_file :: "bytes option"

datatype sink = Stdout | Stderr | LogFile bytes

definition logger_new :: logger where
  "logger_new = \<lparr>lg_min_level = INFO, lg_to_file = False, lg_console = True, lg_prefix = [], lg_file = None\<rparr>"

definition set_level :: "level \<Rightarrow> logger \<Rightarrow> logger" where
  "set_level l lg = lg\<lparr>lg_min_level := l\<rparr>"

definition set_prefix :: "bytes \<Rightarrow> logger \<Rightarrow> logger" where
  "set_prefix p lg = lg\<lparr>lg_prefix := p\<rparr>"

definition set_console_enabled :: "bool \<Rightarrow> logger \<Rightarrow> logger" where
  "set_console_enabled e lg = lg\<lparr>lg_console := e\<rparr>"

text \<open>
  Whether the file could be opened is an argument; an error of the creation of
  directories is an exception that leaves the old file closed.
\<close>

datatype open_result = Opened | NotOpened | DirectoryError

definition set_file :: "open_result \<Rightarrow> bytes \<Rightarrow> logger \<Rightarrow> logger" where
  "set_file r path lg =
     (let lg = lg\<lparr>lg_file := None\<rparr>
      in case r of
           DirectoryError \<Rightarrow> lg
         | NotOpened \<Rightarrow> lg\<lparr>lg_to_file := False\<rparr>
         | Opened \<Rightarrow> lg\<lparr>lg_file := Some path, lg_to_file := True, lg_console := False\<rparr>)"

fun level_string :: "level \<Rightarrow> bytes" where
  "level_string DEBUG = str ''DEBUG''" | "level_string INFO = str ''INFO ''" | "level_string WARNING = str ''WARN ''"
| "level_string ERROR = str ''ERROR''" | "level_string NONE = str ''?????''"

fun color_code :: "level \<Rightarrow> bytes" where
  "color_code DEBUG = 27 # str ''[36m''" | "color_code INFO = 27 # str ''[32m''" | "color_code WARNING = 27 # str ''[33m''"
| "color_code ERROR = 27 # str ''[31m''" | "color_code NONE = 27 # str ''[0m''"

definition log_line :: "bytes \<Rightarrow> level \<Rightarrow> bytes \<Rightarrow> (bytes \<times> int) option \<Rightarrow> logger \<Rightarrow> bytes" where
  "log_line stamp l message src lg =
     str ''['' @ stamp @ str ''] '' @ str ''['' @ level_string l @ str ''] '' @ lg_prefix lg @
     (case src of None \<Rightarrow> [] | Some (file, line) \<Rightarrow> str ''['' @ file @ str '':'' @ dec_int line @ str ''] '') @ message"

definition log_message :: "bytes \<Rightarrow> level \<Rightarrow> bytes \<Rightarrow> (bytes \<times> int) option \<Rightarrow> logger \<Rightarrow> (sink \<times> bytes) list" where
  "log_message stamp l message src lg =
     (if level_num l < level_num (lg_min_level lg) then []
      else
        let output = log_line stamp l message src lg
        in (if lg_console lg
            then [(if level_num WARNING \<le> level_num l then Stderr else Stdout, color_code l @ output @ 27 # str ''[0m'' @ [10])]
            else []) @
           (case lg_file lg of Some path \<Rightarrow> if lg_to_file lg then [(LogFile path, output @ [10])] else [] | None \<Rightarrow> []))"

text \<open>\<^verbatim>\<open>throw_error\<close>: the line first, then the exception with the bare message.\<close>

definition throw_error :: "bytes \<Rightarrow> bytes \<Rightarrow> (bytes \<times> int) option \<Rightarrow> logger \<Rightarrow> (sink \<times> bytes) list \<times> bytes" where
  "throw_error stamp message src lg = (log_message stamp ERROR message src lg, message)"

subsection \<open>Where lines go\<close>

datatype log_op = SetLevel level | SetPrefix bytes | SetConsole bool | SetFile open_result bytes

fun log_apply :: "log_op \<Rightarrow> logger \<Rightarrow> logger" where
  "log_apply (SetLevel l) lg = set_level l lg"
| "log_apply (SetPrefix p) lg = set_prefix p lg"
| "log_apply (SetConsole e) lg = set_console_enabled e lg"
| "log_apply (SetFile r path) lg = set_file r path lg"

text \<open>
  A line goes at most to one console stream and one file, the two copies with
  the same text, and a logger that nobody configured writes to the console.
\<close>

lemma log_sinks: "length (log_message stamp l m src lg) \<le> 2 \<and> distinct (map fst (log_message stamp l m src lg))"
  by (auto simp: log_message_def Let_def split: option.split)

lemma log_text: "(s, t) \<in> set (log_message stamp l m src lg) \<Longrightarrow> \<exists>pre post. t = pre @ log_line stamp l m src lg @ post"
  by (auto simp: log_message_def Let_def split: if_splits option.splits)

lemma below_level_silent: "level_num l < level_num (lg_min_level lg) \<Longrightarrow> log_message stamp l m src lg = []"
  by (simp add: log_message_def)

lemma default_console: "log_message stamp WARNING m src logger_new = [(Stderr, color_code WARNING @ log_line stamp WARNING m src logger_new @ 27 # str ''[0m'' @ [10])]"
  by (simp add: log_message_def logger_new_def Let_def)

text \<open>
  A file that cannot be opened after one that could leaves the logger with
  neither file nor console: every later line is lost.
\<close>

lemma failed_reopen_silences:
  "log_message stamp l m src (set_file NotOpened p2 (set_file Opened p1 lg)) = []"
  by (simp add: log_message_def set_file_def Let_def)

text \<open>Every error is written somewhere as long as the file, or else the console, is available.\<close>

definition audible :: "logger \<Rightarrow> bool" where
  "audible lg \<longleftrightarrow> lg_min_level lg \<noteq> NONE \<and> (lg_console lg \<or> lg_to_file lg \<and> lg_file lg \<noteq> None)"

lemma errors_written: "audible lg \<Longrightarrow> fst (throw_error stamp m src lg) \<noteq> []"
  by (cases "lg_min_level lg") (auto simp: audible_def throw_error_def log_message_def Let_def)

lemma log_apply_audible:
  "audible lg \<Longrightarrow> op \<notin> {SetLevel NONE, SetConsole False} \<Longrightarrow> (\<And>r p. op = SetFile r p \<Longrightarrow> r = Opened) \<Longrightarrow> audible (log_apply op lg)"
  by (cases op) (auto simp: audible_def set_level_def set_prefix_def set_console_enabled_def set_file_def Let_def)

end
