(* ===== verification/Spec2Isabelle.thy ===== *)
theory Spec2Isabelle
  imports Session_Start Status_Text Torrent_File Http_Tracker Udp_Tracker Ssl_Socket Krpc_Log Logger
begin

text \<open>
  \<^bold>\<open>A verified model of the BitTorrent client.\<close>
  This development models the C++ client under \<^verbatim>\<open>src/inc\<close> and
  \<^verbatim>\<open>src/src\<close> and proves what makes its parts correct. This theory
  imports the others and holds the overview.

  \<^bold>\<open>The program.\<close> A \<^verbatim>\<open>.torrent\<close> file is parsed
  (\<^verbatim>\<open>bencode/\<close>, \<^verbatim>\<open>torrent_file\<close>) into the piece hashes, the file layout
  and the tracker. A \<^verbatim>\<open>TorrentManager\<close> announces to the tracker
  (\<^verbatim>\<open>trackers/\<close>) and runs up to forty threads, each with one
  \<^verbatim>\<open>PeerConnection\<close> that exchanges peer messages, claims pieces from the
  shared \<^verbatim>\<open>PieceManager\<close>, assembles them from blocks and serves blocks to
  the peer; verified pieces go to the files through the \<^verbatim>\<open>DiskWriter\<close>. A
  \<^verbatim>\<open>SessionManager\<close> owns all torrents and one \<^verbatim>\<open>DhtClient\<close>, a Kademlia
  node (\<^verbatim>\<open>dht/\<close>) that looks up and announces the info hashes and reports
  peers back through a callback.

  \<^bold>\<open>Conventions.\<close> A byte is an \<^typ>\<open>8 word\<close> and a string or buffer a list
  of bytes. Ports, lengths on the wire and identifiers keep their width as
  words; counters and offsets are \<^typ>\<open>nat\<close> with \<open>u32\<close>, \<open>u64\<close> and
  \<open>u64_sub\<close> written where the code's arithmetic wraps. Time is a number of
  nanoseconds on the steady clock. A throw is an error value of a sum type
  with one constructor per throw site, an empty optional is \<open>None\<close>. Code
  outside the repository is an argument: SHA-1 (OpenSSL), random bytes, name
  resolution, \<^verbatim>\<open>inet_ntop\<close>, and the bytes that sockets deliver. A method that
  holds its object's mutex is one operation; where threads meet between
  critical sections (piece manager, torrent manager, peer store, DHT client)
  an inductive step relation interleaves them. Every definition that
  translates code is executable.

  \<^bold>\<open>Shared theories.\<close> \<open>Prelude\<close>: types, wrap-around, decimal text, ordered
  maps, generic list lemmas. \<open>Byte_Order\<close> (\<^verbatim>\<open>byte_order.h\<close>): big-endian
  reads and writes invert each other. \<open>Addresses\<close> (\<^verbatim>\<open>crypto.h\<close>,
  \<^verbatim>\<open>info_hash.h\<close>, \<^verbatim>\<open>peer_address\<close>): hexadecimal and URL encoding,
  dotted addresses and the compact peer format with their round trips.
  \<open>Utilities\<close> (\<^verbatim>\<open>utils.h\<close>): file names, JSON escapes, durations, the peer identifier.

  \<^bold>\<open>Bencode and torrent files.\<close> \<open>Bencode\<close> has the value type, the encoder
  and the recursive-descent parser with its 64-bit position arithmetic. Its
  recursion takes fuel, one unit more than there are input bytes; every value
  consumes a byte, so the fuel never runs out. Parsing inverts encoding, and
  whatever is accepted is well formed. \<open>Bencode_Fields\<close> has the typed field
  access of \<^verbatim>\<open>get_val\<close> and \<^verbatim>\<open>as\<close>. \<open>Torrent_File\<close> has
  \<^verbatim>\<open>Parser::parse\<close>, the \<^verbatim>\<open>TorrentFile\<close> constructor and the construction of
  the manager: an accepted file has sound piece sizes, hashes and total, its
  info hash is taken over exactly the bytes of the info value, and a torrent
  whose numbers agree starts with the invariant the peer threads need.

  \<^bold>\<open>Peer wire.\<close> \<open>Peer_Message\<close> (\<^verbatim>\<open>peer_message\<close>): framing, handshake and
  typed messages, decoding characterised exactly. \<open>Disk_Writer\<close>
  (\<^verbatim>\<open>disk_writer\<close>): the layout of pieces over files, preallocation, writes
  and reads over a file system that can fail; writing a piece refines the
  replacement of a range of one image of all files, through the locale
  \<open>piece_store\<close>. \<open>Piece_Manager\<close> (\<^verbatim>\<open>piece_manager\<close>): claiming, endgame,
  verification and serving, and the step relation \<open>pm_step\<close> of threads in any
  interleaving: claims are exclusive, and a complete torrent is on disk and
  hashes correctly. \<open>Peer_Connection\<close> (\<^verbatim>\<open>peer_connection\<close>): the state of one
  connection, every handler, the request pipeline, the receive loop and the
  destructor, with the locale \<open>manager_contract\<close> for what a handler may do to
  the manager. \<open>Peer_Session\<close>: whole sessions keep the manager's invariant on
  any input, leak no claim, request exactly the due blocks and assemble pieces
  from blocks in any order. \<open>Torrent_Manager\<close> (\<^verbatim>\<open>torrent_manager\<close>): the
  worker pool with its counters as a step relation, announces, start, stop
  and statistics; the pool invariant, draining after stop, and the safety of a
  worker from handshake to destructor. \<open>Session_Manager\<close>
  (\<^verbatim>\<open>session_manager\<close>): start and stop of everything, routing of DHT peers to
  the torrents, rates and which summaries are written. \<open>Run_Summary\<close>: the
  contents of the JSON summaries, which a reader of JSON gets back, and
  \<open>Status_Text\<close>: the status display. \<open>Session_Start\<close>: \<^verbatim>\<open>start_all\<close> and the
  destructor over the port mapping, the DHT client and the torrents together.

  \<^bold>\<open>Trackers.\<close> \<open>Tracker\<close>: protocols, announce URLs and requests.
  \<open>Udp_Tracker\<close>: the messages of BEP 15 and both exchanges with at most nine
  attempts each, the bound of \<^verbatim>\<open>MAX_RETRANSMISSIONS\<close>; the loops recurse on
  the attempts left, and eight lost or foreign datagrams are survived.
  \<open>Http_Tracker\<close>: queries, requests, responses and the loop over addresses,
  announce and scrape.

  \<^bold>\<open>DHT.\<close> \<open>Node_Id\<close>: the XOR metric and bucket indices. \<open>Routing_Table\<close>:
  the arrays of buckets, refined to the Kademlia rule on lists through the
  locale \<open>node_table\<close>. \<open>Routing_Table_Store\<close>: the text file of the table,
  read back as written. \<open>Lru_Cache\<close> and \<open>Peer_Store\<close>: the list and index of
  the cache as two structures, refined to a recency list, and the bounded
  store of peers with lifetimes on top of it. \<open>Krpc\<close>: builders and parser of
  the messages. \<open>Token_Rotator\<close>, \<open>Announce_Coordinator\<close>: announce tokens
  and registered torrents. \<open>Kademlia_Lookup\<close>, \<open>Lookup_Manager\<close>: iterative
  lookups, bounded and always progressing. \<open>Dht_Client\<close>: the handlers and
  rounds over all of these, with an invariant for every reachable state and
  the announce handshake end to end. \<open>Dht_Node\<close>: start with a saved table,
  the periodic save, and stop. \<open>Krpc_Log\<close>: the log lines of messages.

  \<^bold>\<open>Network.\<close> \<open>Sockets\<close>: the send and receive loops over arbitrary results of
  the system calls, which implement the byte streams \<open>Peer_Connection\<close> is built
  on; the connect with a time limit, which restores the flags of the descriptor;
  the single calls, and who closes a descriptor. \<open>Ssl_Socket\<close>: the same for TLS, with OpenSSL as
  an argument. \<open>Upnp\<close>: the search for a gateway, the control URL in its
  description, the SOAP requests and the mapping object, and the exchange over
  the sockets. \<open>Logger\<close>: where log lines go. \<open>Ownership\<close>: what
  makes these move-only classes release a resource exactly once.

  \<^bold>\<open>Locales.\<close> Each interface is a locale with the laws a client relies on and
  is interpreted on the model's definitions in the providing theory:
  \<open>piece_store\<close> on the disk writer, \<open>manager_contract\<close> on the piece manager,
  \<open>node_table\<close> on the routing table, the cache interface on the LRU cache,
  and \<open>owner\<close> on TCP, UDP and TLS sockets and on port mappings. Properties rest
  on the interpreted facts.

  \<^bold>\<open>Not modelled.\<close> The classes of \<^verbatim>\<open>net/socket_addresses.h\<close> wrap the address
  structures of the operating system. Which log files the managers open, and the
  messages they log besides the lines of KRPC messages, are output that nothing
  reads back. Numbers the code keeps in floating point are exact quotients.
  Exceptions from allocation and the joining of threads are not modelled.
  The tests under \<^verbatim>\<open>src/tests\<close> are the only programs with a main function.
\<close>

end
